(* ===== verification/Hummock_Prelude.thy ===== *)
theory Hummock_Prelude
  imports
    Main
    "HOL-Library.Word"
    "HOL-Library.List_Lexorder"
    "HOL-Library.Monad_Syntax"
    "HOL-Library.Sublist"
begin

text \<open>
  Shared vocabulary of the development: machine integers and byte strings, Rust's
  three-valued \<open>Ordering\<close>, range bounds, big-endian integer coding (the \<open>Buf\<close>/\<open>BufMut\<close>
  accessors the sources use), slice searches (\<open>rposition\<close>, \<open>partition_point\<close>) and
  ordered maps (\<open>BTreeMap\<close>) as strictly sorted association lists.

  Conventions. A Rust \<open>panic!\<close>, failed \<open>assert!\<close>, out-of-range slice or \<open>unwrap\<close> of
  \<open>None\<close> is the value \<open>None\<close> of an \<open>option\<close> result; a recoverable \<open>Result\<close> is a sum.
  The model is of the release profile of \<^verbatim>\<open>Cargo.toml\<close>: arithmetic on \<open>u16\<close>/\<open>u32\<close>/\<open>u64\<close>
  wraps (words), and \<open>debug_assert!\<close> is not executed. Lengths and indices (\<open>usize\<close>) are \<open>nat\<close>.
\<close>

unbundle bit_operations_syntax

named_theorems bytes_simps \<open>length and decoding facts of the byte-level encoders\<close>
named_theorems order_simps \<open>three-way comparisons read as order relations\<close>
named_theorems btree_simps \<open>laws of the ordered association lists\<close>

type_synonym u8 = "8 word"
type_synonym u16 = "16 word"
type_synonym u32 = "32 word"
type_synonym u64 = "64 word"
type_synonym bytes = "u8 list"

section \<open>Three-way comparison\<close>

datatype ordering = Less | Equal | Greater

definition cmp :: "'a::linorder \<Rightarrow> 'a \<Rightarrow> ordering" where
  "cmp x y = (if x < y then Less else if x = y then Equal else Greater)"

fun then_with :: "ordering \<Rightarrow> ordering \<Rightarrow> ordering" where
  "then_with Equal o2 = o2"
| "then_with o1 _ = o1"

fun ord_reverse :: "ordering \<Rightarrow> ordering" where
  "ord_reverse Less = Greater"
| "ord_reverse Equal = Equal"
| "ord_reverse Greater = Less"

lemma cmp_Less [simp, order_simps]: "cmp x y = Less \<longleftrightarrow> x < y"
  by (auto simp: cmp_def)

lemma cmp_Equal [simp, order_simps]: "cmp x y = Equal \<longleftrightarrow> x = y"
  by (auto simp: cmp_def)

lemma cmp_Greater [simp, order_simps]: "cmp x y = Greater \<longleftrightarrow> y < x"
  by (auto simp: cmp_def)

lemma cmp_refl [simp]: "cmp x x = Equal"
  by (simp add: cmp_def)

lemma ord_reverse_cmp: "ord_reverse (cmp x y) = cmp y x"
  by (auto simp: cmp_def)

lemma cmp_swap: "cmp y x = ord_reverse (cmp x y)"
  by (simp add: ord_reverse_cmp)

lemma then_with_Equal [simp]: "then_with o1 o2 = Equal \<longleftrightarrow> o1 = Equal \<and> o2 = Equal"
  by (cases o1) auto

lemma then_with_Less [simp]: "then_with o1 o2 = Less \<longleftrightarrow> o1 = Less \<or> o1 = Equal \<and> o2 = Less"
  by (cases o1) auto

lemma then_with_Greater [simp]:
  "then_with o1 o2 = Greater \<longleftrightarrow> o1 = Greater \<or> o1 = Equal \<and> o2 = Greater"
  by (cases o1) auto

section \<open>Range bounds\<close>

datatype 'a bound = Included 'a | Excluded 'a | Unbounded

fun above_start :: "'a::linorder bound \<Rightarrow> 'a \<Rightarrow> bool" where
  "above_start (Included b) x = (b \<le> x)"
| "above_start (Excluded b) x = (b < x)"
| "above_start Unbounded x = True"

fun below_end :: "'a::linorder bound \<Rightarrow> 'a \<Rightarrow> bool" where
  "below_end (Included b) x = (x \<le> b)"
| "below_end (Excluded b) x = (x < b)"
| "below_end Unbounded x = True"

text \<open>\<open>RangeBounds::contains\<close>.\<close>

definition in_range :: "'a::linorder bound \<times> 'a bound \<Rightarrow> 'a \<Rightarrow> bool" where
  "in_range r x = (above_start (fst r) x \<and> below_end (snd r) x)"

lemma below_end_mono: "below_end b y \<Longrightarrow> x \<le> y \<Longrightarrow> below_end b x"
  by (cases b) auto

lemma above_start_mono: "above_start b x \<Longrightarrow> x \<le> y \<Longrightarrow> above_start b y"
  by (cases b) auto

lemma in_range_convex:
  assumes "in_range r x" and "in_range r z" and "x \<le> y" and "y \<le> z"
  shows "in_range r y"
  using assms by (auto simp: in_range_def intro: below_end_mono above_start_mono)

section \<open>Lexicographic order of byte strings\<close>

lemma append_less_iff_same_length:
  fixes a c :: "'a::linorder list"
  assumes "length a = length c"
  shows "a @ b < c @ d \<longleftrightarrow> a < c \<or> a = c \<and> b < d"
  using assms by (induction a c rule: list_induct2) auto

lemma append_le_iff_same_length:
  fixes a c :: "'a::linorder list"
  assumes "length a = length c"
  shows "a @ b \<le> c @ d \<longleftrightarrow> a < c \<or> a = c \<and> b \<le> d"
  using assms by (induction a c rule: list_induct2) auto

lemma append_left_less_cancel [simp]: "(a :: 'a::linorder list) @ b < a @ c \<longleftrightarrow> b < c"
  by (induction a) auto

lemma append_left_le_cancel [simp]: "(a :: 'a::linorder list) @ b \<le> a @ c \<longleftrightarrow> b \<le> c"
  by (induction a) auto

lemma prefix_imp_le: "prefix (a :: 'a::linorder list) b \<Longrightarrow> a \<le> b"
  by (auto simp: prefix_def) (metis append.right_neutral append_left_le_cancel Nil_le_Cons neq_Nil_conv order_refl)

lemma less_append_cases:
  fixes a b :: "'a::linorder list"
  assumes "a < b" and "\<not> prefix a b"
  shows "a @ x < b @ y"
  using assms
proof (induction a arbitrary: b)
  case Nil
  then show ?case by simp
next
  case (Cons p ps)
  then show ?case by (cases b) auto
qed

section \<open>Big-endian integers\<close>

fun nat_be :: "nat \<Rightarrow> nat \<Rightarrow> bytes" where
  "nat_be 0 n = []"
| "nat_be (Suc k) n = nat_be k (n div 256) @ [word_of_nat n]"

definition be_nat :: "bytes \<Rightarrow> nat" where
  "be_nat bs = foldl (\<lambda>a b. a * 256 + unat b) 0 bs"

lemma be_nat_Nil [simp]: "be_nat [] = 0"
  by (simp add: be_nat_def)

lemma be_nat_snoc [simp]: "be_nat (bs @ [b]) = be_nat bs * 256 + unat b"
  by (simp add: be_nat_def)

lemma unat_u8_less [simp]: "unat (b :: u8) < 256"
proof -
  have "unat b < 2 ^ LENGTH(8)" by (rule unsigned_less)
  then show ?thesis by simp
qed

lemma length_nat_be [simp, bytes_simps]: "length (nat_be k n) = k"
  by (induction k arbitrary: n) auto

lemma unat_word_of_nat_u8 [simp]: "unat (word_of_nat n :: u8) = n mod 256"
  by (simp add: unat_of_nat)

lemma be_nat_nat_be: "be_nat (nat_be k n) = n mod 256 ^ k"
proof (induction k arbitrary: n)
  case 0
  then show ?case by simp
next
  case (Suc k)
  have "n mod (256 * 256 ^ k) = 256 * (n div 256 mod 256 ^ k) + n mod 256"
    by (rule mod_mult2_eq)
  then show ?case by (simp add: Suc.IH algebra_simps)
qed

lemma be_nat_less: "be_nat bs < 256 ^ length bs"
proof (induction bs rule: rev_induct)
  case Nil
  then show ?case by simp
next
  case (snoc b bs)
  have "unat b < 256" by simp
  with snoc have "be_nat bs * 256 + unat b < (be_nat bs + 1) * 256"
    by simp
  also have "\<dots> \<le> 256 ^ length bs * 256"
    using snoc by (intro mult_le_mono1) simp
  finally show ?case by simp
qed

lemma nat_be_be_nat: "nat_be (length bs) (be_nat bs) = bs"
proof (induction bs rule: rev_induct)
  case Nil
  then show ?case by simp
next
  case (snoc b bs)
  have "(be_nat bs * 256 + unat b) div 256 = be_nat bs" by simp
  moreover have "unat (word_of_nat (be_nat bs * 256 + unat b) :: u8) = unat b"
    unfolding unat_word_of_nat_u8 by simp
  then have "(word_of_nat (be_nat bs * 256 + unat b) :: u8) = b"
    by (simp only: word_unat_eq_iff)
  ultimately show ?case using snoc by simp
qed

lemma snoc_less_iff:
  fixes a c :: "'a::linorder list"
  assumes "length a = length c"
  shows "a @ [x] < c @ [y] \<longleftrightarrow> a < c \<or> a = c \<and> x < y"
  by (simp add: append_less_iff_same_length [OF assms])

lemma digit_less_iff:
  fixes a b x y :: nat
  assumes "x < 256" and "y < 256"
  shows "a * 256 + x < b * 256 + y \<longleftrightarrow> a < b \<or> a = b \<and> x < y"
proof (cases a b rule: linorder_cases)
  case less
  then have "(a + 1) * 256 \<le> b * 256" by (intro mult_le_mono1) simp
  with less assms show ?thesis by simp
next
  case equal
  then show ?thesis by simp
next
  case greater
  then have "(b + 1) * 256 \<le> a * 256" by (intro mult_le_mono1) simp
  with greater assms show ?thesis by simp
qed

lemma be_nat_inject:
  assumes "length a = length b"
  shows "be_nat a = be_nat b \<longleftrightarrow> a = b"
proof
  assume "be_nat a = be_nat b"
  with assms have "nat_be (length a) (be_nat a) = nat_be (length b) (be_nat b)" by simp
  then show "a = b" by (simp only: nat_be_be_nat)
qed simp

lemma be_nat_less_iff:
  assumes "length a = length b"
  shows "a < b \<longleftrightarrow> be_nat a < be_nat b"
  using assms
proof (induction a arbitrary: b rule: rev_induct)
  case Nil
  then show ?case by simp
next
  case (snoc x xs)
  then obtain ys y where b: "b = ys @ [y]" and len: "length xs = length ys"
    by (cases b rule: rev_cases) auto
  show ?case
    unfolding b snoc_less_iff [OF len] be_nat_snoc word_less_nat_alt
      digit_less_iff [OF unat_u8_less unat_u8_less] snoc.IH [OF len] be_nat_inject [OF len]
    by (rule refl)
qed

text \<open>\<open>BufMut::put_u16/put_u32/put_u64\<close> append these bytes.\<close>

definition be_u16 :: "u16 \<Rightarrow> bytes" where "be_u16 w = nat_be 2 (unat w)"
definition be_u32 :: "u32 \<Rightarrow> bytes" where "be_u32 w = nat_be 4 (unat w)"
definition be_u64 :: "u64 \<Rightarrow> bytes" where "be_u64 w = nat_be 8 (unat w)"

text \<open>\<open>Buf::get_u16/get_u32/get_u64\<close>: read a prefix, panic when the buffer is too short.\<close>

definition get_u16 :: "bytes \<Rightarrow> (u16 \<times> bytes) option" where
  "get_u16 bs = (if length bs < 2 then None else Some (word_of_nat (be_nat (take 2 bs)), drop 2 bs))"
definition get_u32 :: "bytes \<Rightarrow> (u32 \<times> bytes) option" where
  "get_u32 bs = (if length bs < 4 then None else Some (word_of_nat (be_nat (take 4 bs)), drop 4 bs))"
definition get_u64 :: "bytes \<Rightarrow> (u64 \<times> bytes) option" where
  "get_u64 bs = (if length bs < 8 then None else Some (word_of_nat (be_nat (take 8 bs)), drop 8 bs))"

lemma unat_u16_bound: "unat (a :: u16) < 256 ^ 2"
proof -
  have "unat a < 2 ^ LENGTH(16)" by (rule unsigned_less)
  then show ?thesis by simp
qed

lemma unat_u32_bound: "unat (a :: u32) < 256 ^ 4"
proof -
  have "unat a < 2 ^ LENGTH(32)" by (rule unsigned_less)
  then show ?thesis by simp
qed

lemma unat_u64_bound: "unat (a :: u64) < 256 ^ 8"
proof -
  have "unat a < 2 ^ LENGTH(64)" by (rule unsigned_less)
  then show ?thesis by simp
qed

lemmas unat_bounds = unat_u16_bound unat_u32_bound unat_u64_bound

lemma nat_be_2: "nat_be 2 n = [word_of_nat (n div 256), word_of_nat n]"
  by (simp add: numeral_2_eq_2)

lemmas be_defs = be_u16_def be_u32_def be_u64_def
lemmas get_defs = get_u16_def get_u32_def get_u64_def

lemma length_be [simp, bytes_simps]:
  "length (be_u16 a) = 2" "length (be_u32 b) = 4" "length (be_u64 c) = 8"
  by (simp_all add: be_defs)

lemma be_nat_be [simp]:
  "be_nat (be_u16 a) = unat a" "be_nat (be_u32 b) = unat b" "be_nat (be_u64 c) = unat c"
  by (simp_all only: be_defs be_nat_nat_be mod_less [OF unat_u16_bound]
      mod_less [OF unat_u32_bound] mod_less [OF unat_u64_bound])

lemma get_be [simp, bytes_simps]:
  "get_u16 (be_u16 a @ bs) = Some (a, bs)"
  "get_u32 (be_u32 b @ bs) = Some (b, bs)"
  "get_u64 (be_u64 c @ bs) = Some (c, bs)"
  by (simp_all add: get_defs)

lemma get_be_Nil [simp, bytes_simps]:
  "get_u16 (be_u16 a) = Some (a, [])"
  "get_u32 (be_u32 b) = Some (b, [])"
  "get_u64 (be_u64 c) = Some (c, [])"
  by (simp_all add: get_defs)

lemma be_less_iff [simp, order_simps]:
  "be_u16 a < be_u16 a' \<longleftrightarrow> a < a'"
  "be_u32 b < be_u32 b' \<longleftrightarrow> b < b'"
  "be_u64 c < be_u64 c' \<longleftrightarrow> c < c'"
  by (simp_all add: be_nat_less_iff word_less_nat_alt)

lemma inj_be: "inj be_u16" "inj be_u32" "inj be_u64"
  by (rule inj_on_inverseI [where g = "\<lambda>bs. word_of_nat (be_nat bs)"], simp)+

lemmas be_eq_iff [simp, order_simps] = inj_be [THEN inj_eq]

lemma unat_word_of_nat_less:
  "n < 2 ^ LENGTH('a) \<Longrightarrow> unat (word_of_nat n :: 'a::len word) = n"
  by (simp add: unat_of_nat)

lemma be_u16_of_bytes: "length bs = 2 \<Longrightarrow> be_u16 (word_of_nat (be_nat bs)) = bs"
  using be_nat_less [of bs] nat_be_be_nat [of bs]
  by (simp add: be_u16_def unat_word_of_nat_less)

lemma be_u32_of_bytes: "length bs = 4 \<Longrightarrow> be_u32 (word_of_nat (be_nat bs)) = bs"
  using be_nat_less [of bs] nat_be_be_nat [of bs]
  by (simp add: be_u32_def unat_word_of_nat_less)

lemma be_u64_of_bytes: "length bs = 8 \<Longrightarrow> be_u64 (word_of_nat (be_nat bs)) = bs"
  using be_nat_less [of bs] nat_be_be_nat [of bs]
  by (simp add: be_u64_def unat_word_of_nat_less)

lemmas be_of_bytes = be_u16_of_bytes be_u32_of_bytes be_u64_of_bytes

section \<open>Slice searches\<close>

text \<open>\<open>iter().rposition(p)\<close>: the last index that satisfies \<open>p\<close>.\<close>

fun rposition :: "('a \<Rightarrow> bool) \<Rightarrow> 'a list \<Rightarrow> nat option" where
  "rposition p [] = None"
| "rposition p (x # xs) =
     (case rposition p xs of Some i \<Rightarrow> Some (Suc i) | None \<Rightarrow> if p x then Some 0 else None)"

lemma rposition_None: "rposition p xs = None \<longleftrightarrow> (\<forall>x \<in> set xs. \<not> p x)"
  by (induction xs) (auto split: option.splits)

lemma rposition_SomeD:
  "rposition p xs = Some i \<Longrightarrow>
     i < length xs \<and> p (xs ! i) \<and> (\<forall>x \<in> set (drop (Suc i) xs). \<not> p x)"
proof (induction xs arbitrary: i)
  case Nil
  then show ?case by simp
next
  case (Cons x xs)
  then show ?case
    by (cases "rposition p xs") (auto simp: rposition_None split: if_splits)
qed

lemma rposition_split:
  assumes "rposition p xs = Some i"
  obtains us y vs where "xs = us @ y # vs" "length us = i" "p y" "\<forall>x \<in> set vs. \<not> p x"
    "us = take i xs" "y = xs ! i" "vs = drop (Suc i) xs"
proof -
  have h: "i < length xs" "p (xs ! i)" "\<forall>x \<in> set (drop (Suc i) xs). \<not> p x"
    using rposition_SomeD [OF assms] by auto
  show ?thesis
    by (rule that [of "take i xs" "xs ! i" "drop (Suc i) xs"])
      (use h id_take_nth_drop [OF h(1)] in auto)
qed

lemma rposition_append_None:
  "\<forall>y \<in> set ys. \<not> p y \<Longrightarrow> rposition p (xs @ ys) = rposition p xs"
  by (induction xs) (auto simp: rposition_None split: option.splits)

lemma rposition_split_eq:
  "p y \<Longrightarrow> \<forall>v \<in> set vs. \<not> p v \<Longrightarrow> rposition p (us @ y # vs) = Some (length us)"
  by (induction us) (auto simp: rposition_None split: option.splits)

text \<open>
  \<open>slice::partition_point\<close> is a binary search. Its result is only specified on a
  partitioned slice, so it is modelled as the search and its specification is a lemma.
\<close>

function pp_search :: "('a \<Rightarrow> bool) \<Rightarrow> 'a list \<Rightarrow> nat \<Rightarrow> nat \<Rightarrow> nat" where
  "pp_search p xs lo hi =
     (if lo < hi then
        (let mid = lo + (hi - lo) div 2
         in if p (xs ! mid) then pp_search p xs (Suc mid) hi else pp_search p xs lo mid)
      else lo)"
  by pat_completeness auto
termination
  by (relation "measure (\<lambda>(p, xs, lo, hi). hi - lo)") auto

declare pp_search.simps [simp del]

definition partition_point :: "('a \<Rightarrow> bool) \<Rightarrow> 'a list \<Rightarrow> nat" where
  "partition_point p xs = pp_search p xs 0 (length xs)"

definition partitioned :: "('a \<Rightarrow> bool) \<Rightarrow> 'a list \<Rightarrow> bool" where
  "partitioned p xs = (\<forall>i j. i \<le> j \<longrightarrow> j < length xs \<longrightarrow> p (xs ! j) \<longrightarrow> p (xs ! i))"

lemma pp_search_cut:
  assumes "\<And>i. i < length xs \<Longrightarrow> p (xs ! i) \<longleftrightarrow> i < n"
    and "lo \<le> n" and "n \<le> hi" and "hi \<le> length xs"
  shows "pp_search p xs lo hi = n"
  using assms
proof (induction "hi - lo" arbitrary: lo hi rule: less_induct)
  case less
  define mid where "mid = lo + (hi - lo) div 2"
  show ?case
  proof (cases "lo < hi")
    case True
    then have mid: "lo \<le> mid" "mid < hi" "mid < length xs"
      using less.prems by (auto simp: mid_def)
    have step: "pp_search p xs lo hi =
        (if p (xs ! mid) then pp_search p xs (Suc mid) hi else pp_search p xs lo mid)"
      using True by (subst pp_search.simps) (simp add: Let_def mid_def)
    show ?thesis
    proof (cases "p (xs ! mid)")
      case pm: True
      then have "Suc mid \<le> n" using less.prems(1) mid by auto
      then have "pp_search p xs (Suc mid) hi = n"
        using less.prems mid by (intro less.hyps) auto
      then show ?thesis using step pm by simp
    next
      case pm: False
      then have "n \<le> mid" using less.prems(1) mid by auto
      then have "pp_search p xs lo mid = n"
        using less.prems mid by (intro less.hyps) auto
      then show ?thesis using step pm by simp
    qed
  next
    case False
    with less.prems show ?thesis by (subst pp_search.simps) auto
  qed
qed

lemma partitioned_takeWhile:
  assumes "partitioned p xs" and "i < length xs"
  shows "p (xs ! i) \<longleftrightarrow> i < length (takeWhile p xs)"
proof
  assume "i < length (takeWhile p xs)"
  then show "p (xs ! i)" by (metis nth_mem set_takeWhileD takeWhile_nth)
next
  assume pi: "p (xs ! i)"
  show "i < length (takeWhile p xs)"
  proof (rule ccontr)
    assume "\<not> ?thesis"
    then have le: "length (takeWhile p xs) \<le> i" by simp
    with assms(2) have "length (takeWhile p xs) < length xs" by simp
    then have "\<not> p (xs ! length (takeWhile p xs))" by (rule nth_length_takeWhile)
    with le assms pi show False unfolding partitioned_def by blast
  qed
qed

lemma partition_point_takeWhile:
  assumes "partitioned p xs"
  shows "partition_point p xs = length (takeWhile p xs)"
  unfolding partition_point_def
  by (rule pp_search_cut) (auto simp: partitioned_takeWhile [OF assms] length_takeWhile_le)

lemma partition_point_less_iff:
  assumes "partitioned p xs" and "i < length xs"
  shows "i < partition_point p xs \<longleftrightarrow> p (xs ! i)"
  using assms by (simp add: partition_point_takeWhile partitioned_takeWhile)

lemma partition_point_le_length: "partitioned p xs \<Longrightarrow> partition_point p xs \<le> length xs"
  by (simp add: partition_point_takeWhile length_takeWhile_le)

lemma partitioned_sorted_wrt:
  assumes "sorted_wrt R xs" and "\<And>x y. x \<in> set xs \<Longrightarrow> y \<in> set xs \<Longrightarrow> R x y \<Longrightarrow> p y \<Longrightarrow> p x"
  shows "partitioned p xs"
  unfolding partitioned_def
proof (intro allI impI)
  fix i j assume "i \<le> j" "j < length xs" "p (xs ! j)"
  then show "p (xs ! i)"
    using sorted_wrt_nth_less [OF assms(1), of i j] assms(2) [of "xs ! i" "xs ! j"]
    by (cases "i = j") auto
qed

text \<open>Between two cuts of a list lie the elements that satisfy the second and not the first predicate.\<close>

lemma partitioned_Cons:
  "partitioned p (x # xs) \<longleftrightarrow> partitioned p xs \<and> ((\<exists>y \<in> set xs. p y) \<longrightarrow> p x)"
proof
  assume l: "partitioned p (x # xs)"
  have "partitioned p xs"
    unfolding partitioned_def
  proof (intro allI impI)
    fix i j assume "i \<le> j" "j < length xs" "p (xs ! j)"
    then show "p (xs ! i)" using l [unfolded partitioned_def, rule_format, of "Suc i" "Suc j"] by simp
  qed
  moreover have "p x" if y: "y \<in> set xs" "p y" for y
  proof -
    obtain j where "j < length xs" "xs ! j = y" using y(1) by (auto simp: in_set_conv_nth)
    then show ?thesis using y(2) l [unfolded partitioned_def, rule_format, of 0 "Suc j"] by auto
  qed
  ultimately show "partitioned p xs \<and> ((\<exists>y \<in> set xs. p y) \<longrightarrow> p x)" by blast
next
  assume r: "partitioned p xs \<and> ((\<exists>y \<in> set xs. p y) \<longrightarrow> p x)"
  show "partitioned p (x # xs)"
    unfolding partitioned_def
  proof (intro allI impI)
    fix i j assume a: "i \<le> j" "j < length (x # xs)" "p ((x # xs) ! j)"
    then show "p ((x # xs) ! i)"
      using r by (cases i; cases j) (auto simp: partitioned_def)
  qed
qed

lemma partition_points_filter:
  assumes "partitioned p xs" and "partitioned q xs"
  shows "drop (partition_point p xs) (take (partition_point q xs) xs) = filter (\<lambda>x. q x \<and> \<not> p x) xs"
proof -
  have "drop (length (takeWhile p xs)) (take (length (takeWhile q xs)) xs)
      = filter (\<lambda>x. q x \<and> \<not> p x) xs"
    using assms
  proof (induction xs)
    case (Cons x xs)
    have "takeWhile p xs = []" if "\<not> p x"
      using that Cons.prems(1) by (cases xs) (auto simp: partitioned_Cons)
    moreover have "filter (\<lambda>x. q x \<and> \<not> p x) xs = []" if "\<not> q x"
      using that Cons.prems(2) by (auto simp: partitioned_Cons filter_empty_conv)
    ultimately show ?case using Cons by (cases "p x"; cases "q x") (auto simp: partitioned_Cons)
  qed simp
  then show ?thesis using assms by (simp add: partition_point_takeWhile)
qed

text \<open>The same search where evaluating the predicate may panic.\<close>

function pp_search_opt :: "('a \<Rightarrow> bool option) \<Rightarrow> 'a list \<Rightarrow> nat \<Rightarrow> nat \<Rightarrow> nat option" where
  "pp_search_opt p xs lo hi =
     (if lo < hi then
        (let mid = lo + (hi - lo) div 2
         in case p (xs ! mid) of
              None \<Rightarrow> None
            | Some b \<Rightarrow> if b then pp_search_opt p xs (Suc mid) hi else pp_search_opt p xs lo mid)
      else Some lo)"
  by pat_completeness auto
termination
  by (relation "measure (\<lambda>(p, xs, lo, hi). hi - lo)") auto

declare pp_search_opt.simps [simp del]

definition partition_point_opt :: "('a \<Rightarrow> bool option) \<Rightarrow> 'a list \<Rightarrow> nat option" where
  "partition_point_opt p xs = pp_search_opt p xs 0 (length xs)"

lemma pp_search_opt_total:
  assumes "\<And>x. x \<in> set xs \<Longrightarrow> p x = Some (q x)" and "hi \<le> length xs"
  shows "pp_search_opt p xs lo hi = Some (pp_search q xs lo hi)"
  using assms(2)
proof (induction "hi - lo" arbitrary: lo hi rule: less_induct)
  case less
  define mid where "mid = lo + (hi - lo) div 2"
  show ?case
  proof (cases "lo < hi")
    case True
    then have mid: "lo \<le> mid" "mid < hi" "mid < length xs"
      using less.prems by (auto simp: mid_def)
    have "p (xs ! mid) = Some (q (xs ! mid))" using assms(1) mid by simp
    moreover have "pp_search_opt p xs (Suc mid) hi = Some (pp_search q xs (Suc mid) hi)"
      using less.prems mid by (intro less.hyps) auto
    moreover have "pp_search_opt p xs lo mid = Some (pp_search q xs lo mid)"
      using less.prems mid by (intro less.hyps) auto
    ultimately show ?thesis
      using True
      by (subst pp_search_opt.simps, subst pp_search.simps) (simp add: Let_def flip: mid_def)
  next
    case False
    then show ?thesis by (subst pp_search_opt.simps, subst pp_search.simps) simp
  qed
qed

lemma partition_point_opt_total:
  assumes "\<And>x. x \<in> set xs \<Longrightarrow> p x = Some (q x)"
  shows "partition_point_opt p xs = Some (partition_point q xs)"
  unfolding partition_point_opt_def partition_point_def
  by (rule pp_search_opt_total [OF assms]) auto

lemma partitioned_sortedI:
  assumes "sorted_wrt R xs" and "\<And>x y. R x y \<Longrightarrow> p y \<Longrightarrow> p x"
  shows "partitioned p xs"
  unfolding partitioned_def
proof (intro allI impI)
  fix i j assume "i \<le> j" "j < length xs" "p (xs ! j)"
  then show "p (xs ! i)"
    using assms sorted_wrt_nth_less [OF assms(1), of i j] by (cases "i = j") auto
qed

section \<open>Slices and little-endian integers\<close>

text \<open>\<open>xs[b..e]\<close>: a slice panics when it is out of range.\<close>

definition slice_range :: "'a list \<Rightarrow> nat \<Rightarrow> nat \<Rightarrow> 'a list option" where
  "slice_range xs b e = (if b \<le> e \<and> e \<le> length xs then Some (drop b (take e xs)) else None)"

definition slice_from :: "'a list \<Rightarrow> nat \<Rightarrow> 'a list option" where
  "slice_from xs b = (if b \<le> length xs then Some (drop b xs) else None)"

text \<open>\<open>put_u32_le\<close> and \<open>get_u32_le\<close>, and those of 64 bits and of a byte.\<close>

definition le_u32 :: "u32 \<Rightarrow> bytes" where "le_u32 w = rev (be_u32 w)"
definition le_u64 :: "u64 \<Rightarrow> bytes" where "le_u64 w = rev (be_u64 w)"

definition get_u32_le :: "bytes \<Rightarrow> (u32 \<times> bytes) option" where
  "get_u32_le bs = (if length bs < 4 then None else Some (word_of_nat (be_nat (rev (take 4 bs))), drop 4 bs))"
definition get_u64_le :: "bytes \<Rightarrow> (u64 \<times> bytes) option" where
  "get_u64_le bs = (if length bs < 8 then None else Some (word_of_nat (be_nat (rev (take 8 bs))), drop 8 bs))"

fun get_u8 :: "bytes \<Rightarrow> (u8 \<times> bytes) option" where
  "get_u8 [] = None"
| "get_u8 (b # bs) = Some (b, bs)"

lemma length_le [simp, bytes_simps]: "length (le_u32 a) = 4" "length (le_u64 b) = 8"
  by (simp_all add: le_u32_def le_u64_def)

lemma get_le [simp, bytes_simps]:
  "get_u32_le (le_u32 a @ bs) = Some (a, bs)" "get_u64_le (le_u64 b @ bs) = Some (b, bs)"
  by (simp_all add: get_u32_le_def get_u64_le_def le_u32_def le_u64_def)

lemma get_le_Nil [simp, bytes_simps]:
  "get_u32_le (le_u32 a) = Some (a, [])" "get_u64_le (le_u64 b) = Some (b, [])"
  using get_le(1) [of a "[]"] get_le(2) [of b "[]"] by simp_all

section \<open>Ordered maps\<close>

text \<open>
  A \<open>BTreeMap\<close> is the list of its entries in key order; the invariant is that keys are
  strictly increasing.
\<close>

type_synonym ('k, 'v) btree = "('k \<times> 'v) list"

definition bt_ok :: "('k::linorder, 'v) btree \<Rightarrow> bool" where
  "bt_ok m = sorted_wrt (<) (map fst m)"

definition bt_get :: "('k, 'v) btree \<Rightarrow> 'k \<Rightarrow> 'v option" where
  "bt_get m k = map_of m k"

fun bt_insert :: "'k::linorder \<Rightarrow> 'v \<Rightarrow> ('k, 'v) btree \<Rightarrow> ('k, 'v) btree" where
  "bt_insert k v [] = [(k, v)]"
| "bt_insert k v ((a, b) # m) =
     (if k < a then (k, v) # (a, b) # m
      else if k = a then (k, v) # m
      else (a, b) # bt_insert k v m)"

definition bt_remove :: "'k \<Rightarrow> ('k, 'v) btree \<Rightarrow> ('k, 'v) btree" where
  "bt_remove k m = filter (\<lambda>e. fst e \<noteq> k) m"

definition bt_range :: "('k::linorder, 'v) btree \<Rightarrow> 'k bound \<times> 'k bound \<Rightarrow> ('k, 'v) btree" where
  "bt_range m r = filter (\<lambda>e. in_range r (fst e)) m"

lemma bt_ok_Nil [simp]: "bt_ok []"
  by (simp add: bt_ok_def)

lemma bt_ok_Cons [simp]: "bt_ok (e # m) \<longleftrightarrow> (\<forall>x \<in> set m. fst e < fst x) \<and> bt_ok m"
  by (auto simp: bt_ok_def)

lemma bt_ok_distinct: "bt_ok m \<Longrightarrow> distinct (map fst m)"
  by (simp add: bt_ok_def strict_sorted_iff)

lemma fst_bt_insert [btree_simps]: "fst ` set (bt_insert k v m) = insert k (fst ` set m)"
  by (induction k v m rule: bt_insert.induct) auto

lemma bt_insert_ok [btree_simps]: "bt_ok m \<Longrightarrow> bt_ok (bt_insert k v m)"
proof (induction k v m rule: bt_insert.induct)
  case (2 k v a b m)
  have "\<forall>y \<in> fst ` set (bt_insert k v m). a < y" if "a < k"
    using 2(2) that by (auto simp: fst_bt_insert)
  with 2 show ?case by (auto dest: order_less_trans)
qed simp

lemma bt_get_insert [btree_simps]: "bt_get (bt_insert k v m) = (bt_get m)(k \<mapsto> v)"
  by (induction k v m rule: bt_insert.induct) (auto simp: bt_get_def)

lemma bt_get_remove [btree_simps]: "bt_get (bt_remove k m) = (bt_get m)(k := None)"
  by (induction m) (auto simp: bt_get_def bt_remove_def fun_eq_iff)

lemma bt_filter_ok: "bt_ok m \<Longrightarrow> bt_ok (filter p m)"
  by (induction m) auto

lemma bt_remove_ok [btree_simps]: "bt_ok m \<Longrightarrow> bt_ok (bt_remove k m)"
  by (simp add: bt_remove_def bt_filter_ok)

lemma bt_range_ok [btree_simps]: "bt_ok m \<Longrightarrow> bt_ok (bt_range m r)"
  by (simp add: bt_range_def bt_filter_ok)

lemma bt_get_range [btree_simps]:
  "bt_get (bt_range m r) k = (if in_range r k then bt_get m k else None)"
  by (induction m) (auto simp: bt_get_def bt_range_def)

lemma bt_get_iff: "bt_ok m \<Longrightarrow> bt_get m k = Some v \<longleftrightarrow> (k, v) \<in> set m"
  by (simp add: bt_get_def bt_ok_distinct)

lemma bt_get_None [btree_simps]: "bt_get m k = None \<longleftrightarrow> k \<notin> fst ` set m"
  by (simp add: bt_get_def map_of_eq_None_iff)

lemma map_fst_eq_set_eq:
  assumes "map fst m = map fst n" and "distinct (map fst m)" and "set m = set n"
  shows "m = n"
proof -
  have "map_of m = map_of n"
    using assms by (intro map_of_inject_set [THEN iffD2]) auto
  then have "snd (m ! i) = snd (n ! i)" if "i < length m" for i
  proof -
    have i: "i < length n" using that assms(1) by (metis length_map)
    have "map_of m (fst (m ! i)) = Some (snd (m ! i))"
      using assms(2) that by (simp add: nth_mem)
    moreover have "map_of n (fst (n ! i)) = Some (snd (n ! i))"
      using assms(1,2) i by (simp add: nth_mem)
    moreover have "fst (m ! i) = fst (n ! i)"
      using assms(1) that i by (metis nth_map)
    ultimately show ?thesis using \<open>map_of m = map_of n\<close> by simp
  qed
  moreover have "length m = length n" using assms(1) by (rule map_eq_imp_length_eq)
  moreover have "fst (m ! i) = fst (n ! i)" if "i < length m" for i
    using assms(1) that calculation by (metis nth_map)
  ultimately show ?thesis by (intro nth_equalityI) (auto intro: prod_eqI)
qed

lemma bt_ext:
  assumes "bt_ok m" and "bt_ok n" and "bt_get m = bt_get n"
  shows "m = n"
proof -
  have "(k, v) \<in> set m \<longleftrightarrow> (k, v) \<in> set n" for k v
    using bt_get_iff [OF assms(1), of k v] bt_get_iff [OF assms(2), of k v] assms(3) by simp
  then have "set m = set n" by auto
  then have sets: "set (map fst m) = set (map fst n)" by (simp add: image_def)
  have keys: "map fst m = map fst n"
    using assms(1,2) sets strict_sorted_equal unfolding bt_ok_def by blast
  show ?thesis
    using keys bt_ok_distinct [OF assms(1)] \<open>set m = set n\<close>
    by (metis map_fst_eq_set_eq)
qed

end
