(* ===== verification/Epoch.thy ===== *)
theory Epoch
  imports Hummock_Prelude
begin

text \<open>
  Epochs, from \<^verbatim>\<open>common/src/util/epoch.rs\<close> and the \<open>EpochWithGap\<close> of
  \<^verbatim>\<open>storage/hummock_sdk/src/lib.rs\<close>. An epoch is a \<open>u64\<close> whose high 48 bits are
  milliseconds since the RisingWave date and whose low 16 bits are left for the spill
  offset of a mem table. The wall clock is a parameter: \<open>clock i\<close> is the \<open>i\<close>-th reading of
  \<open>Epoch::physical_now\<close>.
\<close>

type_synonym hummock_epoch = u64

section \<open>Constants and conversions\<close>

definition unix_risingwave_date_sec :: u64 where
  "unix_risingwave_date_sec = 1617235200"

definition invalid_epoch :: hummock_epoch where
  "invalid_epoch = 0"

abbreviation epoch_available_bits :: nat where
  "epoch_available_bits \<equiv> 16"

definition epoch_spill_time_mask :: u64 where
  "epoch_spill_time_mask = push_bit epoch_available_bits 1 - 1"

definition epoch_mask :: u64 where
  "epoch_mask = NOT epoch_spill_time_mask"

definition max_epoch :: hummock_epoch where
  "max_epoch = (- 1) AND epoch_mask"

definition physical_time :: "hummock_epoch \<Rightarrow> u64" where
  "physical_time e = drop_bit epoch_available_bits e"

definition from_physical_time :: "u64 \<Rightarrow> hummock_epoch" where
  "from_physical_time t = push_bit epoch_available_bits t"

definition from_unix_millis :: "u64 \<Rightarrow> hummock_epoch" where
  "from_unix_millis mi = push_bit epoch_available_bits (mi - unix_risingwave_date_sec * 1000)"

definition saturating_sub :: "u64 \<Rightarrow> u64 \<Rightarrow> u64" where
  "saturating_sub a b = (if a < b then 0 else a - b)"

definition from_unix_millis_or_earliest :: "u64 \<Rightarrow> hummock_epoch" where
  "from_unix_millis_or_earliest mi =
     push_bit epoch_available_bits (saturating_sub mi (unix_risingwave_date_sec * 1000))"

definition as_unix_millis :: "hummock_epoch \<Rightarrow> u64" where
  "as_unix_millis e = unix_risingwave_date_sec * 1000 + physical_time e"

definition as_unix_secs :: "hummock_epoch \<Rightarrow> u64" where
  "as_unix_secs e = unix_risingwave_date_sec + physical_time e div 1000"

definition subtract_ms :: "hummock_epoch \<Rightarrow> u64 \<Rightarrow> hummock_epoch" where
  "subtract_ms e relative_time_ms =
     (if physical_time e < relative_time_ms then invalid_epoch
      else push_bit epoch_available_bits (physical_time e - relative_time_ms))"

definition is_max_epoch :: "hummock_epoch \<Rightarrow> bool" where
  "is_max_epoch e = (e \<ge> max_epoch)"

definition is_compatibility_max_epoch :: "hummock_epoch \<Rightarrow> bool" where
  "is_compatibility_max_epoch e = (e = max_epoch)"

text \<open>\<open>EpochPair::new\<close> asserts that epochs advance.\<close>

record epoch_pair =
  curr :: hummock_epoch
  prev :: hummock_epoch

definition epoch_pair_new :: "hummock_epoch \<Rightarrow> hummock_epoch \<Rightarrow> epoch_pair option" where
  "epoch_pair_new c p = (if c > p then Some \<lparr>curr = c, prev = p\<rparr> else None)"

section \<open>Advancing the clock\<close>

text \<open>
  \<open>Epoch::next\<close> spins until the clock passes the previous epoch's physical time. The loop
  need not end (a stopped clock), so not returning is \<open>None\<close>, as is the failed assertion
  after the loop.
\<close>

partial_function (option) spin_until :: "(nat \<Rightarrow> u64) \<Rightarrow> u64 \<Rightarrow> nat \<Rightarrow> u64 option" where
  "spin_until clock prev_physical_time i =
     (if clock i > prev_physical_time then Some (clock i)
      else spin_until clock prev_physical_time (Suc i))"

definition epoch_next :: "(nat \<Rightarrow> u64) \<Rightarrow> hummock_epoch \<Rightarrow> hummock_epoch option" where
  "epoch_next clock e =
     do { now \<leftarrow> spin_until clock (physical_time e) 0;
          let next = from_physical_time now;
          if next > e then Some next else None }"

section \<open>Epochs with a spill offset\<close>

type_synonym epoch_with_gap = u64

definition ewg_new_max_epoch :: epoch_with_gap where
  "ewg_new_max_epoch = - 1"

definition ewg_new :: "hummock_epoch \<Rightarrow> u16 \<Rightarrow> epoch_with_gap" where
  "ewg_new e spill_offset = (if is_max_epoch e then ewg_new_max_epoch else e + ucast spill_offset)"

definition ewg_new_from_epoch :: "hummock_epoch \<Rightarrow> epoch_with_gap" where
  "ewg_new_from_epoch e = ewg_new e 0"

definition ewg_new_min_epoch :: epoch_with_gap where
  "ewg_new_min_epoch = 0"

definition pure_epoch :: "epoch_with_gap \<Rightarrow> hummock_epoch" where
  "pure_epoch g = g AND NOT epoch_spill_time_mask"

definition ewg_offset :: "epoch_with_gap \<Rightarrow> u64" where
  "ewg_offset g = g AND epoch_spill_time_mask"

text \<open>An epoch as the barrier manager hands it out: the low 16 bits are clear.\<close>

definition aligned_epoch :: "hummock_epoch \<Rightarrow> bool" where
  "aligned_epoch e = (e AND epoch_spill_time_mask = 0)"

section \<open>Arithmetic reading of the bit operations\<close>

lemma spill_mask_eq: "epoch_spill_time_mask = mask 16"
  by (simp add: epoch_spill_time_mask_def mask_eq_exp_minus_1)

lemma unat_ewg_offset: "unat (ewg_offset g) = unat g mod 65536"
proof -
  have "ewg_offset g = take_bit 16 g"
    by (simp add: ewg_offset_def spill_mask_eq take_bit_eq_mask)
  then have "unat (ewg_offset g) = take_bit 16 (unat g)"
    by (simp only: unsigned_take_bit_eq)
  then show ?thesis by (simp add: take_bit_eq_mod)
qed

lemma pure_epoch_push_drop: "pure_epoch g = push_bit 16 (drop_bit 16 g)"
  unfolding pure_epoch_def spill_mask_eq by (rule bit_eqI) (auto simp: bit_simps)

lemma pure_plus_offset: "pure_epoch g + ewg_offset g = g"
  unfolding pure_epoch_push_drop ewg_offset_def spill_mask_eq
  by (simp add: take_bit_eq_mask [symmetric] bits_ident)

lemma unat_physical_time: "unat (physical_time e) = unat e div 65536"
proof -
  have "unat (physical_time e) = drop_bit 16 (unat e)"
    by (simp only: physical_time_def unat_drop_bit_eq)
  then show ?thesis by (simp add: drop_bit_eq_div)
qed

lemma unat_less_u64: "unat (w :: u64) < 18446744073709551616"
  using unat_u64_bound [of w] by simp

lemma unat_push16:
  assumes "unat (t :: u64) < 281474976710656"
  shows "unat (push_bit 16 t) = unat t * 65536"
proof -
  have "unat (push_bit 16 t) = unat (t * 65536)"
    by (simp add: push_bit_eq_mult)
  also have "\<dots> = unat t * unat (65536 :: u64) mod 2 ^ LENGTH(64)"
    by (rule unat_word_ariths)
  finally show ?thesis using assms by simp
qed

lemma unat_pure_epoch: "unat (pure_epoch g) = unat g div 65536 * 65536"
proof -
  have "unat (drop_bit 16 g) = unat g div 65536"
    using unat_physical_time [of g] by (simp add: physical_time_def)
  moreover have "unat g div 65536 < 281474976710656"
    using unat_less_u64 [of g] by (simp add: div_less_iff_less_mult)
  ultimately show ?thesis by (simp add: pure_epoch_push_drop unat_push16)
qed

lemma unat_max_epoch: "unat max_epoch = 18446744073709486080"
  by (simp add: max_epoch_def epoch_mask_def epoch_spill_time_mask_def)

lemma aligned_epoch_iff: "aligned_epoch e \<longleftrightarrow> unat e mod 65536 = 0"
  unfolding unat_ewg_offset [of e, symmetric] ewg_offset_def
  by (simp add: aligned_epoch_def word_unat_eq_iff)

lemma unat_ucast_u16: "unat (ucast (off :: u16) :: u64) = unat off"
  using unat_u16_bound [of off] by (simp add: unsigned_ucast_eq take_bit_nat_eq_self)

lemma is_max_epoch_iff: "is_max_epoch e \<longleftrightarrow> 18446744073709486080 \<le> unat e"
  by (simp add: is_max_epoch_def word_le_nat_alt unat_max_epoch)

lemma unat_ewg_new:
  assumes "aligned_epoch e" and "\<not> is_max_epoch e"
  shows "unat (ewg_new e off) = unat e + unat off"
proof -
  note ucast = unat_ucast_u16 [of off]
  have "unat off < 65536" using unat_u16_bound [of off] by simp
  then have "unat e + unat (ucast off :: u64) < 2 ^ LENGTH(64)"
    using assms(2) unfolding ucast by (simp add: is_max_epoch_iff)
  then have "unat (e + ucast off) = unat e + unat (ucast off :: u64)"
    by (simp only: unat_word_ariths mod_less)
  with assms(2) ucast show ?thesis by (simp add: ewg_new_def)
qed

section \<open>Lemmas\<close>

lemma pure_epoch_ewg_new:
  assumes "aligned_epoch e" and "\<not> is_max_epoch e"
  shows "pure_epoch (ewg_new e off) = e" and "ewg_offset (ewg_new e off) = ucast off"
proof -
  have off: "unat off < 65536" using unat_u16_bound [of off] by simp
  have al: "unat e mod 65536 = 0" using assms(1) by (simp add: aligned_epoch_iff)
  then obtain q where q: "unat e = 65536 * q" by auto
  have "unat (pure_epoch (ewg_new e off)) = unat e"
    using off by (simp add: unat_pure_epoch unat_ewg_new [OF assms] q)
  then show "pure_epoch (ewg_new e off) = e" by (simp only: word_unat_eq_iff)
  have "unat (ewg_offset (ewg_new e off)) = unat (ucast off :: u64)"
    using off by (simp add: unat_ewg_offset unat_ewg_new [OF assms] q unat_ucast_u16)
  then show "ewg_offset (ewg_new e off) = ucast off" by (simp only: word_unat_eq_iff)
qed

lemma spill_order_nat:
  fixes a b c d :: nat
  assumes "a mod 65536 = 0" and "b mod 65536 = 0" and "c < 65536" and "d < 65536"
  shows "a + c < b + d \<longleftrightarrow> a < b \<or> a = b \<and> c < d"
proof -
  obtain p q where "a = 65536 * p" "b = 65536 * q" using assms(1,2) by (auto elim!: dvdE)
  with assms(3,4) show ?thesis by (cases p q rule: linorder_cases) auto
qed

lemma ewg_new_less_iff:
  assumes "aligned_epoch e" "\<not> is_max_epoch e" "aligned_epoch e'" "\<not> is_max_epoch e'"
  shows "ewg_new e off < ewg_new e' off' \<longleftrightarrow> e < e' \<or> e = e' \<and> off < off'"
  using spill_order_nat [of "unat e" "unat e'" "unat off" "unat off'"] assms
    unat_u16_bound [of off] unat_u16_bound [of off']
  by (simp add: word_less_nat_alt unat_ewg_new aligned_epoch_iff word_unat_eq_iff)

lemma spin_until_first:
  assumes "clock n > p" and "\<forall>j. i \<le> j \<longrightarrow> j < n \<longrightarrow> \<not> clock j > p" and "i \<le> n"
  shows "spin_until clock p i = Some (clock n)"
  using assms
proof (induction "n - i" arbitrary: i)
  case 0
  then show ?case by (subst spin_until.simps) auto
next
  case (Suc d)
  then have "\<not> clock i > p" by simp
  moreover have "spin_until clock p (Suc i) = Some (clock n)"
    using Suc by (intro Suc.hyps(1)) auto
  ultimately show ?case by (subst spin_until.simps) simp
qed

lemma from_physical_time_greater:
  assumes "physical_time e < t" and "unat t < 281474976710656"
  shows "e < from_physical_time t" and "aligned_epoch (from_physical_time t)"
    and "physical_time (from_physical_time t) = t"
proof -
  have ft: "unat (from_physical_time t) = unat t * 65536"
    using assms(2) by (simp add: from_physical_time_def unat_push16)
  have "unat e div 65536 < unat t"
    using assms(1) by (simp add: word_less_nat_alt unat_physical_time)
  then show "e < from_physical_time t"
    using ft by (simp add: word_less_nat_alt div_less_iff_less_mult)
  show "aligned_epoch (from_physical_time t)"
    by (simp add: aligned_epoch_iff ft)
  have "unat (physical_time (from_physical_time t)) = unat t"
    by (simp add: unat_physical_time ft)
  then show "physical_time (from_physical_time t) = t" by (simp only: word_unat_eq_iff)
qed

section \<open>Properties of epochs\<close>

text \<open>
  An aligned epoch below the maximum and a spill offset are both recovered from the combined
  64-bit value, and combined values are ordered by epoch first and offset second.
\<close>

lemma epoch_with_gap_exact:
  assumes "aligned_epoch e" "\<not> is_max_epoch e" "aligned_epoch e'" "\<not> is_max_epoch e'"
  shows "pure_epoch (ewg_new e off) = e \<and> ewg_offset (ewg_new e off) = ucast off
    \<and> (ewg_new e off < ewg_new e' off' \<longleftrightarrow> e < e' \<or> e = e' \<and> off < off')"
  using pure_epoch_ewg_new [OF assms(1,2), of off] ewg_new_less_iff [OF assms, of off off'] by blast

text \<open>
  C11. \<open>Epoch::next\<close> returns as soon as some reading of the clock passes the epoch's physical
  time and that reading fits in 48 bits; the result is that reading as an epoch, strictly later
  than the old epoch and with clear spill bits.
\<close>

theorem epoch_next_advances:
  assumes "physical_time e < clock n" and "\<forall>j < n. clock j \<le> physical_time e"
    and "unat (clock n) < 2 ^ 48"
  shows "epoch_next clock e = Some (from_physical_time (clock n))
    \<and> e < from_physical_time (clock n) \<and> aligned_epoch (from_physical_time (clock n))
    \<and> physical_time (from_physical_time (clock n)) = clock n"
proof -
  have "spin_until clock (physical_time e) 0 = Some (clock n)"
    by (rule spin_until_first) (use assms in auto)
  moreover have "unat (clock n) < 281474976710656" using assms(3) by simp
  ultimately show ?thesis
    using from_physical_time_greater [OF assms(1)] by (simp add: epoch_next_def Let_def)
qed

theorem epoch_next_advances_witness:
  "epoch_next (\<lambda>i. if i < 2 then 5 else 9) 0x50003 = Some 0x90000"
  using epoch_next_advances [of "0x50003" "\<lambda>i. if i < 2 then 5 else 9" 2]
  by (simp add: physical_time_def from_physical_time_def drop_bit_eq_div push_bit_eq_mult)

end
