(* ===== verification/Hummock_Key.thy ===== *)
theory Hummock_Key
  imports Epoch
begin

text \<open>
  Hummock keys, from \<^verbatim>\<open>storage/hummock_sdk/src/key.rs\<close>, \<^verbatim>\<open>key_cmp.rs\<close> and the virtual
  nodes of \<^verbatim>\<open>common/src/hash/consistent_hash/vnode.rs\<close>. A table key is a byte string that
  starts with a two-byte virtual node; a user key adds the table id, a full key the epoch.
  Encoded, a full key is \<open>table_id | table_key | epoch\<close>, all integers big-endian.
\<close>

section \<open>Virtual nodes\<close>

type_synonym vnode = u16

definition vnode_max_count :: nat where
  "vnode_max_count = 2 ^ 15"

definition vnode_from_index :: "nat \<Rightarrow> vnode" where
  "vnode_from_index index = word_of_nat index"

definition vnode_to_index :: "vnode \<Rightarrow> nat" where
  "vnode_to_index v = unat v"

definition vnode_max_representable :: vnode where
  "vnode_max_representable = vnode_from_index (vnode_max_count - 1)"

text \<open>\<open>Crc32HashCodeToVnodeExt::to_vnode\<close>: the remainder panics for a zero count.\<close>

definition hash_to_vnode :: "u64 \<Rightarrow> nat \<Rightarrow> vnode option" where
  "hash_to_vnode hash vnode_count =
     (if vnode_count = 0 then None else Some (word_of_nat (unat hash mod vnode_count)))"

definition vnode_all :: "nat \<Rightarrow> vnode list" where
  "vnode_all vnode_count = map vnode_from_index [0..<vnode_count]"

section \<open>Table keys\<close>

type_synonym table_key = bytes
type_synonym table_key_range = "table_key bound \<times> table_key bound"

definition is_empty_key_range :: "table_key_range \<Rightarrow> bool" where
  "is_empty_key_range key_range =
     (case key_range of (Included s, Excluded e) \<Rightarrow> s = e | _ \<Rightarrow> False)"

definition split_vnode :: "table_key \<Rightarrow> (vnode \<times> bytes) option" where
  "split_vnode k = get_u16 k"

definition vnode_part :: "table_key \<Rightarrow> vnode option" where
  "vnode_part k = map_option fst (split_vnode k)"

definition key_part :: "table_key \<Rightarrow> bytes option" where
  "key_part k = map_option snd (split_vnode k)"

definition vnode_range :: "table_key_range \<Rightarrow> (nat \<times> nat) option" where
  "vnode_range rng =
     do { left \<leftarrow> (case fst rng of
              Included key \<Rightarrow> map_option vnode_to_index (vnode_part key)
            | Excluded key \<Rightarrow> map_option vnode_to_index (vnode_part key)
            | Unbounded \<Rightarrow> Some 0);
          right \<leftarrow> (case snd rng of
              Included key \<Rightarrow> map_option (\<lambda>v. vnode_to_index v + 1) (vnode_part key)
            | Excluded key \<Rightarrow>
                map_option (\<lambda>(v, inner_key).
                    if inner_key = [] then vnode_to_index v else vnode_to_index v + 1)
                  (split_vnode key)
            | Unbounded \<Rightarrow> Some (vnode_to_index vnode_max_representable + 1));
          Some (left, right) }"

definition vnode_of_range :: "table_key_range \<Rightarrow> vnode option" where
  "vnode_of_range rng =
     do { (l, r_exclusive) \<leftarrow> vnode_range rng;
          if r_exclusive = l + 1 then Some (vnode_from_index l) else None }"

definition prefix_slice_with_vnode :: "vnode \<Rightarrow> bytes \<Rightarrow> bytes" where
  "prefix_slice_with_vnode v sl = be_u16 v @ sl"

definition gen_key_from_bytes :: "vnode \<Rightarrow> bytes \<Rightarrow> table_key" where
  "gen_key_from_bytes v payload = be_u16 v @ payload"

section \<open>Encoded full keys: splitting off the epoch\<close>

abbreviation epoch_len :: nat where "epoch_len \<equiv> 8"
abbreviation table_prefix_len :: nat where "table_prefix_len \<equiv> 4"

definition key_with_epoch :: "bytes \<Rightarrow> hummock_epoch \<Rightarrow> bytes" where
  "key_with_epoch user_key epoch = user_key @ be_u64 epoch"

definition split_key_epoch :: "bytes \<Rightarrow> (bytes \<times> bytes) option" where
  "split_key_epoch full_key =
     (if length full_key < epoch_len then None
      else let pos = length full_key - epoch_len in Some (take pos full_key, drop pos full_key))"

definition user_key_bytes :: "bytes \<Rightarrow> bytes option" where
  "user_key_bytes full_key = map_option fst (split_key_epoch full_key)"

definition table_key_bytes :: "bytes \<Rightarrow> bytes option" where
  "table_key_bytes user_key =
     (if length user_key < table_prefix_len then None else Some (drop table_prefix_len user_key))"

definition get_user_key :: "bytes \<Rightarrow> bytes option" where
  "get_user_key full_key = (if full_key = [] then Some [] else user_key_bytes full_key)"

definition get_table_id :: "bytes \<Rightarrow> u32 option" where
  "get_table_id full_key = map_option fst (get_u32 full_key)"

section \<open>Successors and predecessors\<close>

definition next_key_no_alloc :: "bytes \<Rightarrow> (bytes \<times> u8) option" where
  "next_key_no_alloc key =
     do { pos \<leftarrow> rposition (\<lambda>b. b \<noteq> 0xff) key; Some (take pos key, key ! pos + 1) }"

definition next_key :: "bytes \<Rightarrow> bytes" where
  "next_key key = (case next_key_no_alloc key of Some (s, e) \<Rightarrow> s @ [e] | None \<Rightarrow> [])"

definition prev_key :: "bytes \<Rightarrow> bytes" where
  "prev_key key =
     (case rposition (\<lambda>b. b \<noteq> 0x00) key of
        Some pos \<Rightarrow>
          take pos key @ [key ! pos - 1] @ (if pos + 1 < length key then [0xff] else [])
      | None \<Rightarrow> replicate (length key) 0xff)"

definition next_epoch :: "bytes \<Rightarrow> bytes" where
  "next_epoch epoch =
     (case rposition (\<lambda>b. b \<noteq> 0xff) epoch of
        Some pos \<Rightarrow> take pos epoch @ [epoch ! pos + 1] @ replicate (length epoch - (pos + 1)) 0x00
      | None \<Rightarrow> replicate (length epoch) 0x00)"

definition prev_epoch :: "bytes \<Rightarrow> bytes" where
  "prev_epoch epoch =
     (case rposition (\<lambda>b. b \<noteq> 0x00) epoch of
        Some pos \<Rightarrow> take pos epoch @ [epoch ! pos - 1] @ replicate (length epoch - (pos + 1)) 0xff
      | None \<Rightarrow> replicate (length epoch) 0xff)"

definition next_full_key :: "bytes \<Rightarrow> bytes option" where
  "next_full_key full_key =
     do { (user_key, epoch) \<leftarrow> split_key_epoch full_key;
          let pe = prev_epoch epoch;
          if pe = replicate (length pe) 0xff then
            let next_user_key = next_key user_key in
            if next_user_key = [] then Some [] else Some (next_user_key @ pe)
          else Some (user_key @ pe) }"

definition prev_full_key :: "bytes \<Rightarrow> bytes option" where
  "prev_full_key full_key =
     do { (user_key, epoch) \<leftarrow> split_key_epoch full_key;
          let ne = next_epoch epoch;
          if ne = replicate (length ne) 0x00 then
            let prev_user_key = prev_key user_key in
            if prev_user_key = replicate (length prev_user_key) 0xff then Some []
            else Some (prev_user_key @ ne)
          else Some (user_key @ ne) }"

section \<open>Ranges of a prefix and of a virtual node\<close>

definition end_bound_of_vnode :: "vnode \<Rightarrow> bytes bound" where
  "end_bound_of_vnode v =
     (if v = vnode_max_representable then Unbounded
      else Excluded (be_u16 (vnode_from_index (vnode_to_index v + 1))))"

definition end_bound_of_prefix :: "bytes \<Rightarrow> bytes bound" where
  "end_bound_of_prefix pfx =
     (case next_key_no_alloc pfx of Some (s, e) \<Rightarrow> Excluded (s @ [e]) | None \<Rightarrow> Unbounded)"

definition start_bound_of_excluded_prefix :: "bytes \<Rightarrow> bytes bound option" where
  "start_bound_of_excluded_prefix pfx =
     (case next_key_no_alloc pfx of Some (s, e) \<Rightarrow> Some (Included (s @ [e])) | None \<Rightarrow> None)"

definition range_of_prefix :: "bytes \<Rightarrow> bytes bound \<times> bytes bound" where
  "range_of_prefix pfx =
     (if pfx = [] then (Unbounded, Unbounded) else (Included pfx, end_bound_of_prefix pfx))"

definition prefixed_range_with_vnode ::
    "bytes bound \<times> bytes bound \<Rightarrow> vnode \<Rightarrow> table_key_range option" where
  "prefixed_range_with_vnode rng v =
     do { start \<leftarrow> (case fst rng of
              Included b \<Rightarrow> Some (Included (prefix_slice_with_vnode v b))
            | Excluded b \<Rightarrow>
                if b = [] then None else Some (Excluded (prefix_slice_with_vnode v b))
            | Unbounded \<Rightarrow> Some (Included (be_u16 v)));
          stop \<leftarrow> (case snd rng of
              Included b \<Rightarrow> Some (Included (prefix_slice_with_vnode v b))
            | Excluded b \<Rightarrow>
                if b = [] then None else Some (Excluded (prefix_slice_with_vnode v b))
            | Unbounded \<Rightarrow> Some (end_bound_of_vnode v));
          Some (start, stop) }"

section \<open>User keys\<close>

type_synonym table_id = u32

datatype user_key = UserKey (uk_table_id: table_id) (uk_table_key: table_key)

definition uk_encode :: "user_key \<Rightarrow> bytes" where
  "uk_encode k = be_u32 (uk_table_id k) @ uk_table_key k"

definition uk_is_empty :: "user_key \<Rightarrow> bool" where
  "uk_is_empty k = (uk_table_key k = [])"

definition uk_encoded_len :: "user_key \<Rightarrow> nat" where
  "uk_encoded_len k = length (uk_table_key k) + table_prefix_len"

definition uk_get_vnode_id :: "user_key \<Rightarrow> nat option" where
  "uk_get_vnode_id k = map_option vnode_to_index (vnode_part (uk_table_key k))"

definition uk_decode :: "bytes \<Rightarrow> user_key option" where
  "uk_decode sl = do { (t, rest) \<leftarrow> get_u32 sl; Some (UserKey t rest) }"

text \<open>The derived \<open>Ord\<close> compares the fields in declaration order.\<close>

instantiation user_key :: linorder
begin
definition less_eq_user_key :: "user_key \<Rightarrow> user_key \<Rightarrow> bool" where
  "less_eq_user_key a b =
     (uk_table_id a < uk_table_id b
      \<or> uk_table_id a = uk_table_id b \<and> uk_table_key a \<le> uk_table_key b)"
definition less_user_key :: "user_key \<Rightarrow> user_key \<Rightarrow> bool" where
  "less_user_key a b =
     (uk_table_id a < uk_table_id b
      \<or> uk_table_id a = uk_table_id b \<and> uk_table_key a < uk_table_key b)"
instance
  by standard (auto simp: less_eq_user_key_def less_user_key_def user_key.expand)
end

section \<open>Full keys\<close>

datatype full_key = FullKey (fk_user_key: user_key) (fk_epoch: epoch_with_gap)

definition fk_new :: "table_id \<Rightarrow> table_key \<Rightarrow> hummock_epoch \<Rightarrow> full_key" where
  "fk_new t k epoch = FullKey (UserKey t k) (ewg_new epoch 0)"

definition fk_from_user_key :: "user_key \<Rightarrow> hummock_epoch \<Rightarrow> full_key" where
  "fk_from_user_key k epoch = FullKey k (ewg_new_from_epoch epoch)"

definition fk_encode :: "full_key \<Rightarrow> bytes" where
  "fk_encode k = uk_encode (fk_user_key k) @ be_u64 (fk_epoch k)"

definition fk_encode_into_without_table_id :: "full_key \<Rightarrow> bytes" where
  "fk_encode_into_without_table_id k = uk_table_key (fk_user_key k) @ be_u64 (fk_epoch k)"

definition fk_encode_reverse_epoch :: "full_key \<Rightarrow> bytes" where
  "fk_encode_reverse_epoch k = uk_encode (fk_user_key k) @ be_u64 (- 1 - fk_epoch k)"

definition fk_encoded_len :: "full_key \<Rightarrow> nat" where
  "fk_encoded_len k = uk_encoded_len (fk_user_key k) + epoch_len"

definition fk_decode :: "bytes \<Rightarrow> full_key option" where
  "fk_decode sl =
     do { (u, e) \<leftarrow> split_key_epoch sl;
          (epoch, _) \<leftarrow> get_u64 e;
          k \<leftarrow> uk_decode u;
          Some (FullKey k epoch) }"

definition fk_from_slice_without_table_id :: "table_id \<Rightarrow> bytes \<Rightarrow> full_key option" where
  "fk_from_slice_without_table_id t sl =
     do { (k, e) \<leftarrow> split_key_epoch sl;
          (epoch, _) \<leftarrow> get_u64 e;
          Some (FullKey (UserKey t k) epoch) }"

definition fk_decode_reverse_epoch :: "bytes \<Rightarrow> full_key option" where
  "fk_decode_reverse_epoch sl =
     do { (u, e) \<leftarrow> split_key_epoch sl;
          (epoch, _) \<leftarrow> get_u64 e;
          k \<leftarrow> uk_decode u;
          Some (FullKey k (- 1 - epoch)) }"

text \<open>\<open>Ord for FullKey\<close>: by user key, then the greater epoch first.\<close>

definition fk_cmp :: "full_key \<Rightarrow> full_key \<Rightarrow> ordering" where
  "fk_cmp a b =
     then_with (cmp (fk_user_key a) (fk_user_key b)) (cmp (fk_epoch b) (fk_epoch a))"

instantiation full_key :: linorder
begin
definition less_eq_full_key :: "full_key \<Rightarrow> full_key \<Rightarrow> bool" where
  "less_eq_full_key a b =
     (fk_user_key a < fk_user_key b \<or> fk_user_key a = fk_user_key b \<and> fk_epoch b \<le> fk_epoch a)"
definition less_full_key :: "full_key \<Rightarrow> full_key \<Rightarrow> bool" where
  "less_full_key a b =
     (fk_user_key a < fk_user_key b \<or> fk_user_key a = fk_user_key b \<and> fk_epoch b < fk_epoch a)"
instance
  by standard (auto simp: less_eq_full_key_def less_full_key_def full_key.expand)
end

section \<open>Comparing encoded keys\<close>

definition compare_encoded_full_key :: "bytes \<Rightarrow> bytes \<Rightarrow> ordering option" where
  "compare_encoded_full_key lhs rhs =
     do { (l_p, l_s) \<leftarrow> split_key_epoch lhs;
          (r_p, r_s) \<leftarrow> split_key_epoch rhs;
          Some (then_with (cmp l_p r_p) (cmp r_s l_s)) }"

definition compare_user_key_cross_format :: "bytes \<Rightarrow> user_key \<Rightarrow> ordering option" where
  "compare_user_key_cross_format encoded unencoded =
     map_option (\<lambda>k. cmp k unencoded) (uk_decode encoded)"

section \<open>Length-prefixed user keys (range-delete compatibility)\<close>

definition uk_encode_length_prefixed :: "user_key \<Rightarrow> bytes" where
  "uk_encode_length_prefixed k =
     be_u32 (uk_table_id k) @ be_u32 (word_of_nat (length (uk_table_key k))) @ uk_table_key k"

definition uk_decode_length_prefixed :: "bytes \<Rightarrow> (user_key \<times> bytes) option" where
  "uk_decode_length_prefixed buf =
     do { (t, buf) \<leftarrow> get_u32 buf;
          (len, buf) \<leftarrow> get_u32 buf;
          if length buf < unat len then None
          else Some (UserKey t (take (unat len) buf), drop (unat len) buf) }"

section \<open>User key range of a table key range\<close>

definition bound_table_key_range ::
    "table_id \<Rightarrow> table_key_range \<Rightarrow> user_key bound \<times> user_key bound" where
  "bound_table_key_range t rng =
     ((case fst rng of
         Included b \<Rightarrow> Included (UserKey t b)
       | Excluded b \<Rightarrow> Excluded (UserKey t b)
       | Unbounded \<Rightarrow> Included (UserKey t [])),
      (case snd rng of
         Included b \<Rightarrow> Included (UserKey t b)
       | Excluded b \<Rightarrow> Excluded (UserKey t b)
       | Unbounded \<Rightarrow> (if t = - 1 then Unbounded else Excluded (UserKey (t + 1) []))))"

section \<open>Tracking the full keys of an iteration\<close>

record full_key_tracker =
  latest_full_key :: full_key
  last_observed_epoch_with_gap :: epoch_with_gap

definition fkt_new :: "full_key \<Rightarrow> full_key_tracker" where
  "fkt_new init_full_key =
     \<lparr>latest_full_key = init_full_key, last_observed_epoch_with_gap = fk_epoch init_full_key\<rparr>"

text \<open>The fold over \<open>epochs\<close> asserts that they strictly decrease and returns the last.\<close>

fun check_epochs_decreasing :: "epoch_with_gap \<Rightarrow> epoch_with_gap list \<Rightarrow> epoch_with_gap option" where
  "check_epochs_decreasing p [] = Some p"
| "check_epochs_decreasing p (c # cs) = (if p > c then check_epochs_decreasing c cs else None)"

definition fkt_observe_multi_version ::
    "bool \<Rightarrow> full_key_tracker \<Rightarrow> user_key \<Rightarrow> epoch_with_gap list \<Rightarrow> (bool \<times> full_key_tracker) option" where
  "fkt_observe_multi_version skip_dedup s user_key epochs =
     (case epochs of
        [] \<Rightarrow> None
      | max_epoch_with_gap # rest \<Rightarrow>
          do { min_epoch_with_gap \<leftarrow> check_epochs_decreasing max_epoch_with_gap rest;
               case cmp (fk_user_key (latest_full_key s)) user_key of
                 Less \<Rightarrow>
                   Some (True, \<lparr>latest_full_key = FullKey user_key min_epoch_with_gap,
                                last_observed_epoch_with_gap = min_epoch_with_gap\<rparr>)
               | Equal \<Rightarrow>
                   if max_epoch_with_gap > last_observed_epoch_with_gap s
                      \<or> \<not> skip_dedup \<and> max_epoch_with_gap = last_observed_epoch_with_gap s
                   then None
                   else Some (False, s\<lparr>last_observed_epoch_with_gap := min_epoch_with_gap\<rparr>)
               | Greater \<Rightarrow> None })"

definition fkt_observe :: "bool \<Rightarrow> full_key_tracker \<Rightarrow> full_key \<Rightarrow> (bool \<times> full_key_tracker) option" where
  "fkt_observe skip_dedup s key =
     fkt_observe_multi_version skip_dedup s (fk_user_key key) [fk_epoch key]"

definition fkt_latest_user_key :: "full_key_tracker \<Rightarrow> user_key" where
  "fkt_latest_user_key s = fk_user_key (latest_full_key s)"

text \<open>An iteration: every key of the list is observed; the flags say which started a new user key.\<close>

fun fkt_observe_all :: "bool \<Rightarrow> full_key_tracker \<Rightarrow> full_key list \<Rightarrow> (bool list \<times> full_key_tracker) option" where
  "fkt_observe_all skip_dedup s [] = Some ([], s)"
| "fkt_observe_all skip_dedup s (k # ks) =
     do { (b, s') \<leftarrow> fkt_observe skip_dedup s k;
          (bs, s'') \<leftarrow> fkt_observe_all skip_dedup s' ks;
          Some (b # bs, s'') }"

section \<open>Decoding inverts encoding\<close>

lemma split_key_epoch_append [simp, bytes_simps]:
  "split_key_epoch (u @ be_u64 e) = Some (u, be_u64 e)"
  by (simp add: split_key_epoch_def Let_def)

lemma split_key_epoch_SomeD:
  assumes "split_key_epoch bs = Some (u, e)"
  shows "bs = u @ e" and "length e = epoch_len"
  using assms by (auto simp: split_key_epoch_def Let_def split: if_splits)

lemma get_u32_SomeD:
  assumes "get_u32 bs = Some (w, rest)"
  shows "bs = be_u32 w @ rest"
proof -
  have len: "length (take 4 bs) = 4" and w: "w = word_of_nat (be_nat (take 4 bs))"
    and rest: "rest = drop 4 bs"
    using assms by (auto simp: get_u32_def split: if_splits)
  have "be_u32 w = take 4 bs" unfolding w by (rule be_u32_of_bytes [OF len])
  then show ?thesis by (simp add: rest)
qed

lemma get_u64_exact:
  assumes "length bs = 8" and "get_u64 bs = Some (w, rest)"
  shows "bs = be_u64 w" and "rest = []"
proof -
  have w: "w = word_of_nat (be_nat bs)" and rest: "rest = []"
    using assms by (auto simp: get_u64_def)
  show "bs = be_u64 w" unfolding w by (rule be_u64_of_bytes [OF assms(1), symmetric])
  show "rest = []" by (rule rest)
qed

lemma uk_decode_encode [simp, bytes_simps]: "uk_decode (uk_encode k) = Some k"
  by (simp add: uk_decode_def uk_encode_def)

lemma uk_encode_decode: "uk_decode bs = Some k \<Longrightarrow> uk_encode k = bs"
  by (auto simp: uk_decode_def uk_encode_def dest!: get_u32_SomeD split: Option.bind_splits)

lemma fk_decode_encode [simp, bytes_simps]: "fk_decode (fk_encode k) = Some k"
  by (simp add: fk_decode_def fk_encode_def)

lemma fk_encode_decode:
  assumes "fk_decode bs = Some k"
  shows "fk_encode k = bs"
proof -
  obtain u e w rest uk where s: "split_key_epoch bs = Some (u, e)"
    and g: "get_u64 e = Some (w, rest)" and d: "uk_decode u = Some uk" and k: "k = FullKey uk w"
    using assms by (auto simp: fk_decode_def split: Option.bind_splits)
  have "e = be_u64 w" using get_u64_exact(1) [OF split_key_epoch_SomeD(2) [OF s] g] .
  with split_key_epoch_SomeD(1) [OF s] uk_encode_decode [OF d] k show ?thesis
    by (simp add: fk_encode_def)
qed

lemma fk_decode_encode_reverse_epoch:
  "fk_decode_reverse_epoch (fk_encode_reverse_epoch k) = Some k"
  by (cases k) (simp add: fk_decode_reverse_epoch_def fk_encode_reverse_epoch_def)

lemma fk_from_slice_encode_without_table_id:
  "fk_from_slice_without_table_id (uk_table_id (fk_user_key k)) (fk_encode_into_without_table_id k)
     = Some k"
  by (cases k) (simp add: fk_from_slice_without_table_id_def fk_encode_into_without_table_id_def)

lemma uk_length_prefixed_round_trip:
  assumes "length (uk_table_key k) < 2 ^ 32"
  shows "uk_decode_length_prefixed (uk_encode_length_prefixed k @ rest) = Some (k, rest)"
proof -
  have "unat (word_of_nat (length (uk_table_key k)) :: u32) = length (uk_table_key k)"
    by (rule unat_word_of_nat_less) (use assms in simp)
  then show ?thesis
    by (simp add: uk_decode_length_prefixed_def uk_encode_length_prefixed_def)
qed

lemma fk_encoded_len: "length (fk_encode k) = fk_encoded_len k"
  by (simp add: fk_encode_def fk_encoded_len_def uk_encode_def uk_encoded_len_def)

section \<open>Encoded order\<close>

lemma uk_encode_less_iff [order_simps]: "uk_encode a < uk_encode b \<longleftrightarrow> a < b"
  by (simp add: uk_encode_def less_user_key_def append_less_iff_same_length)

lemma uk_encode_eq_iff [order_simps]: "uk_encode a = uk_encode b \<longleftrightarrow> a = b"
  using uk_decode_encode by (metis option.inject)

lemma cmp_uk_encode: "cmp (uk_encode a) (uk_encode b) = cmp a b"
  by (simp add: cmp_def uk_encode_less_iff uk_encode_eq_iff)

lemma cmp_be_u64: "cmp (be_u64 a) (be_u64 b) = cmp a b"
  by (simp add: cmp_def)

lemma fk_cmp_Less [simp, order_simps]: "fk_cmp a b = Less \<longleftrightarrow> a < b"
  by (auto simp: fk_cmp_def less_full_key_def)

lemma fk_cmp_Equal [simp, order_simps]: "fk_cmp a b = Equal \<longleftrightarrow> a = b"
  by (auto simp: fk_cmp_def full_key.expand)

lemma fk_cmp_eq_cmp: "fk_cmp a b = cmp a b"
  by (cases a; cases b) (auto simp: fk_cmp_def cmp_def less_full_key_def)

lemma compare_encoded_full_key_encode:
  "compare_encoded_full_key (fk_encode a) (fk_encode b) = Some (cmp a b)"
  by (simp add: compare_encoded_full_key_def fk_encode_def cmp_uk_encode cmp_be_u64
      fk_cmp_def flip: fk_cmp_eq_cmp)

lemma compare_encoded_full_key_decode:
  assumes "fk_decode x = Some a" and "fk_decode y = Some b"
  shows "compare_encoded_full_key x y = Some (cmp a b)"
  using compare_encoded_full_key_encode [of a b] fk_encode_decode [OF assms(1)]
    fk_encode_decode [OF assms(2)] by simp

section \<open>Prefix ranges\<close>

lemma u8_max [simp]: "\<not> (0xff :: u8) < z"
  using unat_u8_less [of z] by (simp add: word_less_nat_alt del: unat_u8_less)

lemma unat_u8_inc: "(b :: u8) \<noteq> 0xff \<Longrightarrow> unat (b + 1) = unat b + 1"
proof -
  assume "b \<noteq> 0xff"
  then have "unat b \<noteq> 255" by (simp add: word_unat_eq_iff)
  with unat_u8_less [of b] have lt: "unat b + 1 < 256" by linarith
  have "unat (b + 1) = (unat b + 1) mod 256" by (simp add: unat_word_ariths)
  with lt show ?thesis by simp
qed

lemma unat_u8_dec: "(b :: u8) \<noteq> 0 \<Longrightarrow> unat (b - 1) = unat b - 1"
  by (rule unat_minus_one)

lemma u8_less_inc_iff: "(b :: u8) \<noteq> 0xff \<Longrightarrow> z < b + 1 \<longleftrightarrow> z \<le> b"
  using unat_u8_inc [of b] by (simp add: word_less_nat_alt word_le_nat_alt less_Suc_eq_le)

lemma le_append [simp]: "(xs :: 'a::linorder list) \<le> xs @ ys"
  by (rule prefix_imp_le) simp

lemma all_ff_le_iff_prefix:
  "\<forall>v \<in> set vs. v = (0xff :: u8) \<Longrightarrow> vs \<le> zs \<longleftrightarrow> prefix vs zs"
proof (induction vs arbitrary: zs)
  case Nil
  then show ?case by simp
next
  case (Cons v vs)
  then show ?case by (cases zs) auto
qed

lemma next_key_no_alloc_split:
  assumes "next_key_no_alloc p = Some (s, e)"
  obtains y vs where "p = s @ y # vs" "y \<noteq> 0xff" "e = y + 1" "\<forall>v \<in> set vs. v = 0xff"
proof -
  obtain i where i: "rposition (\<lambda>b. b \<noteq> 0xff) p = Some i" and s: "s = take i p" and e: "e = p ! i + 1"
    using assms by (auto simp: next_key_no_alloc_def split: Option.bind_splits)
  from i show ?thesis
  proof (rule rposition_split)
    fix us y vs
    assume "p = us @ y # vs" "length us = i" "y \<noteq> 0xff" "\<forall>x \<in> set vs. \<not> x \<noteq> 0xff"
      "us = take i p" "y = p ! i"
    then show ?thesis by (intro that [of y vs]) (auto simp: s e)
  qed
qed

lemma next_key_no_alloc_None: "next_key_no_alloc p = None \<longleftrightarrow> (\<forall>b \<in> set p. b = 0xff)"
  using rposition_None [of "\<lambda>b. b \<noteq> 0xff" p]
  by (cases "rposition (\<lambda>b. b \<noteq> 0xff) p") (auto simp: next_key_no_alloc_def)

lemma prefix_range_step:
  assumes "y \<noteq> (0xff :: u8)" and "\<forall>v \<in> set vs. v = 0xff"
  shows "s @ y # vs \<le> k \<and> k < s @ [y + 1] \<longleftrightarrow> prefix (s @ y # vs) k"
proof (induction s arbitrary: k)
  case Nil
  show ?case
  proof (cases k)
    case k: (Cons z zs)
    have "z < y + 1 \<longleftrightarrow> z \<le> y" "vs \<le> zs \<longleftrightarrow> prefix vs zs"
      by (rule u8_less_inc_iff [OF assms(1)], rule all_ff_le_iff_prefix [OF assms(2)])
    then show ?thesis by (auto simp: k)
  qed simp
next
  case (Cons c s)
  show ?case
  proof (cases k)
    case (Cons d ks)
    with Cons.IH [of ks] show ?thesis by auto
  qed simp
qed

lemma range_of_prefix_iff: "in_range (range_of_prefix p) k \<longleftrightarrow> prefix p k"
proof (cases "next_key_no_alloc p")
  case None
  then show ?thesis
    using all_ff_le_iff_prefix [of p k] next_key_no_alloc_None [of p]
    by (simp add: range_of_prefix_def end_bound_of_prefix_def in_range_def)
next
  case (Some se)
  then obtain s e where se: "next_key_no_alloc p = Some (s, e)" by (cases se) auto
  then obtain y vs where p: "p = s @ y # vs" and y: "y \<noteq> 0xff" and e: "e = y + 1"
    and vs: "\<forall>v \<in> set vs. v = 0xff"
    by (rule next_key_no_alloc_split)
  from se show ?thesis
    using prefix_range_step [OF y vs, of s k]
    by (simp add: range_of_prefix_def end_bound_of_prefix_def in_range_def p e)
qed

lemma start_bound_of_excluded_prefix_iff:
  assumes "start_bound_of_excluded_prefix p = Some b"
  shows "above_start b k \<longleftrightarrow> p < k \<and> \<not> prefix p k"
proof -
  obtain s e where se: "next_key_no_alloc p = Some (s, e)" and b: "b = Included (s @ [e])"
    using assms by (auto simp: start_bound_of_excluded_prefix_def split: option.splits)
  obtain y vs where p: "p = s @ y # vs" and y: "y \<noteq> 0xff" and e: "e = y + 1"
    and vs: "\<forall>v \<in> set vs. v = 0xff"
    using se by (rule next_key_no_alloc_split)
  have "y < y + 1" using u8_less_inc_iff [OF y, of y] by simp
  then have "p < s @ [y + 1]" by (simp add: p)
  then show ?thesis
    using prefix_range_step [OF y vs, of s k] by (auto simp: b e p [symmetric])
qed

section \<open>Virtual node ranges\<close>

lemma unat_vnode_max_representable: "unat vnode_max_representable = 32767"
  by (simp add: vnode_max_representable_def vnode_from_index_def vnode_max_count_def)

lemma vnode_successor:
  assumes "v \<noteq> vnode_max_representable" and "v \<le> vnode_max_representable"
  shows "unat (vnode_from_index (vnode_to_index v + 1)) = unat v + 1"
proof -
  have "unat v < 32767"
    using assms unat_vnode_max_representable
    by (simp add: word_le_nat_alt word_unat_eq_iff)
  then show ?thesis
    unfolding vnode_from_index_def vnode_to_index_def
    by (intro unat_word_of_nat_less) simp
qed

lemma end_bound_of_vnode_iff:
  assumes "v \<le> vnode_max_representable" and "v' \<le> vnode_max_representable"
  shows "below_end (end_bound_of_vnode v) (be_u16 v' @ k) \<longleftrightarrow> v' \<le> v"
proof (cases "v = vnode_max_representable")
  case True
  then show ?thesis using assms(2) by (simp add: end_bound_of_vnode_def)
next
  case False
  let ?n = "vnode_from_index (vnode_to_index v + 1)"
  have "be_u16 v' @ k < be_u16 ?n @ [] \<longleftrightarrow> v' < ?n"
    by (subst append_less_iff_same_length) auto
  moreover have "v' < ?n \<longleftrightarrow> v' \<le> v"
    using vnode_successor [OF False assms(1)] 
    by (simp add: word_less_nat_alt word_le_nat_alt less_Suc_eq_le)
  ultimately show ?thesis using False by (simp add: end_bound_of_vnode_def)
qed

lemma vnode_prefixed_start_iff:
  assumes "prefixed_range_with_vnode (s, t) v = Some (s', t')"
  shows "above_start s' (be_u16 v' @ k) \<longleftrightarrow> v < v' \<or> v = v' \<and> above_start s k"
  using assms
  by (cases s)
    (auto simp: prefixed_range_with_vnode_def prefix_slice_with_vnode_def
      append_less_iff_same_length append_le_iff_same_length
      append_le_iff_same_length [of "be_u16 v" "be_u16 v'" "[]", simplified]
      split: Option.bind_splits if_splits)

lemma vnode_prefixed_end_iff:
  assumes "prefixed_range_with_vnode (s, t) v = Some (s', t')"
    and "v \<le> vnode_max_representable" and "v' \<le> vnode_max_representable"
  shows "below_end t' (be_u16 v' @ k) \<longleftrightarrow> v' < v \<or> v = v' \<and> below_end t k"
  using assms end_bound_of_vnode_iff [OF assms(2,3), of k]
  by (cases t)
    (auto simp: prefixed_range_with_vnode_def prefix_slice_with_vnode_def
      append_less_iff_same_length append_le_iff_same_length
      split: Option.bind_splits if_splits)

lemma prefixed_range_with_vnode_iff:
  assumes "prefixed_range_with_vnode r v = Some r'"
    and "v \<le> vnode_max_representable" and "v' \<le> vnode_max_representable"
  shows "in_range r' (be_u16 v' @ k) \<longleftrightarrow> v' = v \<and> in_range r k"
proof -
  obtain s t s' t' where r: "r = (s, t)" "r' = (s', t')" by (cases r; cases r')
  show ?thesis
    using vnode_prefixed_start_iff [of s t v s' t' v' k] assms
      vnode_prefixed_end_iff [of s t v s' t' v' k]
    by (auto simp: r in_range_def)
qed

lemma prefixed_range_with_vnode_panics_iff:
  "prefixed_range_with_vnode (s, t) v = None \<longleftrightarrow> s = Excluded [] \<or> t = Excluded []"
  by (cases s; cases t) (auto simp: prefixed_range_with_vnode_def)

section \<open>User key ranges\<close>

lemma table_id_successor:
  "(t :: u32) \<noteq> - 1 \<Longrightarrow> t' < t + 1 \<longleftrightarrow> t' \<le> t"
proof -
  assume "t \<noteq> - 1"
  then have "unat t \<noteq> unat (- 1 :: u32)" by (simp only: word_unat_eq_iff not_False_eq_True)
  then have "unat t \<noteq> 4294967295" by (simp add: unsigned_minus_1_eq_mask mask_eq_exp_minus_1)
  moreover have "unat t < 4294967296" using unat_u32_bound [of t] by simp
  ultimately have "unat (t + 1) = unat t + 1" by (simp add: unat_word_ariths)
  then show ?thesis by (simp add: word_less_nat_alt word_le_nat_alt less_Suc_eq_le)
qed

lemma bound_table_key_range_start_iff:
  "above_start (fst (bound_table_key_range t r)) (UserKey t' k)
     \<longleftrightarrow> t < t' \<or> t = t' \<and> above_start (fst r) k"
  by (cases "fst r") (auto simp: bound_table_key_range_def less_user_key_def less_eq_user_key_def)

lemma bound_table_key_range_end_iff:
  "below_end (snd (bound_table_key_range t r)) (UserKey t' k)
     \<longleftrightarrow> t' < t \<or> t = t' \<and> below_end (snd r) k"
  using table_id_successor [of t t'] word_order.not_eq_extremum [of t']
  by (cases "snd r") (auto simp: bound_table_key_range_def less_user_key_def less_eq_user_key_def)

lemma bound_table_key_range_iff:
  "in_range (bound_table_key_range t r) (UserKey t' k) \<longleftrightarrow> t = t' \<and> in_range r k"
  by (auto simp: in_range_def bound_table_key_range_start_iff bound_table_key_range_end_iff)

section \<open>The full key tracker\<close>

text \<open>The last full key a tracker has seen.\<close>

definition fkt_last :: "full_key_tracker \<Rightarrow> full_key" where
  "fkt_last s = FullKey (fk_user_key (latest_full_key s)) (last_observed_epoch_with_gap s)"

lemma fkt_last_new [simp]: "fkt_last (fkt_new k) = k"
  by (simp add: fkt_last_def fkt_new_def)

lemma fkt_observe_Some:
  assumes "fkt_observe skip s k = Some (b, s')"
  shows "b = (fk_user_key k \<noteq> fkt_latest_user_key s)" and "fkt_last s' = k"
    and "fkt_latest_user_key s' = fk_user_key k"
    and "if skip then fkt_last s \<le> k else fkt_last s < k"
  using assms
  by (auto simp: fkt_observe_def fkt_observe_multi_version_def fkt_last_def fkt_latest_user_key_def
      less_full_key_def less_eq_full_key_def split: ordering.splits if_splits)

lemma fkt_observe_None:
  "fkt_observe skip s k = None \<longleftrightarrow> \<not> (if skip then fkt_last s \<le> k else fkt_last s < k)"
  by (auto simp: fkt_observe_def fkt_observe_multi_version_def fkt_last_def
      less_full_key_def less_eq_full_key_def split: ordering.splits if_splits)

lemma fkt_observe_all_None:
  "fkt_observe_all skip s ks = None
     \<longleftrightarrow> \<not> (if skip then sorted (fkt_last s # ks) else sorted_wrt (<) (fkt_last s # ks))"
proof (induction ks arbitrary: s)
  case Nil
  then show ?case by simp
next
  case (Cons k ks)
  show ?case
  proof (cases "fkt_observe skip s k")
    case None
    then show ?thesis using fkt_observe_None [of skip s k] by (auto split: if_splits)
  next
    case (Some r)
    then obtain b s' where r: "fkt_observe skip s k = Some (b, s')" by (cases r) auto
    note obs = fkt_observe_Some [OF r]
    show ?thesis
      using Cons.IH [of s'] obs(2,4)
      by (auto simp: r split: if_splits Option.bind_splits
          intro: order_trans order_less_trans)
  qed
qed

lemma fkt_observe_all_flags:
  assumes "fkt_observe_all skip s ks = Some (bs, s')"
  shows "bs = map2 (\<lambda>p k. p \<noteq> fk_user_key k) (fkt_latest_user_key s # map fk_user_key ks) ks"
  using assms
proof (induction ks arbitrary: s bs s')
  case Nil
  then show ?case by simp
next
  case (Cons k ks)
  then obtain b t cs where r: "fkt_observe skip s k = Some (b, t)"
    and rest: "fkt_observe_all skip t ks = Some (cs, s')" and bs: "bs = b # cs"
    by (auto split: Option.bind_splits)
  from fkt_observe_Some [OF r] Cons.IH [OF rest] bs show ?case by auto
qed

section \<open>Epoch bytes as counters\<close>

lemma be_nat_append: "be_nat (a @ b) = be_nat a * 256 ^ length b + be_nat b"
proof (induction b rule: rev_induct)
  case Nil
  then show ?case by simp
next
  case (snoc x xs)
  have "be_nat (a @ xs @ [x]) = be_nat (a @ xs) * 256 + unat x"
    by (simp flip: append_assoc)
  then show ?case by (simp add: snoc algebra_simps)
qed

lemma be_nat_Cons: "be_nat (x # xs) = unat x * 256 ^ length xs + be_nat xs"
  using be_nat_append [of "[x]" xs] be_nat_snoc [of "[]" x] by simp

lemma be_nat_zeros [simp]: "be_nat (replicate n 0) = 0"
  by (induction n) (auto simp: be_nat_Cons)

lemma be_nat_ffs: "be_nat (replicate n 0xff) = 256 ^ n - 1"
proof (induction n)
  case 0
  then show ?case by simp
next
  case (Suc n)
  have "(256 :: nat) ^ n \<ge> 1" by simp
  then have "255 * (256::nat) ^ n + (256 ^ n - 1) = 256 * 256 ^ n - 1" by linarith
  with Suc show ?case by (simp add: be_nat_Cons)
qed

lemma all_eq_replicate: "\<forall>v \<in> set vs. v = x \<Longrightarrow> vs = replicate (length vs) x"
  by (simp add: replicate_length_same)

lemma length_next_epoch [simp]: "length (next_epoch e) = length e"
  by (auto simp: next_epoch_def dest: rposition_SomeD split: option.splits)

lemma length_prev_epoch [simp]: "length (prev_epoch e) = length e"
  by (auto simp: prev_epoch_def dest: rposition_SomeD split: option.splits)

lemma be_nat_next_epoch: "be_nat (next_epoch e) = (be_nat e + 1) mod 256 ^ length e"
proof (cases "rposition (\<lambda>b. b \<noteq> 0xff) e")
  case None
  then have "e = replicate (length e) 0xff"
    by (intro all_eq_replicate) (auto simp: rposition_None)
  then have "be_nat e = 256 ^ length e - 1" using be_nat_ffs [of "length e"] by simp
  with None show ?thesis by (simp add: next_epoch_def)
next
  case (Some i)
  then obtain us y vs where e: "e = us @ y # vs" and i: "length us = i" and y: "y \<noteq> 0xff"
    and vs: "\<forall>x \<in> set vs. \<not> x \<noteq> 0xff"
    by (rule rposition_split)
  have vs: "be_nat vs = 256 ^ length vs - 1"
    using all_eq_replicate [of vs "0xff"] vs be_nat_ffs [of "length vs"] by auto
  have nx: "next_epoch e = us @ (y + 1) # replicate (length vs) 0"
    using Some i [symmetric] by (simp add: next_epoch_def e)
  have pos: "(256 :: nat) ^ length vs \<ge> 1" by simp
  have E: "be_nat e = be_nat us * 256 ^ Suc (length vs)
      + (unat y * 256 ^ length vs + (256 ^ length vs - 1))"
    by (simp add: e be_nat_append be_nat_Cons vs)
  have N: "be_nat (next_epoch e) = be_nat us * 256 ^ Suc (length vs)
      + (unat y * 256 ^ length vs + 256 ^ length vs)"
    by (simp add: nx be_nat_append be_nat_Cons unat_u8_inc [OF y])
  have "be_nat (next_epoch e) = be_nat e + 1"
    using pos unfolding E N by linarith
  moreover have "be_nat (next_epoch e) < 256 ^ length e"
    using be_nat_less [of "next_epoch e"] by simp
  ultimately show ?thesis by simp
qed

lemma be_nat_prev_epoch:
  "be_nat (prev_epoch e) = (be_nat e + (256 ^ length e - 1)) mod 256 ^ length e"
proof (cases "rposition (\<lambda>b. b \<noteq> 0x00) e")
  case None
  then have "e = replicate (length e) 0"
    by (intro all_eq_replicate) (auto simp: rposition_None)
  then have "be_nat e = 0" using be_nat_zeros [of "length e"] by simp
  with None show ?thesis by (simp add: prev_epoch_def be_nat_ffs)
next
  case (Some i)
  then obtain us y vs where e: "e = us @ y # vs" and i: "length us = i" and y: "y \<noteq> 0"
    and vs: "\<forall>x \<in> set vs. \<not> x \<noteq> 0"
    by (rule rposition_split)
  have vs: "be_nat vs = 0"
    using all_eq_replicate [of vs 0] vs be_nat_zeros [of "length vs"] by auto
  have pv: "prev_epoch e = us @ (y - 1) # replicate (length vs) 0xff"
    using Some i [symmetric] by (simp add: prev_epoch_def e)
  have y1: "unat y \<ge> 1" using y by (simp add: Suc_le_eq word_greater_zero_iff unat_gt_0)
  have pos: "(256 :: nat) ^ length vs \<ge> 1" by simp
  have split: "unat y * 256 ^ length vs = (unat y - 1) * 256 ^ length vs + 256 ^ length vs"
    using y1 by (simp add: algebra_simps)
  have E: "be_nat e = be_nat us * 256 ^ Suc (length vs) + unat y * 256 ^ length vs"
    by (simp add: e be_nat_append be_nat_Cons vs)
  have P: "be_nat (prev_epoch e) = be_nat us * 256 ^ Suc (length vs)
      + ((unat y - 1) * 256 ^ length vs + (256 ^ length vs - 1))"
    by (simp add: pv be_nat_append be_nat_Cons unat_u8_dec [OF y] be_nat_ffs)
  have eq: "be_nat (prev_epoch e) + 1 = be_nat e"
    using pos split unfolding E P by linarith
  have lt: "be_nat (prev_epoch e) < 256 ^ length e"
    using be_nat_less [of "prev_epoch e"] by simp
  have "be_nat e + (256 ^ length e - 1) = be_nat (prev_epoch e) + 256 ^ length e"
    using eq by (simp add: eq [symmetric])
  then show ?thesis using lt by simp
qed

lemma next_epoch_prev_epoch: "next_epoch (prev_epoch e) = e"
proof -
  have "be_nat e < 256 ^ length e" by (rule be_nat_less)
  then have "be_nat (next_epoch (prev_epoch e)) = be_nat e"
    by (simp add: be_nat_next_epoch be_nat_prev_epoch mod_Suc_eq)
  then show ?thesis by (simp add: be_nat_inject)
qed

lemma prev_epoch_next_epoch: "prev_epoch (next_epoch e) = e"
proof -
  define N :: nat where "N = 256 ^ length e"
  have "be_nat e < N" unfolding N_def by (rule be_nat_less)
  then have "((be_nat e + 1) mod N + (N - 1)) mod N = be_nat e"
    by (cases "be_nat e + 1 = N") auto
  then have "be_nat (prev_epoch (next_epoch e)) = be_nat e"
    by (simp add: be_nat_next_epoch be_nat_prev_epoch N_def)
  then show ?thesis by (simp add: be_nat_inject)
qed

section \<open>Neighbouring full keys\<close>

lemma less_next_key: "next_key k \<noteq> [] \<Longrightarrow> k < next_key k"
proof -
  assume "next_key k \<noteq> []"
  then obtain s e where se: "next_key_no_alloc k = Some (s, e)" and nk: "next_key k = s @ [e]"
    by (auto simp: next_key_def split: option.splits)
  obtain y vs where k: "k = s @ y # vs" and y: "y \<noteq> 0xff" and e: "e = y + 1"
    using se by (rule next_key_no_alloc_split)
  have "y < y + 1" using u8_less_inc_iff [OF y, of y] by simp
  then show ?thesis unfolding nk by (simp add: k e)
qed

lemma prev_key_cases:
  obtains (zeros) "k = replicate (length k) 0" "prev_key k = replicate (length k) 0xff"
  | (less) "prev_key k < k" "prev_key k \<noteq> replicate (length (prev_key k)) 0xff"
proof (cases "rposition (\<lambda>b. b \<noteq> 0x00) k")
  case None
  then have "k = replicate (length k) 0"
    by (intro all_eq_replicate) (auto simp: rposition_None)
  with None show ?thesis by (intro zeros) (simp_all add: prev_key_def)
next
  case (Some i)
  then obtain us y vs where k: "k = us @ y # vs" and i: "length us = i" and y: "y \<noteq> 0"
    by (rule rposition_split)
  define r where "r = (if i + 1 < length k then [0xff :: u8] else [])"
  have pk: "prev_key k = us @ (y - 1) # r"
    using Some i [symmetric] by (simp add: prev_key_def k r_def)
  have uy: "unat (y - 1) + 1 = unat y"
    using unat_u8_dec [OF y] y by (simp add: unat_gt_0)
  then have "y - 1 < y" by (simp add: word_less_nat_alt)
  then have lt: "prev_key k < k" unfolding pk by (simp add: k)
  have "unat (y - 1) \<noteq> 255" using uy unat_u8_less [of y] by linarith
  then have "y - 1 \<noteq> 0xff" by (auto simp: word_unat_eq_iff)
  moreover have "y - 1 \<in> set (prev_key k)" by (simp add: pk)
  ultimately have "prev_key k \<noteq> replicate (length (prev_key k)) 0xff"
    by (metis in_set_replicate)
  with lt show ?thesis by (rule less)
qed

lemma compare_split_keys:
  "length e = 8 \<Longrightarrow> length e' = 8 \<Longrightarrow>
     compare_encoded_full_key (u @ e) (u' @ e') = Some (then_with (cmp u u') (cmp e' e))"
  by (simp add: compare_encoded_full_key_def split_key_epoch_def)

lemma prev_epoch_less:
  assumes "prev_epoch e \<noteq> replicate (length (prev_epoch e)) 0xff"
  shows "prev_epoch e < e"
proof -
  define N :: nat where "N = 256 ^ length e"
  have b: "be_nat (prev_epoch e) = (be_nat e + (N - 1)) mod N" "be_nat e < N" "N \<ge> 1"
    using be_nat_less [of e] by (simp_all add: be_nat_prev_epoch N_def)
  have "be_nat (prev_epoch e) \<noteq> N - 1"
    using assms be_nat_inject [of "prev_epoch e" "replicate (length e) 0xff"]
    by (simp add: be_nat_ffs N_def)
  then have "be_nat e \<noteq> 0" using b by (cases "be_nat e") auto
  then obtain m where m: "be_nat e = Suc m" by (cases "be_nat e") auto
  then have "be_nat e + (N - 1) = m + N" using b(3) by linarith
  then have "be_nat (prev_epoch e) = m" using b m by simp
  then have "be_nat (prev_epoch e) = be_nat e - 1" by (simp add: m)
  then show ?thesis using \<open>be_nat e \<noteq> 0\<close> by (simp add: be_nat_less_iff)
qed

lemma less_next_epoch:
  assumes "next_epoch e \<noteq> replicate (length (next_epoch e)) 0"
  shows "e < next_epoch e"
proof -
  define N :: nat where "N = 256 ^ length e"
  have b: "be_nat (next_epoch e) = (be_nat e + 1) mod N" "be_nat e < N"
    using be_nat_less [of e] by (simp_all add: be_nat_next_epoch N_def)
  have "be_nat (next_epoch e) \<noteq> 0"
    using assms be_nat_inject [of "next_epoch e" "replicate (length e) 0"] by simp
  then have "be_nat e + 1 \<noteq> N" using b(1) by auto
  then have "be_nat (next_epoch e) = be_nat e + 1" using b by simp
  then show ?thesis by (simp add: be_nat_less_iff)
qed

lemma next_full_key_greater:
  assumes "next_full_key fk = Some nk" and "nk \<noteq> []"
  shows "compare_encoded_full_key fk nk = Some Less"
proof -
  obtain u e where s: "split_key_epoch fk = Some (u, e)"
    using assms by (auto simp: next_full_key_def split: Option.bind_splits)
  have fk: "fk = u @ e" and len: "length e = 8" using split_key_epoch_SomeD [OF s] by auto
  show ?thesis
  proof (cases "prev_epoch e = replicate (length (prev_epoch e)) 0xff")
    case True
    with assms s have nk: "nk = next_key u @ prev_epoch e" "next_key u \<noteq> []"
      by (auto simp: next_full_key_def Let_def split: if_splits)
    from less_next_key [OF nk(2)] show ?thesis
      by (simp add: fk nk(1) compare_split_keys len)
  next
    case False
    with assms s have nk: "nk = u @ prev_epoch e"
      by (auto simp: next_full_key_def Let_def split: if_splits)
    from prev_epoch_less [OF False] show ?thesis
      by (simp add: fk nk compare_split_keys len)
  qed
qed

lemma prev_full_key_less:
  assumes "prev_full_key fk = Some pk" and "pk \<noteq> []"
  shows "compare_encoded_full_key pk fk = Some Less"
proof -
  obtain u e where s: "split_key_epoch fk = Some (u, e)"
    using assms by (auto simp: prev_full_key_def split: Option.bind_splits)
  have fk: "fk = u @ e" and len: "length e = 8" using split_key_epoch_SomeD [OF s] by auto
  show ?thesis
  proof (cases "next_epoch e = replicate (length (next_epoch e)) 0")
    case True
    with assms s have pk: "pk = prev_key u @ next_epoch e"
      and nff: "prev_key u \<noteq> replicate (length (prev_key u)) 0xff"
      by (auto simp: prev_full_key_def Let_def split: if_splits)
    have "prev_key u < u" by (rule prev_key_cases [of u]) (use nff in auto)
    then show ?thesis by (simp add: fk pk compare_split_keys len)
  next
    case False
    with assms s have pk: "pk = u @ next_epoch e"
      by (auto simp: prev_full_key_def Let_def split: if_splits)
    from less_next_epoch [OF False] show ?thesis
      by (simp add: fk pk compare_split_keys len)
  qed
qed

section \<open>The virtual node of a prefixed range\<close>

lemma vnode_part_be [simp]: "vnode_part (be_u16 v @ k) = Some v" "vnode_part (be_u16 v) = Some v"
  by (simp_all add: vnode_part_def split_vnode_def)

lemma vnode_index_round_trip: "vnode_from_index (vnode_to_index v) = v"
  by (simp add: vnode_from_index_def vnode_to_index_def)

lemma vnode_of_prefixed_range:
  assumes "prefixed_range_with_vnode r v = Some r'" and "v \<le> vnode_max_representable"
  shows "vnode_of_range r' = Some v"
proof -
  obtain s t s' t' where r: "r = (s, t)" "r' = (s', t')" by (cases r; cases r')
  have st: "(case s' of Included key \<Rightarrow> map_option vnode_to_index (vnode_part key)
            | Excluded key \<Rightarrow> map_option vnode_to_index (vnode_part key)
            | Unbounded \<Rightarrow> Some 0) = Some (vnode_to_index v)"
    using assms(1) unfolding r
    by (cases s) (auto simp: prefixed_range_with_vnode_def prefix_slice_with_vnode_def
        split: Option.bind_splits if_splits)
  have nx: "v \<noteq> vnode_max_representable \<Longrightarrow>
      vnode_to_index (vnode_from_index (vnode_to_index v + 1)) = vnode_to_index v + 1"
    using vnode_successor [OF _ assms(2)] by (simp add: vnode_to_index_def)
  have en: "(case t' of Included key \<Rightarrow> map_option (\<lambda>v. vnode_to_index v + 1) (vnode_part key)
            | Excluded key \<Rightarrow>
                map_option (\<lambda>(v, inner_key).
                    if inner_key = [] then vnode_to_index v else vnode_to_index v + 1)
                  (split_vnode key)
            | Unbounded \<Rightarrow> Some (vnode_to_index vnode_max_representable + 1))
        = Some (vnode_to_index v + 1)"
    using assms(1) nx unfolding r
    by (cases t) (auto simp: prefixed_range_with_vnode_def prefix_slice_with_vnode_def
        split_vnode_def end_bound_of_vnode_def split: Option.bind_splits if_splits)
  show ?thesis
    using st en by (simp add: vnode_of_range_def vnode_range_def r vnode_index_round_trip)
qed

section \<open>Properties of keys\<close>

text \<open>
  C7. The full-key codec is exact: decoding accepts a byte string with result \<open>k\<close> if and only
  if the string is the encoding of \<open>k\<close>, the encoding has the announced length, and the
  encodings with reversed epoch and without table id are inverted by their decoders. The encoding of
  a user key with a length prefix is inverted, whatever follows it in the buffer, for table keys
  whose length fits the 32-bit prefix.
\<close>

theorem full_key_codec_exact:
  "(fk_decode bs = Some k \<longleftrightarrow> bs = fk_encode k)
   \<and> length (fk_encode k) = fk_encoded_len k
   \<and> fk_decode_reverse_epoch (fk_encode_reverse_epoch k) = Some k
   \<and> fk_from_slice_without_table_id (uk_table_id (fk_user_key k))
        (fk_encode_into_without_table_id k) = Some k
   \<and> (length (uk_table_key (fk_user_key k)) < 2 ^ 32 \<longrightarrow>
        uk_decode_length_prefixed (uk_encode_length_prefixed (fk_user_key k) @ rest) = Some (fk_user_key k, rest))"
  using fk_encode_decode [of bs k] fk_encoded_len [of k] fk_decode_encode_reverse_epoch [of k]
    fk_from_slice_encode_without_table_id [of k] uk_length_prefixed_round_trip [of "fk_user_key k" rest] by auto

theorem full_key_codec_exact_witness:
  "fk_decode (fk_encode (FullKey (UserKey 7 [0, 1, 2]) 65536)) = Some (FullKey (UserKey 7 [0, 1, 2]) 65536)
   \<and> uk_decode_length_prefixed (uk_encode_length_prefixed (UserKey 7 [0, 1, 2]) @ [9]) = Some (UserKey 7 [0, 1, 2], [9])"
  using full_key_codec_exact [of "fk_encode (FullKey (UserKey 7 [0, 1, 2]) 65536)" "FullKey (UserKey 7 [0, 1, 2]) 65536" "[9]"]
  by simp

text \<open>
  C8. Comparing encoded full keys compares the keys: by table id, then table key in byte order,
  then epoch with newer versions first; in particular \<open>FullKey\<close>'s own comparison agrees.
\<close>

theorem encoded_order_is_key_order:
  "compare_encoded_full_key (fk_encode (FullKey (UserKey t k) e)) (fk_encode (FullKey (UserKey t' k') e'))
     = Some (then_with (cmp t t') (then_with (cmp k k') (cmp e' e)))
   \<and> fk_cmp (FullKey (UserKey t k) e) (FullKey (UserKey t' k') e')
     = then_with (cmp t t') (then_with (cmp k k') (cmp e' e))"
proof -
  have "fk_cmp (FullKey (UserKey t k) e) (FullKey (UserKey t' k') e')
     = then_with (cmp t t') (then_with (cmp k k') (cmp e' e))"
    by (auto simp: fk_cmp_def cmp_def less_user_key_def less_eq_user_key_def)
  then show ?thesis by (simp add: compare_encoded_full_key_encode fk_cmp_eq_cmp)
qed

text \<open>
  C9. The range of a prefix holds exactly the keys with that prefix, also for prefixes that end in
  or consist of 0xff bytes. The excluded-prefix start bound admits exactly the greater keys without the
  prefix, and panics exactly for prefixes of 0xff bytes only, which no greater key can follow.
\<close>

theorem range_of_prefix_exact:
  "in_range (range_of_prefix p) k = prefix p k
   \<and> (case start_bound_of_excluded_prefix p of
        None \<Rightarrow> p = replicate (length p) 0xff
      | Some b \<Rightarrow> p \<noteq> replicate (length p) 0xff \<and> above_start b k = (p < k \<and> \<not> prefix p k))"
proof -
  have "start_bound_of_excluded_prefix p = None \<longleftrightarrow> (\<forall>b \<in> set p. b = 0xff)"
    unfolding next_key_no_alloc_None [symmetric] by (simp add: start_bound_of_excluded_prefix_def split: option.split)
  also have "\<dots> \<longleftrightarrow> p = replicate (length p) 0xff" by (induction p) simp_all
  finally show ?thesis
    using range_of_prefix_iff [of p k] start_bound_of_excluded_prefix_iff [of p _ k]
    by (cases "start_bound_of_excluded_prefix p") simp_all
qed

text \<open>
  C10. A key range prefixed with a vnode holds exactly that vnode's keys of the range, whatever the
  other vnode is, and the vnode can be read back from the range.
\<close>

theorem prefixed_range_exact:
  assumes "prefixed_range_with_vnode r v = Some r'"
    and "v \<le> vnode_max_representable" and "v' \<le> vnode_max_representable"
  shows "(in_range r' (be_u16 v' @ k) \<longleftrightarrow> v' = v \<and> in_range r k) \<and> vnode_of_range r' = Some v"
  using prefixed_range_with_vnode_iff [OF assms, of k] vnode_of_prefixed_range [OF assms(1,2)]
  by simp

theorem prefixed_range_exact_witness:
  "in_range (Included [0x7f, 0xff, 5], Unbounded) (be_u16 0x7fff @ [6]) \<and>
   vnode_of_range (Included [0x7f, 0xff, 5], Unbounded) = Some 0x7fff"
proof -
  have v: "be_u16 0x7fff = [0x7f, 0xff]" by (simp add: be_u16_def nat_be_2)
  have m: "vnode_max_representable = 0x7fff"
    by (simp add: vnode_max_representable_def vnode_max_count_def vnode_from_index_def)
  have "prefixed_range_with_vnode (Included [5], Unbounded) 0x7fff
      = Some (Included [0x7f, 0xff, 5], Unbounded)"
    by (simp add: prefixed_range_with_vnode_def prefix_slice_with_vnode_def end_bound_of_vnode_def v m)
  moreover have "(0x7fff :: vnode) \<le> vnode_max_representable" by (simp add: m)
  moreover have "in_range (Included [5], Unbounded) [6 :: u8]" by (simp add: in_range_def)
  ultimately show ?thesis
    using prefixed_range_exact [of "(Included [5], Unbounded)" "0x7fff" _ "0x7fff" "[6]"] by blast
qed

text \<open>
  Turning a range of table keys into a range of user keys keeps it inside its table: the user
  keys of the result are exactly the pairs of the table and a key of the range.
\<close>

lemma bound_table_key_range_exact:
  "in_range (bound_table_key_range t r) uk \<longleftrightarrow> uk_table_id uk = t \<and> in_range r (uk_table_key uk)"
  using bound_table_key_range_iff [of t r "uk_table_id uk" "uk_table_key uk"] by (cases uk) auto

text \<open>
  The full key tracker runs through a sequence of observed keys without a failed assertion
  exactly when the sequence is sorted (strictly, unless duplicates are allowed), and then its
  answers say which observations started a new user key.
\<close>

lemma full_key_tracker_exact:
  "map_option fst (fkt_observe_all skip (fkt_new k) ks) =
     (if (if skip then sorted (k # ks) else sorted_wrt (<) (k # ks))
      then Some (map2 (\<lambda>p x. p \<noteq> fk_user_key x) (fk_user_key k # map fk_user_key ks) ks)
      else None)"
proof (cases "fkt_observe_all skip (fkt_new k) ks")
  case None
  then have "\<not> (if skip then sorted (k # ks) else sorted_wrt (<) (k # ks))"
    using fkt_observe_all_None [of skip "fkt_new k" ks] by (simp only: fkt_last_new simp_thms)
  with None show ?thesis by (simp only: if_False option.map)
next
  case (Some p)
  then have "if skip then sorted (k # ks) else sorted_wrt (<) (k # ks)"
    using fkt_observe_all_None [of skip "fkt_new k" ks]
    by (simp only: fkt_last_new simp_thms option.distinct)
  moreover have "fst p = map2 (\<lambda>p x. p \<noteq> fk_user_key x) (fk_user_key k # map fk_user_key ks) ks"
    using fkt_observe_all_flags [of skip "fkt_new k" ks "fst p" "snd p"] Some
    by (simp add: fkt_latest_user_key_def fkt_new_def)
  ultimately show ?thesis using Some by (simp only: if_P option.map)
qed

text \<open>
  Incrementing and decrementing a big-endian epoch is arithmetic modulo its width, and the two are
  inverse.
\<close>

lemma epoch_bytes_arithmetic:
  "be_nat (next_epoch e) = (be_nat e + 1) mod 256 ^ length e
   \<and> next_epoch (prev_epoch e) = e \<and> prev_epoch (next_epoch e) = e"
  by (simp add: be_nat_next_epoch next_epoch_prev_epoch prev_epoch_next_epoch)

text \<open>
  A neighbour that \<open>next_full_key\<close> or \<open>prev_full_key\<close> returns is strictly after or before the
  key in the order of encoded full keys, unless it is the empty key.
\<close>

lemma neighbour_full_keys_strict:
  "(case next_full_key fk of Some nk \<Rightarrow> nk = [] \<or> compare_encoded_full_key fk nk = Some Less
      | None \<Rightarrow> True)
   \<and> (case prev_full_key fk of Some pk \<Rightarrow> pk = [] \<or> compare_encoded_full_key pk fk = Some Less
      | None \<Rightarrow> True)"
  using next_full_key_greater [of fk] prev_full_key_less [of fk] by (auto split: option.splits)

end
