(* ===== verification/Key_Range.thy ===== *)
theory Key_Range
  imports Hummock_Key
begin

text \<open>
  Key ranges of SSTables, from \<^verbatim>\<open>storage/hummock_sdk/src/key_range.rs\<close>. A range holds two
  encoded full keys; an empty byte string is an infinite bound; the right bound may be
  exclusive. The comparisons decode the keys, so they panic (\<open>None\<close>) on a malformed or
  infinite bound where the code does not test for it first.
\<close>

record key_range =
  kr_left :: bytes
  kr_right :: bytes
  kr_right_exclusive :: bool

definition kr_new :: "bytes \<Rightarrow> bytes \<Rightarrow> key_range" where
  "kr_new l r = \<lparr>kr_left = l, kr_right = r, kr_right_exclusive = False\<rparr>"

definition kr_inf :: key_range where
  "kr_inf = \<lparr>kr_left = [], kr_right = [], kr_right_exclusive = False\<rparr>"

definition start_bound_inf :: "key_range \<Rightarrow> bool" where
  "start_bound_inf r = (kr_left r = [])"

definition end_bound_inf :: "key_range \<Rightarrow> bool" where
  "end_bound_inf r = (kr_right r = [])"

definition inf_key_range :: "key_range \<Rightarrow> bool" where
  "inf_key_range r = (start_bound_inf r \<and> end_bound_inf r)"

definition compare_right_with_user_key :: "key_range \<Rightarrow> user_key \<Rightarrow> ordering option" where
  "compare_right_with_user_key r ukey =
     do { fk \<leftarrow> fk_decode (kr_right r);
          let ret = cmp (fk_user_key fk) ukey;
          Some (if ret = Equal \<and> kr_right_exclusive r then Less else ret) }"

definition compare_right_with :: "key_range \<Rightarrow> bytes \<Rightarrow> ordering option" where
  "compare_right_with r full_key =
     do { fk \<leftarrow> fk_decode full_key; compare_right_with_user_key r (fk_user_key fk) }"

text \<open>\<open>a && b\<close> and \<open>a || b\<close> where the second operand may panic.\<close>

definition and_then_bool :: "bool option \<Rightarrow> bool option \<Rightarrow> bool option" where
  "and_then_bool a b = do { x \<leftarrow> a; if x then b else Some False }"

definition full_key_overlap :: "key_range \<Rightarrow> key_range \<Rightarrow> bool option" where
  "full_key_overlap a b =
     and_then_bool
       (if end_bound_inf a \<or> start_bound_inf b then Some True
        else map_option (\<lambda>x. x \<noteq> Less) (compare_encoded_full_key (kr_right a) (kr_left b)))
       (if end_bound_inf b \<or> start_bound_inf a then Some True
        else map_option (\<lambda>x. x \<noteq> Less) (compare_encoded_full_key (kr_right b) (kr_left a)))"

definition full_key_extend :: "key_range \<Rightarrow> key_range \<Rightarrow> key_range option" where
  "full_key_extend self other =
     do { ext_left \<leftarrow>
            (if start_bound_inf self then Some False
             else if start_bound_inf other then Some True
             else map_option (\<lambda>x. x = Less)
                    (compare_encoded_full_key (kr_left other) (kr_left self)));
          let self = (if ext_left then self\<lparr>kr_left := kr_left other\<rparr> else self);
          ext_right \<leftarrow>
            (if end_bound_inf self then Some False
             else if end_bound_inf other then Some True
             else map_option (\<lambda>x. x = Greater)
                    (compare_encoded_full_key (kr_right other) (kr_right self)));
          Some (if ext_right
                then self\<lparr>kr_right := kr_right other,
                          kr_right_exclusive := kr_right_exclusive other\<rparr>
                else self) }"

definition sstable_overlap :: "key_range \<Rightarrow> key_range \<Rightarrow> bool option" where
  "sstable_overlap a b =
     and_then_bool
       (if end_bound_inf a \<or> start_bound_inf b then Some True
        else map_option (\<lambda>x. x \<noteq> Less) (compare_right_with a (kr_left b)))
       (if end_bound_inf b \<or> start_bound_inf a then Some True
        else map_option (\<lambda>x. x \<noteq> Less) (compare_right_with b (kr_left a)))"

text \<open>\<open>key_range_cmp!\<close>, the \<open>Ord\<close> of key ranges.\<close>

definition key_range_cmp :: "key_range \<Rightarrow> key_range \<Rightarrow> ordering option" where
  "key_range_cmp left right =
     do { ret \<leftarrow>
            (if start_bound_inf left \<and> start_bound_inf right then Some Equal
             else if \<not> start_bound_inf left \<and> \<not> start_bound_inf right then
               compare_encoded_full_key (kr_left left) (kr_left right)
             else if kr_left left = [] then Some Less
             else Some Greater);
          if ret \<noteq> Equal then Some ret
          else if end_bound_inf left \<and> end_bound_inf right then Some Equal
          else if \<not> end_bound_inf left \<and> \<not> end_bound_inf right then
            compare_encoded_full_key (kr_right left) (kr_right right)
          else if end_bound_inf left then Some Greater
          else Some Less }"

section \<open>The user keys of a range\<close>

text \<open>Both bounds are infinite or well-formed encoded full keys.\<close>

definition kr_wf :: "key_range \<Rightarrow> bool" where
  "kr_wf r = ((kr_left r = [] \<or> fk_decode (kr_left r) \<noteq> None)
            \<and> (kr_right r = [] \<or> fk_decode (kr_right r) \<noteq> None))"

definition above_left :: "key_range \<Rightarrow> user_key \<Rightarrow> bool" where
  "above_left r uk =
     (kr_left r = [] \<or> (\<exists>fk. fk_decode (kr_left r) = Some fk \<and> fk_user_key fk \<le> uk))"

definition below_right :: "key_range \<Rightarrow> user_key \<Rightarrow> bool" where
  "below_right r uk =
     (kr_right r = [] \<or>
      (\<exists>fk. fk_decode (kr_right r) = Some fk \<and>
         (if kr_right_exclusive r then uk < fk_user_key fk else uk \<le> fk_user_key fk)))"

definition kr_contains :: "key_range \<Rightarrow> user_key \<Rightarrow> bool" where
  "kr_contains r uk = (above_left r uk \<and> below_right r uk)"

text \<open>
  An exclusive right bound carries the largest epoch, so that it sorts before every version
  of its user key; an inclusive one does not. The writers of key ranges keep this
  (\<^verbatim>\<open>compaction_group/mod.rs\<close>, \<^verbatim>\<open>vnode_watermark_picker.rs\<close>).
\<close>

definition kr_right_normal :: "key_range \<Rightarrow> bool" where
  "kr_right_normal r =
     (case fk_decode (kr_right r) of
        None \<Rightarrow> True
      | Some fk \<Rightarrow> kr_right_exclusive r = (fk_epoch fk = - 1))"

definition kr_least_key :: user_key where
  "kr_least_key = UserKey 0 []"

section \<open>Lemmas\<close>

lemma kr_least_key_le [simp]: "kr_least_key \<le> k"
  by (cases "uk_table_id k = 0"; cases "uk_table_key k")
    (auto simp: kr_least_key_def less_eq_user_key_def word_gt_0)

lemma compare_right_with_decoded:
  assumes "fk_decode (kr_right r) = Some fk" and "fk_decode bs = Some k"
  shows "compare_right_with r bs =
     Some (if fk_user_key fk = fk_user_key k \<and> kr_right_exclusive r then Less
           else cmp (fk_user_key fk) (fk_user_key k))"
  using assms by (auto simp: compare_right_with_def compare_right_with_user_key_def Let_def)

lemma fk_decode_Nil [simp]: "fk_decode [] = None"
  by (simp add: fk_decode_def split_key_epoch_def)

text \<open>The key sits right of a left bound, and the two tests of \<open>sstable_overlap\<close>.\<close>

definition right_reaches :: "key_range \<Rightarrow> key_range \<Rightarrow> bool" where
  "right_reaches a b = (kr_right a = [] \<or> kr_left b = [] \<or>
     (\<exists>l r. fk_decode (kr_left b) = Some l \<and> fk_decode (kr_right a) = Some r \<and>
        (if kr_right_exclusive a then fk_user_key l < fk_user_key r
         else fk_user_key l \<le> fk_user_key r)))"

lemma right_reaches_test:
  assumes "kr_wf a" and "kr_wf b"
  shows "(if end_bound_inf a \<or> start_bound_inf b then Some True
          else map_option (\<lambda>x. x \<noteq> Less) (compare_right_with a (kr_left b)))
         = Some (right_reaches a b)"
  using assms
  by (auto simp: kr_wf_def end_bound_inf_def start_bound_inf_def right_reaches_def
      compare_right_with_decoded not_less order_le_less)

lemma sstable_overlap_reaches:
  assumes "kr_wf a" and "kr_wf b"
  shows "sstable_overlap a b = Some (right_reaches a b \<and> right_reaches b a)"
  unfolding sstable_overlap_def right_reaches_test [OF assms] right_reaches_test [OF assms(2,1)]
  by (simp add: and_then_bool_def)

definition kr_low :: "key_range \<Rightarrow> user_key" where
  "kr_low r = (case fk_decode (kr_left r) of None \<Rightarrow> kr_least_key | Some fk \<Rightarrow> fk_user_key fk)"

lemma above_left_iff: "kr_wf r \<Longrightarrow> above_left r k \<longleftrightarrow> kr_low r \<le> k"
  by (auto simp: kr_wf_def above_left_def kr_low_def)

lemma below_right_mono: "below_right r k \<Longrightarrow> j \<le> k \<Longrightarrow> below_right r j"
  by (auto simp: below_right_def split: if_splits)

lemma kr_contains_low:
  assumes "kr_wf r" and "kr_contains r k"
  shows "kr_contains r (kr_low r)"
  using assms below_right_mono [of r k "kr_low r"] by (auto simp: kr_contains_def above_left_iff)

lemma right_reaches_contains:
  assumes "kr_wf a" and "kr_wf b" and "kr_contains a (kr_low a)" and "kr_low a \<le> kr_low b"
    and "right_reaches a b"
  shows "kr_contains a (kr_low b)"
proof (cases "fk_decode (kr_left b)")
  case None
  then have "kr_low a = kr_low b" using assms(4) by (simp add: kr_low_def antisym)
  with assms(3) show ?thesis by simp
next
  case (Some l)
  have "below_right a (kr_low b)"
    using assms(5) Some by (auto simp: right_reaches_def below_right_def kr_low_def)
  then show ?thesis using assms(1,4) by (simp add: kr_contains_def above_left_iff)
qed

lemma contains_right_reaches:
  assumes "kr_contains a k" and "kr_contains b k"
  shows "right_reaches a b"
proof (cases "kr_right a = [] \<or> kr_left b = []")
  case True
  then show ?thesis by (auto simp: right_reaches_def)
next
  case False
  then obtain l where l: "fk_decode (kr_left b) = Some l" "fk_user_key l \<le> k"
    using assms(2) by (auto simp: kr_contains_def above_left_def)
  obtain r where r: "fk_decode (kr_right a) = Some r"
    "if kr_right_exclusive a then k < fk_user_key r else k \<le> fk_user_key r"
    using assms(1) False by (auto simp: kr_contains_def below_right_def)
  have "if kr_right_exclusive a then fk_user_key l < fk_user_key r
      else fk_user_key l \<le> fk_user_key r"
    using l(2) r(2) by (auto split: if_splits)
  with l(1) r(1) show ?thesis by (auto simp: right_reaches_def)
qed

lemma sstable_overlap_common_key:
  assumes "kr_wf a" and "kr_wf b" and "kr_contains a i" and "kr_contains b j"
  shows "sstable_overlap a b = Some (\<exists>k. kr_contains a k \<and> kr_contains b k)"
proof -
  have "\<exists>k. kr_contains a k \<and> kr_contains b k" if r: "right_reaches a b" "right_reaches b a"
  proof (cases "kr_low a \<le> kr_low b")
    case True
    then show ?thesis
      using right_reaches_contains [OF assms(1,2) _ True r(1)]
        kr_contains_low [OF assms(1,3)] kr_contains_low [OF assms(2,4)] by auto
  next
    case False
    then have "kr_low b \<le> kr_low a" by simp
    then show ?thesis
      using right_reaches_contains [OF assms(2,1) _ _ r(2)]
        kr_contains_low [OF assms(1,3)] kr_contains_low [OF assms(2,4)] by auto
  qed
  moreover have "right_reaches a b \<and> right_reaches b a"
    if "kr_contains a k \<and> kr_contains b k" for k
    using that contains_right_reaches by blast
  ultimately show ?thesis unfolding sstable_overlap_reaches [OF assms(1,2)] by auto
qed

section \<open>The hull of two ranges\<close>

lemma ext_left_test:
  assumes "kr_wf a" and "kr_wf b"
  obtains e where "(if start_bound_inf a then Some False
             else if start_bound_inf b then Some True
             else map_option (\<lambda>x. x = Less)
                    (compare_encoded_full_key (kr_left b) (kr_left a))) = Some e"
    and "above_left (if e then b else a) k \<longleftrightarrow> above_left a k \<or> above_left b k"
proof -
  consider "kr_left a = []" | "kr_left a \<noteq> []" "kr_left b = []"
    | x y where "kr_left a \<noteq> []" "kr_left b \<noteq> []" "fk_decode (kr_left a) = Some x" "fk_decode (kr_left b) = Some y"
    using assms by (auto simp: kr_wf_def)
  then show thesis
  proof cases
    case 1
    then show ?thesis by (intro that [of False]) (auto simp: start_bound_inf_def above_left_def)
  next
    case 2
    then show ?thesis by (intro that [of True]) (auto simp: start_bound_inf_def above_left_def)
  next
    case 3
    have "y < x \<Longrightarrow> fk_user_key y \<le> fk_user_key x" "\<not> y < x \<Longrightarrow> fk_user_key x \<le> fk_user_key y"
      by (auto simp: less_full_key_def)
    with 3 show ?thesis
      by (intro that [of "y < x"])
        (auto simp: start_bound_inf_def above_left_def compare_encoded_full_key_decode)
  qed
qed

lemma right_order:
  assumes "kr_right_normal a" and "kr_right_normal b"
    and "fk_decode (kr_right a) = Some x" and "fk_decode (kr_right b) = Some y"
    and "x \<le> y" and "below_right a k"
  shows "below_right b k"
proof -
  have "kr_right a \<noteq> []" using assms(3) by auto
  then have k: "if fk_epoch x = - 1 then k < fk_user_key x else k \<le> fk_user_key x"
    using assms(1,3,6) by (auto simp: below_right_def kr_right_normal_def)
  have "fk_user_key x < fk_user_key y \<or> fk_user_key x = fk_user_key y \<and> fk_epoch y \<le> fk_epoch x"
    using assms(5) by (simp add: less_eq_full_key_def)
  then have "if fk_epoch y = - 1 then k < fk_user_key y else k \<le> fk_user_key y"
    using k word_order.extremum_unique [of "fk_epoch x"] by (auto split: if_splits)
  then show ?thesis using assms(2,4) by (auto simp: below_right_def kr_right_normal_def)
qed

lemma ext_right_test:
  assumes "kr_wf a" and "kr_wf b" and "kr_right_normal a" and "kr_right_normal b"
  obtains e where "(if end_bound_inf a then Some False
             else if end_bound_inf b then Some True
             else map_option (\<lambda>x. x = Greater)
                    (compare_encoded_full_key (kr_right b) (kr_right a))) = Some e"
    and "below_right (if e then b else a) k \<longleftrightarrow> below_right a k \<or> below_right b k"
proof -
  consider "kr_right a = []" | "kr_right a \<noteq> []" "kr_right b = []"
    | x y where "kr_right a \<noteq> []" "kr_right b \<noteq> []" "fk_decode (kr_right a) = Some x" "fk_decode (kr_right b) = Some y"
    using assms by (auto simp: kr_wf_def)
  then show thesis
  proof cases
    case 1
    then show ?thesis by (intro that [of False]) (auto simp: end_bound_inf_def below_right_def)
  next
    case 2
    then show ?thesis by (intro that [of True]) (auto simp: end_bound_inf_def below_right_def)
  next
    case 3
    have "x < y \<Longrightarrow> below_right a k \<Longrightarrow> below_right b k"
      by (rule right_order [OF assms(3,4) 3(3,4)]) auto
    moreover have "\<not> x < y \<Longrightarrow> below_right b k \<Longrightarrow> below_right a k"
      by (rule right_order [OF assms(4,3) 3(4,3)]) auto
    ultimately show ?thesis using 3
      by (intro that [of "x < y"])
        (auto simp: end_bound_inf_def compare_encoded_full_key_decode)
  qed
qed


lemma full_key_extend_hull:
  assumes "kr_wf a" and "kr_wf b" and "kr_right_normal a" and "kr_right_normal b"
  obtains c where "full_key_extend a b = Some c" "kr_wf c" "kr_right_normal c"
    "kr_left c \<in> {kr_left a, kr_left b}" "kr_right c \<in> {kr_right a, kr_right b}"
    "\<And>k. above_left c k \<longleftrightarrow> above_left a k \<or> above_left b k"
    "\<And>k. below_right c k \<longleftrightarrow> below_right a k \<or> below_right b k"
proof -
  define tl where "tl = (if start_bound_inf a then Some False
             else if start_bound_inf b then Some True
             else map_option (\<lambda>x. x = Less)
                    (compare_encoded_full_key (kr_left b) (kr_left a)))"
  define tr where "tr = (if end_bound_inf a then Some False
             else if end_bound_inf b then Some True
             else map_option (\<lambda>x. x = Greater)
                    (compare_encoded_full_key (kr_right b) (kr_right a)))"
  obtain e where e: "tl = Some e" using ext_left_test [OF assms(1,2)] unfolding tl_def by metis
  obtain f where f: "tr = Some f" using ext_right_test [OF assms] unfolding tr_def by metis
  define c where "c = \<lparr>kr_left = kr_left (if e then b else a), kr_right = kr_right (if f then b else a),
    kr_right_exclusive = kr_right_exclusive (if f then b else a)\<rparr>"
  let ?s = "if e then a\<lparr>kr_left := kr_left b\<rparr> else a"
  have r: "kr_right ?s = kr_right a" "end_bound_inf ?s = end_bound_inf a"
    by (simp_all add: end_bound_inf_def)
  have "full_key_extend a b = Some (if f then ?s\<lparr>kr_right := kr_right b,
      kr_right_exclusive := kr_right_exclusive b\<rparr> else ?s)"
    unfolding full_key_extend_def tl_def [symmetric] e bind.bind_lunit Let_def r
      tr_def [symmetric] f by (rule refl)
  also have "\<dots> = Some c" by (auto intro!: key_range.equality simp: c_def)
  finally have ext: "full_key_extend a b = Some c" .
  have L: "above_left c k \<longleftrightarrow> above_left a k \<or> above_left b k" for k
  proof -
    have "above_left c k = above_left (if e then b else a) k" by (simp add: above_left_def c_def)
    moreover obtain e' where "tl = Some e'"
      "above_left (if e' then b else a) k \<longleftrightarrow> above_left a k \<or> above_left b k"
      using ext_left_test [OF assms(1,2), of k] unfolding tl_def by metis
    ultimately show ?thesis using e by simp
  qed
  have R: "below_right c k \<longleftrightarrow> below_right a k \<or> below_right b k" for k
  proof -
    have "below_right c k = below_right (if f then b else a) k" by (simp add: below_right_def c_def)
    moreover obtain f' where "tr = Some f'"
      "below_right (if f' then b else a) k \<longleftrightarrow> below_right a k \<or> below_right b k"
      using ext_right_test [OF assms, of k] unfolding tr_def by metis
    ultimately show ?thesis using f by simp
  qed
  show thesis
    by (rule that [OF ext]) (use assms L R in \<open>auto simp: c_def kr_wf_def kr_right_normal_def\<close>)
qed

section \<open>Properties of key ranges\<close>

text \<open>
  C12. For well-formed ranges that hold some user key, \<open>sstable_overlap\<close> does not panic and says
  exactly whether the two ranges share a user key.
\<close>

theorem sstable_overlap_exact:
  assumes "kr_wf a" and "kr_wf b" and "kr_contains a i" and "kr_contains b j"
  shows "sstable_overlap a b = Some (\<exists>k. kr_contains a k \<and> kr_contains b k)"
  by (rule sstable_overlap_common_key [OF assms])

theorem sstable_overlap_exact_witness:
  "sstable_overlap (kr_new (fk_encode (FullKey (UserKey 1 [1]) 7)) (fk_encode (FullKey (UserKey 1 [9]) 7)))
       \<lparr>kr_left = fk_encode (FullKey (UserKey 1 [5]) 7), kr_right = fk_encode (FullKey (UserKey 2 []) (- 1)),
         kr_right_exclusive = True\<rparr>
     = Some True"
proof -
  let ?a = "kr_new (fk_encode (FullKey (UserKey 1 [1]) 7)) (fk_encode (FullKey (UserKey 1 [9]) 7))"
  let ?b = "\<lparr>kr_left = fk_encode (FullKey (UserKey 1 [5]) 7),
     kr_right = fk_encode (FullKey (UserKey 2 []) (- 1)), kr_right_exclusive = True\<rparr>"
  note defs = kr_new_def kr_contains_def above_left_def below_right_def less_user_key_def
    less_eq_user_key_def
  have "kr_contains ?a (UserKey 1 [5])" "kr_contains ?b (UserKey 1 [5])" by (simp_all add: defs)
  moreover have "kr_wf ?a" "kr_wf ?b" by (simp_all add: kr_wf_def kr_new_def)
  ultimately show ?thesis using sstable_overlap_exact [of ?a ?b "UserKey 1 [5]" "UserKey 1 [5]"] by auto
qed

text \<open>
  \<open>full_key_extend\<close> computes the hull: for well-formed ranges whose exclusive right bounds are
  exactly those with the maximal epoch, the result reaches down to the lower left bound and up
  to the higher right bound, and is again such a range.
\<close>

lemma full_key_extend_exact:
  assumes "kr_wf a" and "kr_wf b" and "kr_right_normal a" and "kr_right_normal b"
  shows "\<exists>c. full_key_extend a b = Some c \<and> kr_wf c \<and> kr_right_normal c
     \<and> (\<forall>k. above_left c k = (above_left a k \<or> above_left b k))
     \<and> (\<forall>k. below_right c k = (below_right a k \<or> below_right b k))"
  using full_key_extend_hull [OF assms] by metis

end
