(* ===== verification/Sst_Level.thy ===== *)
theory Sst_Level
  imports Key_Range "HOL-Library.Option_ord" "HOL-Library.Product_Lexorder" "HOL-Library.Multiset"
begin

text \<open>
  SSTable descriptors and the levels of a compaction group, from
  \<^verbatim>\<open>storage/hummock_sdk/src/sstable_info.rs\<close>, \<^verbatim>\<open>level.rs\<close> and the concatenation tests of
  \<^verbatim>\<open>lib.rs\<close>. The protobuf messages of \<^verbatim>\<open>proto/hummock.proto\<close> are records with the message's
  fields; the conversions to and from them are the \<open>From\<close> implementations, \<open>None\<close> being a
  failed assertion or \<open>unwrap\<close>.
\<close>

section \<open>SSTable descriptors\<close>

datatype bloom_filter_type = BloomFilterUnspecified | Sstable | Blocked

fun bloom_filter_to_i32 :: "bloom_filter_type \<Rightarrow> int" where
  "bloom_filter_to_i32 BloomFilterUnspecified = 0"
| "bloom_filter_to_i32 Sstable = 1"
| "bloom_filter_to_i32 Blocked = 2"

definition bloom_filter_try_from :: "int \<Rightarrow> bloom_filter_type option" where
  "bloom_filter_try_from i =
     (if i = 0 then Some BloomFilterUnspecified else if i = 1 then Some Sstable
      else if i = 2 then Some Blocked else None)"

record sstable_info =
  sst_object_id :: u64
  sst_id :: u64
  sst_key_range :: key_range
  sst_file_size :: u64
  sst_table_ids :: "u32 list"
  sst_meta_offset :: u64
  sst_stale_key_count :: u64
  sst_total_key_count :: u64
  sst_min_epoch :: u64
  sst_max_epoch :: u64
  sst_uncompressed_file_size :: u64
  sst_range_tombstone_count :: u64
  sst_bloom_filter_kind :: bloom_filter_type
  sst_size :: u64

record pb_sstable_info =
  pb_object_id :: u64
  pb_sst_id :: u64
  pb_key_range :: "key_range option"
  pb_file_size :: u64
  pb_table_ids :: "u32 list"
  pb_meta_offset :: u64
  pb_stale_key_count :: u64
  pb_total_key_count :: u64
  pb_min_epoch :: u64
  pb_max_epoch :: u64
  pb_uncompressed_file_size :: u64
  pb_range_tombstone_count :: u64
  pb_bloom_filter_kind :: int
  pb_sst_size :: u64

definition sst_estimated_encode_len :: "sstable_info \<Rightarrow> nat" where
  "sst_estimated_encode_len s =
     8 + 8 + 8 + length (sst_table_ids s) * 4 + 8 + 8 + 8 + 8 + 8 + 8 + 8 + 4 + 8
     + (length (kr_left (sst_key_range s)) + length (kr_right (sst_key_range s)) + 1)"

definition sst_from_pb :: "pb_sstable_info \<Rightarrow> sstable_info option" where
  "sst_from_pb p =
     (if \<not> sorted (pb_table_ids p) then None
      else do { kind \<leftarrow> bloom_filter_try_from (pb_bloom_filter_kind p);
        Some \<lparr>sst_object_id = pb_object_id p, sst_id = pb_sst_id p,
          sst_key_range = (case pb_key_range p of
             Some kr \<Rightarrow> \<lparr>kr_left = kr_left kr, kr_right = kr_right kr,
                         kr_right_exclusive = kr_right_exclusive kr\<rparr>
           | None \<Rightarrow> kr_inf),
          sst_file_size = pb_file_size p, sst_table_ids = pb_table_ids p,
          sst_meta_offset = pb_meta_offset p, sst_stale_key_count = pb_stale_key_count p,
          sst_total_key_count = pb_total_key_count p, sst_min_epoch = pb_min_epoch p,
          sst_max_epoch = pb_max_epoch p,
          sst_uncompressed_file_size = pb_uncompressed_file_size p,
          sst_range_tombstone_count = pb_range_tombstone_count p,
          sst_bloom_filter_kind = kind,
          sst_size = (if pb_sst_size p = 0 then pb_file_size p else pb_sst_size p)\<rparr> })"

definition sst_to_pb :: "sstable_info \<Rightarrow> pb_sstable_info option" where
  "sst_to_pb s =
     (if \<not> sst_size s > 0 then None
      else if \<not> sorted (sst_table_ids s) then None
      else Some \<lparr>pb_object_id = sst_object_id s, pb_sst_id = sst_id s,
        pb_key_range = (if inf_key_range (sst_key_range s) then None
          else Some \<lparr>kr_left = kr_left (sst_key_range s), kr_right = kr_right (sst_key_range s),
                     kr_right_exclusive = kr_right_exclusive (sst_key_range s)\<rparr>),
        pb_file_size = sst_file_size s, pb_table_ids = sst_table_ids s,
        pb_meta_offset = sst_meta_offset s, pb_stale_key_count = sst_stale_key_count s,
        pb_total_key_count = sst_total_key_count s, pb_min_epoch = sst_min_epoch s,
        pb_max_epoch = sst_max_epoch s,
        pb_uncompressed_file_size = sst_uncompressed_file_size s,
        pb_range_tombstone_count = sst_range_tombstone_count s,
        pb_bloom_filter_kind = bloom_filter_to_i32 (sst_bloom_filter_kind s),
        pb_sst_size = sst_size s\<rparr>)"

definition sst_remove_key_range :: "sstable_info \<Rightarrow> sstable_info" where
  "sst_remove_key_range s = s\<lparr>sst_key_range := kr_inf\<rparr>"

section \<open>Levels\<close>

datatype level_type = LevelTypeUnspecified | Nonoverlapping | Overlapping

fun level_type_to_i32 :: "level_type \<Rightarrow> int" where
  "level_type_to_i32 LevelTypeUnspecified = 0"
| "level_type_to_i32 Nonoverlapping = 1"
| "level_type_to_i32 Overlapping = 2"

definition level_type_try_from :: "int \<Rightarrow> level_type option" where
  "level_type_try_from i =
     (if i = 0 then Some LevelTypeUnspecified else if i = 1 then Some Nonoverlapping
      else if i = 2 then Some Overlapping else None)"

record level =
  lvl_idx :: u32
  lvl_type :: level_type
  lvl_table_infos :: "sstable_info list"
  lvl_total_file_size :: u64
  lvl_sub_level_id :: u64
  lvl_uncompressed_file_size :: u64
  lvl_vnode_partition_count :: u32

record overlapping_level =
  l0_sub_levels :: "level list"
  l0_total_file_size :: u64
  l0_uncompressed_file_size :: u64

record levels =
  lvs_levels :: "level list"
  lvs_l0 :: overlapping_level
  lvs_group_id :: u64
  lvs_parent_group_id :: u64
  lvs_member_table_ids :: "u32 list"

record input_level =
  il_idx :: u32
  il_type :: level_type
  il_table_infos :: "sstable_info list"

record pb_level =
  pbl_idx :: u32
  pbl_type :: int
  pbl_table_infos :: "pb_sstable_info list"
  pbl_total_file_size :: u64
  pbl_sub_level_id :: u64
  pbl_uncompressed_file_size :: u64
  pbl_vnode_partition_count :: u32

record pb_overlapping_level =
  pb0_sub_levels :: "pb_level list"
  pb0_total_file_size :: u64
  pb0_uncompressed_file_size :: u64

record pb_levels =
  pbs_levels :: "pb_level list"
  pbs_l0 :: "pb_overlapping_level option"
  pbs_group_id :: u64
  pbs_parent_group_id :: u64
  pbs_member_table_ids :: "u32 list"

record pb_input_level =
  pbi_idx :: u32
  pbi_type :: int
  pbi_table_infos :: "pb_sstable_info list"

text \<open>\<open>iter().map(f).collect()\<close> where \<open>f\<close> may panic.\<close>

fun map_opt :: "('a \<Rightarrow> 'b option) \<Rightarrow> 'a list \<Rightarrow> 'b list option" where
  "map_opt f [] = Some []"
| "map_opt f (x # xs) = do { y \<leftarrow> f x; ys \<leftarrow> map_opt f xs; Some (y # ys) }"

definition level_from_pb :: "pb_level \<Rightarrow> level option" where
  "level_from_pb p =
     do { ty \<leftarrow> level_type_try_from (pbl_type p);
          infos \<leftarrow> map_opt sst_from_pb (pbl_table_infos p);
          Some \<lparr>lvl_idx = pbl_idx p, lvl_type = ty, lvl_table_infos = infos,
            lvl_total_file_size = pbl_total_file_size p, lvl_sub_level_id = pbl_sub_level_id p,
            lvl_uncompressed_file_size = pbl_uncompressed_file_size p,
            lvl_vnode_partition_count = pbl_vnode_partition_count p\<rparr> }"

definition level_to_pb :: "level \<Rightarrow> pb_level option" where
  "level_to_pb l =
     do { infos \<leftarrow> map_opt sst_to_pb (lvl_table_infos l);
          Some \<lparr>pbl_idx = lvl_idx l, pbl_type = level_type_to_i32 (lvl_type l),
            pbl_table_infos = infos, pbl_total_file_size = lvl_total_file_size l,
            pbl_sub_level_id = lvl_sub_level_id l,
            pbl_uncompressed_file_size = lvl_uncompressed_file_size l,
            pbl_vnode_partition_count = lvl_vnode_partition_count l\<rparr> }"

definition overlapping_level_from_pb :: "pb_overlapping_level \<Rightarrow> overlapping_level option" where
  "overlapping_level_from_pb p =
     do { subs \<leftarrow> map_opt level_from_pb (pb0_sub_levels p);
          Some \<lparr>l0_sub_levels = subs, l0_total_file_size = pb0_total_file_size p,
            l0_uncompressed_file_size = pb0_uncompressed_file_size p\<rparr> }"

definition overlapping_level_to_pb :: "overlapping_level \<Rightarrow> pb_overlapping_level option" where
  "overlapping_level_to_pb l =
     do { subs \<leftarrow> map_opt level_to_pb (l0_sub_levels l);
          Some \<lparr>pb0_sub_levels = subs, pb0_total_file_size = l0_total_file_size l,
            pb0_uncompressed_file_size = l0_uncompressed_file_size l\<rparr> }"

definition levels_from_pb :: "pb_levels \<Rightarrow> levels option" where
  "levels_from_pb p =
     do { pl0 \<leftarrow> pbs_l0 p;
          l0 \<leftarrow> overlapping_level_from_pb pl0;
          ls \<leftarrow> map_opt level_from_pb (pbs_levels p);
          Some \<lparr>lvs_levels = ls, lvs_l0 = l0, lvs_group_id = pbs_group_id p,
            lvs_parent_group_id = pbs_parent_group_id p,
            lvs_member_table_ids = pbs_member_table_ids p\<rparr> }"

definition levels_to_pb :: "levels \<Rightarrow> pb_levels option" where
  "levels_to_pb l =
     do { l0 \<leftarrow> overlapping_level_to_pb (lvs_l0 l);
          ls \<leftarrow> map_opt level_to_pb (lvs_levels l);
          Some \<lparr>pbs_levels = ls, pbs_l0 = Some l0, pbs_group_id = lvs_group_id l,
            pbs_parent_group_id = lvs_parent_group_id l,
            pbs_member_table_ids = lvs_member_table_ids l\<rparr> }"

definition input_level_from_pb :: "pb_input_level \<Rightarrow> input_level option" where
  "input_level_from_pb p =
     do { ty \<leftarrow> level_type_try_from (pbi_type p);
          infos \<leftarrow> map_opt sst_from_pb (pbi_table_infos p);
          Some \<lparr>il_idx = pbi_idx p, il_type = ty, il_table_infos = infos\<rparr> }"

definition input_level_to_pb :: "input_level \<Rightarrow> pb_input_level option" where
  "input_level_to_pb l =
     do { infos \<leftarrow> map_opt sst_to_pb (il_table_infos l);
          Some \<lparr>pbi_idx = il_idx l, pbi_type = level_type_to_i32 (il_type l),
            pbi_table_infos = infos\<rparr> }"

text \<open>\<open>Levels::get_level\<close>: level indices start at 1, out-of-range indices panic.\<close>

definition get_level :: "levels \<Rightarrow> nat \<Rightarrow> level option" where
  "get_level l level_idx =
     (if 0 < level_idx \<and> level_idx - 1 < length (lvs_levels l)
      then Some (lvs_levels l ! (level_idx - 1)) else None)"

definition is_last_level :: "levels \<Rightarrow> u32 \<Rightarrow> bool" where
  "is_last_level l level_idx =
     (case rev (lvs_levels l) of [] \<Rightarrow> False | lst # _ \<Rightarrow> lvl_idx lst = level_idx)"

definition count_ssts :: "levels \<Rightarrow> nat" where
  "count_ssts l =
     sum_list (map (\<lambda>level. length (lvl_table_infos level)) (l0_sub_levels (lvs_l0 l) @ lvs_levels l))"

section \<open>Concatenation of SSTables\<close>

definition can_concat_pair :: "sstable_info \<Rightarrow> sstable_info \<Rightarrow> bool option" where
  "can_concat_pair a b =
     map_option (\<lambda>x. x = Less) (compare_right_with (sst_key_range a) (kr_left (sst_key_range b)))"

fun can_concat :: "sstable_info list \<Rightarrow> bool option" where
  "can_concat (a # b # rest) =
     do { ok \<leftarrow> can_concat_pair a b; if ok then can_concat (b # rest) else Some False }"
| "can_concat _ = Some True"

fun full_key_can_concat :: "sstable_info list \<Rightarrow> bool option" where
  "full_key_can_concat (a # b # rest) =
     do { ret \<leftarrow> compare_right_with (sst_key_range a) (kr_left (sst_key_range b));
          if kr_right_exclusive (sst_key_range a) then
            (if ret = Greater then Some False else full_key_can_concat (b # rest))
          else if ret \<noteq> Less then Some False
          else full_key_can_concat (b # rest) }"
| "full_key_can_concat _ = Some True"

section \<open>Sorting by key range\<close>

text \<open>
  \<open>sort_by(|a, b| a.key_range.cmp(&b.key_range))\<close>: a stable sort, written as insertion sort
  over the comparator that may panic.
\<close>

fun insert_by :: "('a \<Rightarrow> 'a \<Rightarrow> ordering option) \<Rightarrow> 'a \<Rightarrow> 'a list \<Rightarrow> 'a list option" where
  "insert_by c x [] = Some [x]"
| "insert_by c x (y # ys) =
     do { r \<leftarrow> c x y;
          if r \<noteq> Greater then Some (x # y # ys)
          else do { zs \<leftarrow> insert_by c x ys; Some (y # zs) } }"

fun sort_by :: "('a \<Rightarrow> 'a \<Rightarrow> ordering option) \<Rightarrow> 'a list \<Rightarrow> 'a list option" where
  "sort_by c [] = Some []"
| "sort_by c (x # xs) = do { ys \<leftarrow> sort_by c xs; insert_by c x ys }"

definition sst_key_range_cmp :: "sstable_info \<Rightarrow> sstable_info \<Rightarrow> ordering option" where
  "sst_key_range_cmp a b = key_range_cmp (sst_key_range a) (sst_key_range b)"

definition sort_ssts :: "sstable_info list \<Rightarrow> sstable_info list option" where
  "sort_ssts = sort_by sst_key_range_cmp"

text \<open>The order key of a key range: an infinite left bound is least, an infinite right bound greatest.\<close>

definition kr_order_key :: "key_range \<Rightarrow> full_key option \<times> bool \<times> full_key option" where
  "kr_order_key r = (fk_decode (kr_left r), kr_right r = [], fk_decode (kr_right r))"

section \<open>The order of key ranges is total\<close>

lemma fk_decode_inject:
  assumes "fk_decode a = Some k" and "fk_decode b = Some k"
  shows "a = b"
  using fk_encode_decode [OF assms(1)] fk_encode_decode [OF assms(2)] by simp

lemma then_with_if: "then_with a b = (if a \<noteq> Equal then a else b)"
  by (cases a) simp_all

lemma cmp_Pair: "cmp (a, b) (c, d) = then_with (cmp a c) (cmp b d)"
  by (cases "a = c") (auto simp: cmp_def)

lemma cmp_Some [simp]: "cmp (Some a) (Some b) = cmp a b"
  by (simp add: cmp_def)

lemma cmp_None_left: "cmp None x = (if x = None then Equal else Less)"
  by (cases x) (simp_all add: cmp_def)

lemma cmp_None_right: "cmp x None = (if x = None then Equal else Greater)"
  by (cases x) (simp_all add: cmp_def)

lemma cmp_bool: "cmp a b = (if a = b then Equal else if a then Greater else Less)"
  by (cases a; cases b) (simp_all add: cmp_def)

lemma left_bound_cmp:
  assumes "kr_wf a" and "kr_wf b"
  shows "(if start_bound_inf a \<and> start_bound_inf b then Some Equal
             else if \<not> start_bound_inf a \<and> \<not> start_bound_inf b then
               compare_encoded_full_key (kr_left a) (kr_left b)
             else if kr_left a = [] then Some Less
             else Some Greater) = Some (cmp (fk_decode (kr_left a)) (fk_decode (kr_left b)))"
  using assms
  by (cases "kr_left a = []"; cases "kr_left b = []")
    (auto simp: kr_wf_def start_bound_inf_def cmp_None_left cmp_None_right cmp_Pair cmp_bool
      compare_encoded_full_key_decode)

lemma right_bound_cmp:
  assumes "kr_wf a" and "kr_wf b"
  shows "(if end_bound_inf a \<and> end_bound_inf b then Some Equal
          else if \<not> end_bound_inf a \<and> \<not> end_bound_inf b then
            compare_encoded_full_key (kr_right a) (kr_right b)
          else if end_bound_inf a then Some Greater
          else Some Less)
    = Some (cmp (kr_right a = [], fk_decode (kr_right a)) (kr_right b = [], fk_decode (kr_right b)))"
  using assms
  by (cases "kr_right a = []"; cases "kr_right b = []")
    (auto simp: kr_wf_def end_bound_inf_def cmp_None_left cmp_None_right cmp_Pair cmp_bool
      compare_encoded_full_key_decode)

lemma key_range_cmp_order_key:
  assumes "kr_wf a" and "kr_wf b"
  shows "key_range_cmp a b = Some (cmp (kr_order_key a) (kr_order_key b))"
proof -
  have "key_range_cmp a b = (let ret = cmp (fk_decode (kr_left a)) (fk_decode (kr_left b)) in
      if ret \<noteq> Equal then Some ret
      else Some (cmp (kr_right a = [], fk_decode (kr_right a)) (kr_right b = [], fk_decode (kr_right b))))"
    unfolding key_range_cmp_def left_bound_cmp [OF assms] right_bound_cmp [OF assms] bind.bind_lunit
      Let_def by (rule refl)
  then show ?thesis
    unfolding kr_order_key_def cmp_Pair [of "fk_decode (kr_left a)"]
      then_with_if by (auto simp only: Let_def split: if_splits)
qed

lemma insert_by_insort:
  assumes "\<forall>y \<in> set ys. c x y = Some (cmp (f x) (f y))"
  shows "insert_by c x ys = Some (insort_key f x ys)"
  using assms by (induction ys) (auto simp: cmp_def)

lemma sort_by_sort_key:
  assumes "\<forall>x \<in> set xs. \<forall>y \<in> set xs. c x y = Some (cmp (f x) (f y))"
  shows "sort_by c xs = Some (sort_key f xs)"
  using assms by (induction xs) (auto simp: insert_by_insort)

lemma sort_ssts_sorted:
  assumes "\<forall>s \<in> set ssts. kr_wf (sst_key_range s)"
  shows "sort_ssts ssts = Some (sort_key (\<lambda>s. kr_order_key (sst_key_range s)) ssts)"
  unfolding sort_ssts_def
  by (rule sort_by_sort_key) (use assms in \<open>simp add: sst_key_range_cmp_def key_range_cmp_order_key\<close>)

section \<open>Protobuf round trips\<close>

lemma map_opt_eq_Some: "map_opt f xs = Some ys \<longleftrightarrow> list_all2 (\<lambda>x y. f x = Some y) xs ys"
proof (induction xs arbitrary: ys)
  case (Cons x xs)
  show ?case using Cons [of "tl ys"] by (cases ys; cases "f x"; cases "map_opt f xs") auto
qed auto

lemma map_opt_round_trip:
  assumes "map_opt f xs = Some ys" and "\<And>x y. f x = Some y \<Longrightarrow> x \<in> set xs \<Longrightarrow> g y = Some (h x)"
  shows "map_opt g ys = Some (map h xs)"
  using assms by (induction xs arbitrary: ys) (auto split: Option.bind_splits)

lemma map_opt_None: "map_opt f xs = None \<longleftrightarrow> (\<exists>x \<in> set xs. f x = None)"
  by (induction xs) (auto split: Option.bind_splits)

lemma bloom_filter_round_trip [simp]: "bloom_filter_try_from (bloom_filter_to_i32 k) = Some k"
  by (cases k) (simp_all add: bloom_filter_try_from_def)

lemma level_type_round_trip [simp]: "level_type_try_from (level_type_to_i32 k) = Some k"
  by (cases k) (simp_all add: level_type_try_from_def)

text \<open>What the protobuf form keeps: an infinite range loses its \<open>right_exclusive\<close> flag.\<close>

definition sst_canon :: "sstable_info \<Rightarrow> sstable_info" where
  "sst_canon s = (if inf_key_range (sst_key_range s) then s\<lparr>sst_key_range := kr_inf\<rparr> else s)"

definition level_canon :: "level \<Rightarrow> level" where
  "level_canon l = l\<lparr>lvl_table_infos := map sst_canon (lvl_table_infos l)\<rparr>"

definition levels_canon :: "levels \<Rightarrow> levels" where
  "levels_canon l = l\<lparr>lvs_levels := map level_canon (lvs_levels l),
     lvs_l0 := (lvs_l0 l)\<lparr>l0_sub_levels := map level_canon (l0_sub_levels (lvs_l0 l))\<rparr>\<rparr>"

lemma sst_to_pb_Some:
  assumes "sst_to_pb s = Some p"
  shows "sst_size s \<noteq> 0" and "sorted (sst_table_ids s)"
  using assms by (auto simp: sst_to_pb_def split: if_splits)

lemma sst_pb_round_trip:
  assumes "sst_to_pb s = Some p"
  shows "sst_from_pb p = Some (sst_canon s)"
proof (cases s)
  case (fields oid sid r fsz tids mo sk tk mi ma us rt bf sz)
  note z = sst_to_pb_Some [OF assms]
  have p: "p = the (sst_to_pb s)" by (simp add: assms)
  have "sst_from_pb (the (sst_to_pb s)) = Some (sst_canon s)"
  proof (cases r)
    case r: (fields l e x)
    have g: "\<not> \<not> 0 < sz" "\<not> \<not> sorted tids" "sz \<noteq> 0"
      using z unfolding fields by (simp_all add: word_gt_0)
    show ?thesis
      unfolding fields r sst_to_pb_def sst_from_pb_def sst_canon_def using g
      by (simp add: kr_inf_def)
  qed
  then show ?thesis unfolding p .
qed

lemma level_pb_round_trip: "level_to_pb l = Some p \<Longrightarrow> level_from_pb p = Some (level_canon l)"
  by (auto simp: level_to_pb_def level_from_pb_def level_canon_def
      dest: map_opt_round_trip [OF _ sst_pb_round_trip] split: Option.bind_splits)

lemma map_level_pb_round_trip:
  "map_opt level_to_pb ls = Some ps \<Longrightarrow> map_opt level_from_pb ps = Some (map level_canon ls)"
  using map_opt_round_trip [of level_to_pb ls ps level_from_pb level_canon] level_pb_round_trip
  by blast

lemma overlapping_level_pb_round_trip:
  assumes "overlapping_level_to_pb l = Some p"
  shows "overlapping_level_from_pb p = Some (l\<lparr>l0_sub_levels := map level_canon (l0_sub_levels l)\<rparr>)"
proof -
  obtain ps where ps: "map_opt level_to_pb (l0_sub_levels l) = Some ps"
    "p = \<lparr>pb0_sub_levels = ps, pb0_total_file_size = l0_total_file_size l,
            pb0_uncompressed_file_size = l0_uncompressed_file_size l\<rparr>"
    using assms unfolding overlapping_level_to_pb_def
    by (cases "map_opt level_to_pb (l0_sub_levels l)") simp_all
  show ?thesis unfolding ps(2) overlapping_level_from_pb_def
    by (simp add: map_level_pb_round_trip [OF ps(1)])
qed

lemma levels_pb_round_trip:
  assumes "levels_to_pb l = Some p"
  shows "levels_from_pb p = Some (levels_canon l)"
proof -
  obtain p0 where p0: "overlapping_level_to_pb (lvs_l0 l) = Some p0"
    using assms unfolding levels_to_pb_def
    by (cases "overlapping_level_to_pb (lvs_l0 l)") simp_all
  obtain ps where ps: "map_opt level_to_pb (lvs_levels l) = Some ps"
    using assms p0 unfolding levels_to_pb_def
    by (cases "map_opt level_to_pb (lvs_levels l)") simp_all
  have p: "p = \<lparr>pbs_levels = ps, pbs_l0 = Some p0, pbs_group_id = lvs_group_id l,
            pbs_parent_group_id = lvs_parent_group_id l,
            pbs_member_table_ids = lvs_member_table_ids l\<rparr>"
    using assms p0 ps by (simp add: levels_to_pb_def)
  show ?thesis unfolding p levels_from_pb_def levels_canon_def
    by (simp add: map_level_pb_round_trip [OF ps] overlapping_level_pb_round_trip [OF p0])
qed

lemma sst_to_pb_None: "sst_to_pb s = None \<longleftrightarrow> sst_size s = 0 \<or> \<not> sorted (sst_table_ids s)"
  by (auto simp: sst_to_pb_def word_gt_0)

lemma levels_to_pb_None:
  "levels_to_pb l = None \<longleftrightarrow>
     (\<exists>lv \<in> set (l0_sub_levels (lvs_l0 l) @ lvs_levels l). \<exists>s \<in> set (lvl_table_infos lv).
        sst_size s = 0 \<or> \<not> sorted (sst_table_ids s))"
proof -
  have lv: "level_to_pb v = None \<longleftrightarrow> (\<exists>s \<in> set (lvl_table_infos v). sst_size s = 0 \<or> \<not> sorted (sst_table_ids s))" for v
    by (auto simp: level_to_pb_def map_opt_None sst_to_pb_None split: Option.bind_splits)
      (metis map_opt_None option.distinct(1) sst_to_pb_None)+
  have "levels_to_pb l = None \<longleftrightarrow> map_opt level_to_pb (l0_sub_levels (lvs_l0 l)) = None
      \<or> map_opt level_to_pb (lvs_levels l) = None"
    by (auto simp: levels_to_pb_def overlapping_level_to_pb_def split: Option.bind_splits)
  then show ?thesis unfolding map_opt_None lv by auto
qed

section \<open>Concatenated levels\<close>

text \<open>
  A table whose key range is finite, well formed and not empty, with a right bound in the form its
  writers give it.
\<close>

definition sst_ok :: "sstable_info \<Rightarrow> bool" where
  "sst_ok s = (let r = sst_key_range s in
     kr_wf r \<and> kr_left r \<noteq> [] \<and> kr_right r \<noteq> [] \<and> kr_right_normal r \<and> kr_contains r (kr_low r))"

abbreviation sst_before :: "sstable_info \<Rightarrow> sstable_info \<Rightarrow> bool" where
  "sst_before a b \<equiv> \<not> right_reaches (sst_key_range a) (sst_key_range b)"

definition level_ok :: "sstable_info list \<Rightarrow> bool" where
  "level_ok ssts = ((\<forall>s \<in> set ssts. sst_ok s) \<and> can_concat ssts = Some True)"

lemma right_reaches_trans:
  assumes "kr_wf b" "kr_contains b (kr_low b)" "\<not> right_reaches a b" "\<not> right_reaches b c"
    and "kr_wf a" "kr_wf c"
  shows "\<not> right_reaches a c"
proof
  assume ac: "right_reaches a c"
  have n: "kr_right a \<noteq> []" "kr_left b \<noteq> []" "kr_right b \<noteq> []" "kr_left c \<noteq> []"
    using assms(3,4) by (auto simp: right_reaches_def)
  then obtain ra lb rb lc where d: "fk_decode (kr_right a) = Some ra" "fk_decode (kr_left b) = Some lb"
    "fk_decode (kr_right b) = Some rb" "fk_decode (kr_left c) = Some lc"
    using assms(1,5,6) by (auto simp: kr_wf_def)
  have "fk_user_key ra \<le> fk_user_key lb" using assms(3) n d by (auto simp: right_reaches_def split: if_splits)
  moreover have "fk_user_key lb \<le> fk_user_key rb"
    using assms(2) n d by (auto simp: kr_contains_def below_right_def kr_low_def split: if_splits)
  moreover have "fk_user_key rb \<le> fk_user_key lc" using assms(4) n d by (auto simp: right_reaches_def split: if_splits)
  ultimately have le: "fk_user_key ra \<le> fk_user_key lc" and mid: "fk_user_key lb \<le> fk_user_key rb" by auto
  have "kr_right_exclusive b \<Longrightarrow> fk_user_key lb < fk_user_key rb"
    using assms(2) n d by (auto simp: kr_contains_def below_right_def kr_low_def split: if_splits)
  moreover have "\<not> kr_right_exclusive b \<Longrightarrow> fk_user_key rb < fk_user_key lc"
    using assms(4) n d by (auto simp: right_reaches_def)
  moreover have "fk_user_key rb \<le> fk_user_key lc"
    using assms(4) n d by (auto simp: right_reaches_def split: if_splits)
  ultimately have "fk_user_key lb < fk_user_key lc"
    using mid by (cases "kr_right_exclusive b") auto
  then have "fk_user_key ra < fk_user_key lc" using \<open>fk_user_key ra \<le> fk_user_key lb\<close> by simp
  with ac n d show False by (auto simp: right_reaches_def split: if_splits)
qed

lemma sst_before_trans:
  assumes "sst_ok a" "sst_ok b" "sst_ok c" "sst_before a b" "sst_before b c"
  shows "sst_before a c"
  using right_reaches_trans [of "sst_key_range b" "sst_key_range a" "sst_key_range c"] assms
  by (simp add: sst_ok_def Let_def)

lemma can_concat_pair_before:
  assumes "sst_ok a" and "sst_ok b"
  shows "can_concat_pair a b = Some (sst_before a b)"
proof -
  obtain z where "compare_right_with (sst_key_range a) (kr_left (sst_key_range b)) = Some z"
    "(z \<noteq> Less) = right_reaches (sst_key_range a) (sst_key_range b)"
    using right_reaches_test [of "sst_key_range a" "sst_key_range b"] assms
    by (auto simp: sst_ok_def Let_def end_bound_inf_def start_bound_inf_def)
  then show ?thesis by (auto simp: can_concat_pair_def)
qed

lemma can_concat_before:
  assumes "\<forall>s \<in> set ssts. sst_ok s"
  shows "can_concat ssts = Some (sorted_wrt sst_before ssts)"
  using assms
proof (induction ssts rule: can_concat.induct)
  case (1 a b rest)
  have "sst_before a s" if "sst_before a b" "sorted_wrt sst_before (b # rest)" "s \<in> set rest" for s
    using that 1(2) sst_before_trans [of a b s] by simp
  with 1 show ?case by (auto simp: can_concat_pair_before)
qed simp_all

lemma level_ok_iff: "level_ok ssts \<longleftrightarrow> (\<forall>s \<in> set ssts. sst_ok s) \<and> sorted_wrt sst_before ssts"
  unfolding level_ok_def using can_concat_before by auto

section \<open>Properties of levels\<close>

lemma full_key_can_concat_step:
  "compare_right_with r x = Some Equal \<Longrightarrow> \<not> kr_right_exclusive r"
  by (auto simp: compare_right_with_def compare_right_with_user_key_def Let_def
      split: Option.bind_splits if_splits)

lemma full_key_can_concat_eq: "full_key_can_concat ssts = can_concat ssts"
proof (induction ssts rule: can_concat.induct)
  case (1 a b rest)
  obtain z where z: "z = compare_right_with (sst_key_range a) (kr_left (sst_key_range b))" by simp
  show ?case
  proof (cases z)
    case (Some o1)
    then show ?thesis
      using 1 z full_key_can_concat_step [of "sst_key_range a" "kr_left (sst_key_range b)"]
      by (cases o1) (auto simp: can_concat_pair_def)
  qed (use z in \<open>simp add: can_concat_pair_def\<close>)
qed simp_all

lemma sst_before_keys:
  assumes "sst_ok a" and "sst_ok b"
  shows "sst_before a b \<longleftrightarrow>
    (\<forall>j k. kr_contains (sst_key_range a) j \<longrightarrow> kr_contains (sst_key_range b) k \<longrightarrow> j < k)"
proof
  assume before: "sst_before a b"
  show "\<forall>j k. kr_contains (sst_key_range a) j \<longrightarrow> kr_contains (sst_key_range b) k \<longrightarrow> j < k"
  proof (intro allI impI, rule ccontr)
    fix j k assume jk: "kr_contains (sst_key_range a) j" "kr_contains (sst_key_range b) k" "\<not> j < k"
    then have "kr_contains (sst_key_range b) (kr_low (sst_key_range b))" "kr_low (sst_key_range b) \<le> j"
      using assms by (auto simp: sst_ok_def Let_def kr_contains_def above_left_iff)
    moreover from this jk(1) have "below_right (sst_key_range a) (kr_low (sst_key_range b))"
      by (auto simp: kr_contains_def intro: below_right_mono)
    then have "right_reaches (sst_key_range a) (sst_key_range b)"
      using assms by (auto simp: sst_ok_def Let_def below_right_def right_reaches_def kr_low_def kr_wf_def split: if_splits)
    with before show False by simp
  qed
next
  assume all: "\<forall>j k. kr_contains (sst_key_range a) j \<longrightarrow> kr_contains (sst_key_range b) k \<longrightarrow> j < k"
  have low: "kr_contains (sst_key_range a) (kr_low (sst_key_range a))"
    "kr_contains (sst_key_range b) (kr_low (sst_key_range b))"
    using assms by (auto simp: sst_ok_def Let_def)
  with all have "kr_low (sst_key_range a) < kr_low (sst_key_range b)" by blast
  show "sst_before a b"
  proof
    assume "right_reaches (sst_key_range a) (sst_key_range b)"
    then have "kr_contains (sst_key_range a) (kr_low (sst_key_range b))"
      using right_reaches_contains [of "sst_key_range a" "sst_key_range b"] assms low
        \<open>kr_low (sst_key_range a) < kr_low (sst_key_range b)\<close> by (simp add: sst_ok_def Let_def)
    with all low(2) show False by blast
  qed
qed

text \<open>An SSTable from its ids and the first and last user key, for concrete instances.\<close>

definition sst_of :: "u64 \<Rightarrow> u32 list \<Rightarrow> user_key \<Rightarrow> user_key \<Rightarrow> sstable_info" where
  "sst_of i tids lo hi =
     \<lparr>sst_object_id = i, sst_id = i,
      sst_key_range = kr_new (fk_encode (FullKey lo 65536)) (fk_encode (FullKey hi 65536)),
      sst_file_size = 100, sst_table_ids = tids, sst_meta_offset = 0, sst_stale_key_count = 0,
      sst_total_key_count = 2, sst_min_epoch = 65536, sst_max_epoch = 65536,
      sst_uncompressed_file_size = 200, sst_range_tombstone_count = 0,
      sst_bloom_filter_kind = Sstable, sst_size = 100\<rparr>"

lemma sst_of_simps [simp]:
  "sst_id (sst_of i t lo hi) = i" "sst_object_id (sst_of i t lo hi) = i"
  "sst_table_ids (sst_of i t lo hi) = t" "sst_size (sst_of i t lo hi) = 100"
  "sst_uncompressed_file_size (sst_of i t lo hi) = 200"
  "sst_key_range (sst_of i t lo hi) = kr_new (fk_encode (FullKey lo 65536)) (fk_encode (FullKey hi 65536))"
  by (simp_all add: sst_of_def)

lemma fk_encode_not_Nil [simp]: "fk_encode k \<noteq> []"
  using fk_decode_encode [of k] by (metis fk_decode_Nil option.distinct(1))

lemma sst_of_ok [simp]: "sst_ok (sst_of i t lo hi) \<longleftrightarrow> lo \<le> hi"
  by (auto simp: sst_ok_def Let_def kr_new_def kr_wf_def kr_right_normal_def kr_contains_def
      above_left_def below_right_def kr_low_def)

lemma sst_of_before [simp]: "right_reaches (sst_key_range (sst_of i t lo hi)) (sst_key_range (sst_of i' t' lo' hi'))
    \<longleftrightarrow> lo' \<le> hi"
  by (simp add: right_reaches_def kr_new_def)

text \<open>
  C13. On tables with well-formed non-empty key ranges \<open>can_concat\<close> does not panic and holds
  exactly when every key of an earlier table is below every key of a later one;
  \<open>full_key_can_concat\<close> computes the same on every list of tables.
\<close>

theorem can_concat_exact:
  assumes "\<forall>s \<in> set ssts. sst_ok s"
  shows "can_concat ssts = Some (sorted_wrt (\<lambda>a b. \<forall>j k. kr_contains (sst_key_range a) j \<longrightarrow>
      kr_contains (sst_key_range b) k \<longrightarrow> j < k) ssts)
    \<and> full_key_can_concat ssts = can_concat ssts"
proof -
  have "sorted_wrt sst_before ssts = sorted_wrt (\<lambda>a b. \<forall>j k. kr_contains (sst_key_range a) j \<longrightarrow>
      kr_contains (sst_key_range b) k \<longrightarrow> j < k) ssts"
    using assms by (induction ssts) (auto simp: sst_before_keys)
  then show ?thesis using can_concat_before [OF assms] full_key_can_concat_eq by simp
qed

theorem can_concat_exact_witness:
  "full_key_can_concat [sst_of 1 [1] (UserKey 1 [1]) (UserKey 1 [5]), sst_of 2 [1] (UserKey 1 [6]) (UserKey 1 [9])]
     = Some True"
proof -
  let ?l = "[sst_of 1 [1] (UserKey 1 [1]) (UserKey 1 [5]), sst_of 2 [1] (UserKey 1 [6]) (UserKey 1 [9])]"
  have ok: "\<forall>s \<in> set ?l. sst_ok s" by (simp add: less_eq_user_key_def)
  have "can_concat ?l = Some True"
    unfolding can_concat_before [OF ok] by (simp add: less_eq_user_key_def del: sst_of_simps)
  then show ?thesis using can_concat_exact [OF ok] by simp
qed

text \<open>
  Writing the levels of a compaction group to protobuf panics exactly when some table has
  size 0 or unsorted table ids; otherwise reading the message back gives the same levels, up
  to the exclusive flag of infinite key ranges, which the message does not carry.
\<close>

lemma levels_protobuf_round_trip:
  "Option.bind (levels_to_pb l) levels_from_pb =
     (if list_all (\<lambda>lv. list_all (\<lambda>s. sst_size s \<noteq> 0 \<and> sorted (sst_table_ids s)) (lvl_table_infos lv))
          (l0_sub_levels (lvs_l0 l) @ lvs_levels l)
      then Some (levels_canon l) else None)"
  using levels_to_pb_None [of l] levels_pb_round_trip [of l]
  by (cases "levels_to_pb l") (auto simp: list_all_iff)

text \<open>
  Sorting tables by key range gives a permutation of the tables, in the order of the key
  ranges, and keeps the relative order of tables with equal ranges.
\<close>

lemma sort_ssts_stable:
  assumes "\<forall>s \<in> set ssts. kr_wf (sst_key_range s)"
  shows "\<exists>out. sort_ssts ssts = Some out \<and> mset out = mset ssts
    \<and> sorted (map (\<lambda>s. kr_order_key (sst_key_range s)) out)
    \<and> (\<forall>key. filter (\<lambda>s. kr_order_key (sst_key_range s) = key) out
          = filter (\<lambda>s. kr_order_key (sst_key_range s) = key) ssts)"
  using sort_ssts_sorted [OF assms] sort_key_stable [of "\<lambda>s. kr_order_key (sst_key_range s)"]
  by (auto simp: eq_commute)

end
