(* ===== verification/Overlap.thy ===== *)
theory Overlap
  imports Sst_Level
begin

text \<open>
  The overlap strategy of compaction, from \<^verbatim>\<open>meta/src/hummock/compaction/overlap_strategy.rs\<close>.
  The trait \<open>OverlapInfo\<close> is a record of its methods over a state type; the trait's default
  methods take that record, as a \<open>dyn\<close> call does. The locale \<open>overlap_info_laws\<close> states what
  the default methods rely on and is interpreted on \<open>RangeOverlapInfo\<close>.
\<close>

section \<open>The traits\<close>

record 'i overlap_info =
  oi_default :: 'i
  oi_check_overlap :: "'i \<Rightarrow> sstable_info \<Rightarrow> bool option"
  oi_check_multiple_overlap :: "'i \<Rightarrow> sstable_info list \<Rightarrow> (nat \<times> nat) option"
  oi_check_multiple_include :: "'i \<Rightarrow> sstable_info list \<Rightarrow> (nat \<times> nat) option"
  oi_update :: "'i \<Rightarrow> sstable_info \<Rightarrow> 'i option"

fun update_all :: "'i overlap_info \<Rightarrow> 'i \<Rightarrow> sstable_info list \<Rightarrow> 'i option" where
  "update_all oi info [] = Some info"
| "update_all oi info (table # tables) =
     do { info' \<leftarrow> oi_update oi info table; update_all oi info' tables }"

definition check_base_level_overlap ::
    "'i overlap_info \<Rightarrow> sstable_info list \<Rightarrow> sstable_info list \<Rightarrow> sstable_info list option" where
  "check_base_level_overlap oi tables others =
     do { info \<leftarrow> update_all oi (oi_default oi) tables;
          (b, e) \<leftarrow> oi_check_multiple_overlap oi info others;
          if e \<le> b then Some [] else slice_range others b e }"

fun filter_opt :: "('a \<Rightarrow> bool option) \<Rightarrow> 'a list \<Rightarrow> 'a list option" where
  "filter_opt p [] = Some []"
| "filter_opt p (x # xs) =
     do { b \<leftarrow> p x; ys \<leftarrow> filter_opt p xs; Some (if b then x # ys else ys) }"

definition check_overlap_with_tables ::
    "'i overlap_info \<Rightarrow> sstable_info list \<Rightarrow> sstable_info list \<Rightarrow> sstable_info list option" where
  "check_overlap_with_tables oi tables others =
     (if tables = [] \<or> others = [] then Some []
      else do { info \<leftarrow> update_all oi (oi_default oi) tables;
                filter_opt (oi_check_overlap oi info) others })"

section \<open>Overlap by key range\<close>

type_synonym range_overlap_info = "key_range option"

definition check_table_overlap :: "key_range \<Rightarrow> sstable_info \<Rightarrow> bool option" where
  "check_table_overlap r table = sstable_overlap r (sst_key_range table)"

definition roi_check_overlap :: "range_overlap_info \<Rightarrow> sstable_info \<Rightarrow> bool option" where
  "roi_check_overlap info a =
     (case info of Some r \<Rightarrow> check_table_overlap r a | None \<Rightarrow> Some False)"

definition roi_check_multiple_overlap ::
    "range_overlap_info \<Rightarrow> sstable_info list \<Rightarrow> (nat \<times> nat) option" where
  "roi_check_multiple_overlap info others =
     (case info of
        Some r \<Rightarrow>
          do { b \<leftarrow> partition_point_opt
                 (\<lambda>t. map_option (\<lambda>x. x = Less)
                    (compare_right_with (sst_key_range t) (kr_left r))) others;
               if b \<ge> length others then Some (b, b)
               else do { e \<leftarrow> partition_point_opt
                   (\<lambda>t. map_option (\<lambda>x. x \<noteq> Less)
                      (compare_right_with r (kr_left (sst_key_range t)))) others;
                 Some (b, e) } }
      | None \<Rightarrow> Some (length others, length others))"

fun include_end :: "key_range \<Rightarrow> nat \<Rightarrow> sstable_info list \<Rightarrow> nat option" where
  "include_end r e [] = Some e"
| "include_end r e (t # ts) =
     do { x \<leftarrow> compare_right_with r (kr_right (sst_key_range t));
          if x = Less then Some e else include_end r (e + 1) ts }"

definition roi_check_multiple_include ::
    "range_overlap_info \<Rightarrow> sstable_info list \<Rightarrow> (nat \<times> nat) option" where
  "roi_check_multiple_include info others =
     (case info of
        Some r \<Rightarrow>
          do { b \<leftarrow> partition_point_opt
                 (\<lambda>t. map_option (\<lambda>x. x = Less)
                    (compare_encoded_full_key (kr_left (sst_key_range t)) (kr_left r))) others;
               if b \<ge> length others then Some (b, b)
               else do { e \<leftarrow> include_end r b (drop b others); Some (b, e) } }
      | None \<Rightarrow> Some (length others, length others))"

definition roi_update :: "range_overlap_info \<Rightarrow> sstable_info \<Rightarrow> range_overlap_info option" where
  "roi_update info table =
     (case info of
        Some r \<Rightarrow> do { r' \<leftarrow> full_key_extend r (sst_key_range table); Some (Some r') }
      | None \<Rightarrow> Some (Some (sst_key_range table)))"

definition range_overlap_info :: "key_range option overlap_info" where
  "range_overlap_info =
     \<lparr>oi_default = None, oi_check_overlap = roi_check_overlap,
      oi_check_multiple_overlap = roi_check_multiple_overlap,
      oi_check_multiple_include = roi_check_multiple_include, oi_update = roi_update\<rparr>"

definition ros_check_overlap :: "sstable_info \<Rightarrow> sstable_info \<Rightarrow> bool option" where
  "ros_check_overlap a b = check_table_overlap (sst_key_range a) b"

section \<open>What the default methods rely on\<close>

text \<open>
  \<open>hulls info ts\<close> reads: \<open>info\<close> is the state after the updates with \<open>ts\<close>. The laws say that
  updates with tables in order succeed, that the overlap test is total on tables in order and
  that on a concatenated level the range returned by \<open>check_multiple_overlap\<close> is the one the
  overlap test selects.
\<close>

locale overlap_info_laws =
  fixes oi :: "'i overlap_info" and hulls :: "'i \<Rightarrow> sstable_info list \<Rightarrow> bool"
  assumes hulls_default: "hulls (oi_default oi) []"
    and hulls_update: "hulls i ts \<Longrightarrow> sst_ok s \<Longrightarrow> \<exists>i'. oi_update oi i s = Some i' \<and> hulls i' (ts @ [s])"
    and check_total: "hulls i ts \<Longrightarrow> sst_ok s \<Longrightarrow> oi_check_overlap oi i s \<noteq> None"
    and multiple: "hulls i ts \<Longrightarrow> level_ok others \<Longrightarrow>
       \<exists>b e. oi_check_multiple_overlap oi i others = Some (b, e) \<and> e \<le> length others \<and>
         (if e \<le> b then [] else drop b (take e others))
           = filter (\<lambda>s. oi_check_overlap oi i s = Some True) others"
begin

lemma update_all_hulls:
  assumes "hulls i ts" and "\<forall>s \<in> set us. sst_ok s"
  shows "\<exists>i'. update_all oi i us = Some i' \<and> hulls i' (ts @ us)"
  using assms
proof (induction us arbitrary: i ts)
  case (Cons u us)
  then obtain i' where i': "oi_update oi i u = Some i'" "hulls i' (ts @ [u])"
    using hulls_update [of i ts u] by auto
  from Cons.IH [OF this(2)] Cons.prems(2) i'(1) show ?case by auto
qed simp

lemma filter_opt_total:
  assumes "\<forall>x \<in> set xs. p x \<noteq> None"
  shows "filter_opt p xs = Some (filter (\<lambda>x. p x = Some True) xs)"
  using assms by (induction xs) auto

lemma base_level_overlap_filter:
  assumes "\<forall>s \<in> set tables. sst_ok s" and "level_ok others"
  obtains info where "update_all oi (oi_default oi) tables = Some info" and "hulls info tables"
    and "check_base_level_overlap oi tables others
           = Some (filter (\<lambda>s. oi_check_overlap oi info s = Some True) others)"
proof -
  obtain info where info: "update_all oi (oi_default oi) tables = Some info" "hulls info tables"
    using update_all_hulls [OF hulls_default assms(1)] by auto
  obtain b e where be: "oi_check_multiple_overlap oi info others = Some (b, e)" "e \<le> length others"
    "(if e \<le> b then [] else drop b (take e others))
       = filter (\<lambda>s. oi_check_overlap oi info s = Some True) others"
    using multiple [OF info(2) assms(2)] by auto
  have "check_base_level_overlap oi tables others
      = Some (if e \<le> b then [] else drop b (take e others))"
    using info(1) be(1,2) by (simp add: check_base_level_overlap_def slice_range_def)
  with be(3) info that show thesis by metis
qed

lemma base_level_agrees_with_scan:
  assumes "\<forall>s \<in> set tables. sst_ok s" and "level_ok others" and "tables \<noteq> []"
  shows "check_base_level_overlap oi tables others = check_overlap_with_tables oi tables others"
proof -
  obtain info where info: "update_all oi (oi_default oi) tables = Some info" "hulls info tables"
    "check_base_level_overlap oi tables others
       = Some (filter (\<lambda>s. oi_check_overlap oi info s = Some True) others)"
    using base_level_overlap_filter [OF assms(1,2)] by metis
  have "\<forall>s \<in> set others. oi_check_overlap oi info s \<noteq> None"
    using check_total [OF info(2)] assms(2) by (auto simp: level_ok_def)
  then have "filter_opt (oi_check_overlap oi info) others
      = Some (filter (\<lambda>s. oi_check_overlap oi info s = Some True) others)"
    by (rule filter_opt_total)
  with info assms(3) show ?thesis by (simp add: check_overlap_with_tables_def)
qed

end

section \<open>Range overlap satisfies the laws\<close>

text \<open>The range after the updates: the hull of the tables' ranges.\<close>

definition hull_of :: "key_range option \<Rightarrow> sstable_info list \<Rightarrow> bool" where
  "hull_of info ts =
     (case info of
        None \<Rightarrow> ts = []
      | Some r \<Rightarrow> ts \<noteq> [] \<and> kr_wf r \<and> kr_right_normal r \<and> kr_left r \<noteq> [] \<and> kr_right r \<noteq> [] \<and>
          (\<forall>k. above_left r k \<longleftrightarrow> (\<exists>t \<in> set ts. above_left (sst_key_range t) k)) \<and>
          (\<forall>k. below_right r k \<longleftrightarrow> (\<exists>t \<in> set ts. below_right (sst_key_range t) k)) \<and>
          kr_contains r (kr_low r))"

lemma sst_okD:
  assumes "sst_ok s"
  shows "kr_wf (sst_key_range s)" "kr_left (sst_key_range s) \<noteq> []" "kr_right (sst_key_range s) \<noteq> []"
    "kr_right_normal (sst_key_range s)" "kr_contains (sst_key_range s) (kr_low (sst_key_range s))"
  using assms by (simp_all add: sst_ok_def Let_def)

lemma hull_of_update:
  assumes "hull_of i ts" and "sst_ok s"
  shows "\<exists>i'. roi_update i s = Some i' \<and> hull_of i' (ts @ [s])"
proof (cases i)
  case None
  with assms show ?thesis by (auto simp: roi_update_def hull_of_def sst_okD)
next
  case (Some r)
  then have r: "kr_wf r" "kr_right_normal r" "kr_contains r (kr_low r)" "kr_left r \<noteq> []" "kr_right r \<noteq> []"
    using assms(1) by (auto simp: hull_of_def)
  note s = sst_okD [OF assms(2)]
  obtain c where c: "full_key_extend r (sst_key_range s) = Some c" "kr_wf c" "kr_right_normal c"
    "kr_left c \<in> {kr_left r, kr_left (sst_key_range s)}" "kr_right c \<in> {kr_right r, kr_right (sst_key_range s)}"
    "\<And>k. above_left c k \<longleftrightarrow> above_left r k \<or> above_left (sst_key_range s) k"
    "\<And>k. below_right c k \<longleftrightarrow> below_right r k \<or> below_right (sst_key_range s) k"
    using full_key_extend_hull [OF r(1) s(1) r(2) s(4)] by metis
  have "kr_contains c (kr_low r)" using r(3) by (simp add: kr_contains_def c(6,7))
  then have "kr_contains c (kr_low c)" by (rule kr_contains_low [OF c(2)])
  then have "hull_of (Some c) (ts @ [s])"
    using assms(1) Some c r(4,5) s(2,3) by (auto simp: hull_of_def)
  with c(1) Some show ?thesis by (auto simp: roi_update_def)
qed

lemma compare_reaches:
  assumes "kr_wf a" "kr_wf b" "kr_right a \<noteq> []" "kr_left b \<noteq> []"
  shows "map_option (\<lambda>x. x \<noteq> Less) (compare_right_with a (kr_left b)) = Some (right_reaches a b)"
    and "map_option (\<lambda>x. x = Less) (compare_right_with a (kr_left b)) = Some (\<not> right_reaches a b)"
  using right_reaches_test [OF assms(1,2)] assms(3,4)
  by (auto simp: end_bound_inf_def start_bound_inf_def)

lemma hull_of_multiple:
  assumes "hull_of i ts" and "level_ok others"
  shows "\<exists>b e. roi_check_multiple_overlap i others = Some (b, e) \<and> e \<le> length others \<and>
         (if e \<le> b then [] else drop b (take e others))
           = filter (\<lambda>s. roi_check_overlap i s = Some True) others"
proof (cases i)
  case None
  then show ?thesis by (simp add: roi_check_multiple_overlap_def roi_check_overlap_def)
next
  case (Some r)
  then have r: "kr_wf r" "kr_left r \<noteq> []" "kr_right r \<noteq> []" "kr_contains r (kr_low r)"
    using assms(1) by (auto simp: hull_of_def)
  have ok: "sst_ok s" if "s \<in> set others" for s using assms(2) that by (simp add: level_ok_def)
  let ?p = "\<lambda>s. \<not> right_reaches (sst_key_range s) r" and ?q = "\<lambda>s. right_reaches r (sst_key_range s)"
  have srt: "sorted_wrt sst_before others" using assms(2) by (simp add: level_ok_iff)
  have p: "partitioned ?p others"
  proof (rule partitioned_sorted_wrt [OF srt])
    fix x y assume "x \<in> set others" "y \<in> set others" "sst_before x y" "?p y"
    then show "?p x"
      using right_reaches_trans [of "sst_key_range y" "sst_key_range x" r]
        sst_okD(1,5) [OF ok, of y] sst_okD(1) [OF ok, of x] r(1) by simp
  qed
  have q: "partitioned ?q others"
  proof (rule partitioned_sorted_wrt [OF srt])
    fix x y assume "x \<in> set others" "y \<in> set others" "sst_before x y" "?q y"
    then show "?q x"
      using right_reaches_trans [of "sst_key_range x" r "sst_key_range y"]
        sst_okD(1,5) [OF ok, of x] sst_okD(1) [OF ok, of y] r(1) by blast
  qed
  have pp: "partition_point_opt (\<lambda>t. map_option (\<lambda>x. x = Less)
        (compare_right_with (sst_key_range t) (kr_left r))) others = Some (partition_point ?p others)"
    by (rule partition_point_opt_total) (use compare_reaches(2) sst_okD ok r in simp)
  have qq: "partition_point_opt (\<lambda>t. map_option (\<lambda>x. x \<noteq> Less)
        (compare_right_with r (kr_left (sst_key_range t)))) others = Some (partition_point ?q others)"
    by (rule partition_point_opt_total) (use compare_reaches(1) sst_okD ok r in simp)
  have chk: "roi_check_overlap i s = Some True \<longleftrightarrow> ?q s \<and> \<not> ?p s" if "s \<in> set others" for s
    using sstable_overlap_reaches [OF r(1) sst_okD(1) [OF ok [OF that]]] Some
    by (simp add: roi_check_overlap_def check_table_overlap_def)
  have f: "filter (\<lambda>s. roi_check_overlap i s = Some True) others
      = drop (partition_point ?p others) (take (partition_point ?q others) others)"
    unfolding partition_points_filter [OF p q] by (rule filter_cong) (use chk in auto)
  show ?thesis
    using Some pp qq f partition_point_le_length [OF p] partition_point_le_length [OF q]
    by (auto simp: roi_check_multiple_overlap_def)
qed

interpretation roi: overlap_info_laws range_overlap_info hull_of
proof
  show "hull_of (oi_default range_overlap_info) []" by (simp add: range_overlap_info_def hull_of_def)
next
  fix i ts s assume "hull_of i ts" "sst_ok s"
  then show "\<exists>i'. oi_update range_overlap_info i s = Some i' \<and> hull_of i' (ts @ [s])"
    by (simp add: range_overlap_info_def hull_of_update)
next
  fix i ts s assume "hull_of i ts" "sst_ok s"
  then show "oi_check_overlap range_overlap_info i s \<noteq> None"
    by (auto simp: range_overlap_info_def roi_check_overlap_def check_table_overlap_def hull_of_def
        sstable_overlap_reaches sst_okD split: option.splits)
next
  fix i ts others assume "hull_of i ts" "level_ok others"
  then show "\<exists>b e. oi_check_multiple_overlap range_overlap_info i others = Some (b, e) \<and>
      e \<le> length others \<and> (if e \<le> b then [] else drop b (take e others))
        = filter (\<lambda>s. oi_check_overlap range_overlap_info i s = Some True) others"
    using hull_of_multiple by (simp add: range_overlap_info_def)
qed

section \<open>Properties of the overlap strategy\<close>

lemma hull_contains:
  assumes "hull_of (Some r) ts"
  shows "kr_contains r k \<longleftrightarrow> (\<exists>t \<in> set ts. above_left (sst_key_range t) k)
    \<and> (\<exists>t \<in> set ts. below_right (sst_key_range t) k)"
  using assms by (simp add: hull_of_def kr_contains_def)

lemma roi_check_overlap_hull:
  assumes "hull_of info ts" and "sst_ok s"
  shows "roi_check_overlap info s = Some (\<exists>k. kr_contains (sst_key_range s) k
      \<and> (\<exists>t \<in> set ts. above_left (sst_key_range t) k) \<and> (\<exists>t \<in> set ts. below_right (sst_key_range t) k))"
proof (cases info)
  case None
  then show ?thesis using assms(1) by (simp add: hull_of_def roi_check_overlap_def)
next
  case (Some r)
  with assms(1) have r: "hull_of (Some r) ts" "kr_wf r" "kr_contains r (kr_low r)"
    by (auto simp: hull_of_def)
  have "sstable_overlap r (sst_key_range s)
      = Some (\<exists>k. kr_contains r k \<and> kr_contains (sst_key_range s) k)"
    by (rule sstable_overlap_common_key [OF r(2) sst_okD(1) [OF assms(2)] r(3) sst_okD(5) [OF assms(2)]])
  then show ?thesis
    using Some hull_contains [OF r(1)] by (auto simp: roi_check_overlap_def check_table_overlap_def)
qed

text \<open>
  C14. On a concatenated level the two binary searches of \<open>check_base_level_overlap\<close> select exactly
  the tables that hold a user key within the hull of the input tables, in level order, and the
  result is the one of the linear scan \<open>check_overlap_with_tables\<close>.
\<close>

theorem base_level_overlap_exact:
  assumes "\<forall>t \<in> set tables. sst_ok t" and "level_ok others" and "tables \<noteq> []"
  shows "check_base_level_overlap range_overlap_info tables others
     = Some (filter (\<lambda>s. \<exists>k. kr_contains (sst_key_range s) k
         \<and> (\<exists>t \<in> set tables. above_left (sst_key_range t) k)
         \<and> (\<exists>t \<in> set tables. below_right (sst_key_range t) k)) others)
   \<and> check_overlap_with_tables range_overlap_info tables others
     = check_base_level_overlap range_overlap_info tables others"
proof -
  obtain info where info: "hull_of info tables"
    "check_base_level_overlap range_overlap_info tables others
       = Some (filter (\<lambda>s. oi_check_overlap range_overlap_info info s = Some True) others)"
    using roi.base_level_overlap_filter [OF assms(1,2)] by metis
  have "filter (\<lambda>s. oi_check_overlap range_overlap_info info s = Some True) others
      = filter (\<lambda>s. \<exists>k. kr_contains (sst_key_range s) k
         \<and> (\<exists>t \<in> set tables. above_left (sst_key_range t) k)
         \<and> (\<exists>t \<in> set tables. below_right (sst_key_range t) k)) others"
  proof (rule filter_cong [OF refl])
    fix s assume "s \<in> set others"
    then have "sst_ok s" using assms(2) by (simp add: level_ok_def)
    then show "(oi_check_overlap range_overlap_info info s = Some True) = (\<exists>k. kr_contains (sst_key_range s) k
         \<and> (\<exists>t \<in> set tables. above_left (sst_key_range t) k)
         \<and> (\<exists>t \<in> set tables. below_right (sst_key_range t) k))"
      using roi_check_overlap_hull [OF info(1)] by (simp add: range_overlap_info_def)
  qed
  then show ?thesis using info(2) roi.base_level_agrees_with_scan [OF assms] by simp
qed

theorem base_level_overlap_exact_witness:
  "check_base_level_overlap range_overlap_info [sst_of 9 [1] (UserKey 1 [4]) (UserKey 1 [7])]
     [sst_of 1 [1] (UserKey 1 [1]) (UserKey 1 [5]), sst_of 2 [1] (UserKey 1 [6]) (UserKey 1 [9])]
   = check_overlap_with_tables range_overlap_info [sst_of 9 [1] (UserKey 1 [4]) (UserKey 1 [7])]
     [sst_of 1 [1] (UserKey 1 [1]) (UserKey 1 [5]), sst_of 2 [1] (UserKey 1 [6]) (UserKey 1 [9])]"
  using base_level_overlap_exact [of "[sst_of 9 [1] (UserKey 1 [4]) (UserKey 1 [7])]"
     "[sst_of 1 [1] (UserKey 1 [1]) (UserKey 1 [5]), sst_of 2 [1] (UserKey 1 [6]) (UserKey 1 [9])]"]
  by (simp add: level_ok_iff less_eq_user_key_def del: sst_of_simps)

end
