(* ===== verification/Level_Handler.thy ===== *)
theory Level_Handler
  imports Sst_Level
begin

text \<open>
  The book-keeping of running compactions per level, from \<^verbatim>\<open>meta/src/hummock/level_handler.rs\<close>.
  The map from files to tasks is a function of the pending tasks; the invariant says so, the
  step relation adds a task for files that are not being compacted and removes tasks.
\<close>

section \<open>State and operations\<close>

record running_compact_task =
  rct_task_id :: u64
  rct_target_level :: u32
  rct_total_file_size :: u64
  rct_ssts :: "u64 list"

record level_handler =
  lh_level :: u32
  lh_compacting_files :: "(u64, u64) btree"
  lh_pending_tasks :: "running_compact_task list"

record pb_level_handler =
  pblh_level :: u32
  pblh_tasks :: "running_compact_task list"

definition lh_new :: "u32 \<Rightarrow> level_handler" where
  "lh_new lvl = \<lparr>lh_level = lvl, lh_compacting_files = [], lh_pending_tasks = []\<rparr>"

definition lh_get_level :: "level_handler \<Rightarrow> u32" where
  "lh_get_level h = lh_level h"

definition remove_task :: "level_handler \<Rightarrow> u64 \<Rightarrow> level_handler" where
  "remove_task h target_task_id =
     h\<lparr>lh_compacting_files :=
          foldl (\<lambda>files task.
             if rct_task_id task = target_task_id
             then foldl (\<lambda>files sst. bt_remove sst files) files (rct_ssts task)
             else files) (lh_compacting_files h) (lh_pending_tasks h),
        lh_pending_tasks := filter (\<lambda>task. rct_task_id task \<noteq> target_task_id) (lh_pending_tasks h)\<rparr>"

definition is_pending_compact :: "level_handler \<Rightarrow> u64 \<Rightarrow> bool" where
  "is_pending_compact h sst = (bt_get (lh_compacting_files h) sst \<noteq> None)"

definition pending_task_id_by_sst :: "level_handler \<Rightarrow> u64 \<Rightarrow> u64 option" where
  "pending_task_id_by_sst h sst = bt_get (lh_compacting_files h) sst"

definition is_level_pending_compact :: "level_handler \<Rightarrow> level \<Rightarrow> bool" where
  "is_level_pending_compact h l =
     list_ex (\<lambda>table. bt_get (lh_compacting_files h) (sst_id table) \<noteq> None) (lvl_table_infos l)"

definition is_level_all_pending_compact :: "level_handler \<Rightarrow> level \<Rightarrow> bool" where
  "is_level_all_pending_compact h l =
     (if lvl_table_infos l = [] then False
      else list_all (\<lambda>table. bt_get (lh_compacting_files h) (sst_id table) \<noteq> None) (lvl_table_infos l))"

text \<open>\<open>target_level as u32\<close> truncates.\<close>

definition add_pending_task :: "level_handler \<Rightarrow> u64 \<Rightarrow> nat \<Rightarrow> sstable_info list \<Rightarrow> level_handler" where
  "add_pending_task h task_id target_level ssts =
     h\<lparr>lh_compacting_files := foldl (\<lambda>files s. bt_insert (sst_id s) task_id files) (lh_compacting_files h) ssts,
       lh_pending_tasks := lh_pending_tasks h @
         [\<lparr>rct_task_id = task_id, rct_target_level = word_of_nat target_level,
           rct_total_file_size = sum_list (map sst_size ssts), rct_ssts = map sst_id ssts\<rparr>]\<rparr>"

definition pending_file_count :: "level_handler \<Rightarrow> nat" where
  "pending_file_count h = length (lh_compacting_files h)"

definition pending_file_size :: "level_handler \<Rightarrow> u64" where
  "pending_file_size h = sum_list (map rct_total_file_size (lh_pending_tasks h))"

definition pending_output_file_size :: "level_handler \<Rightarrow> u32 \<Rightarrow> u64" where
  "pending_output_file_size h target_level =
     sum_list (map rct_total_file_size
       (filter (\<lambda>task. rct_target_level task = target_level) (lh_pending_tasks h)))"

definition pending_tasks_ids :: "level_handler \<Rightarrow> u64 list" where
  "pending_tasks_ids h = map rct_task_id (lh_pending_tasks h)"

definition lh_to_pb :: "level_handler \<Rightarrow> pb_level_handler" where
  "lh_to_pb h = \<lparr>pblh_level = lh_level h, pblh_tasks = lh_pending_tasks h\<rparr>"

definition lh_from_pb :: "pb_level_handler \<Rightarrow> level_handler" where
  "lh_from_pb p =
     \<lparr>lh_level = pblh_level p,
      lh_compacting_files = foldl (\<lambda>files task.
        foldl (\<lambda>files s. bt_insert s (rct_task_id task) files) files (rct_ssts task)) [] (pblh_tasks p),
      lh_pending_tasks = pblh_tasks p\<rparr>"

section \<open>Invariant\<close>

definition task_has :: "running_compact_task list \<Rightarrow> u64 \<Rightarrow> u64 \<Rightarrow> bool" where
  "task_has ts s t = (\<exists>task \<in> set ts. rct_task_id task = t \<and> s \<in> set (rct_ssts task))"

definition lh_inv :: "level_handler \<Rightarrow> bool" where
  "lh_inv h = (bt_ok (lh_compacting_files h)
     \<and> (\<forall>s t. bt_get (lh_compacting_files h) s = Some t \<longleftrightarrow> task_has (lh_pending_tasks h) s t))"

text \<open>A task is added for files that no task of the level holds, as the pickers do.\<close>

inductive lh_step :: "level_handler \<Rightarrow> level_handler \<Rightarrow> bool" where
  step_add: "\<forall>s \<in> set ssts. \<not> is_pending_compact h (sst_id s) \<Longrightarrow>
     lh_step h (add_pending_task h task_id target_level ssts)"
| step_remove: "lh_step h (remove_task h task_id)"

inductive lh_reach :: "u32 \<Rightarrow> level_handler \<Rightarrow> bool" for lvl where
  reach_new: "lh_reach lvl (lh_new lvl)"
| reach_step: "lh_reach lvl h \<Longrightarrow> lh_step h h' \<Longrightarrow> lh_reach lvl h'"

inductive_cases lh_stepE: "lh_step h h'"

section \<open>Lemmas\<close>

lemma foldl_bt_remove:
  "bt_ok m \<Longrightarrow> bt_ok (foldl (\<lambda>files s. bt_remove s files) m ss)
     \<and> (\<forall>k. bt_get (foldl (\<lambda>files s. bt_remove s files) m ss) k
          = (if k \<in> set ss then None else bt_get m k))"
  by (induction ss arbitrary: m) (auto simp: btree_simps)

lemma foldl_bt_insert:
  "bt_ok m \<Longrightarrow> bt_ok (foldl (\<lambda>files s. bt_insert (f s) t files) m ss)
     \<and> (\<forall>k. bt_get (foldl (\<lambda>files s. bt_insert (f s) t files) m ss) k
          = (if k \<in> f ` set ss then Some t else bt_get m k))"
  by (induction ss arbitrary: m) (auto simp: btree_simps)

lemma remove_fold:
  assumes "bt_ok m"
  shows "bt_ok (foldl (\<lambda>files task. if rct_task_id task = t
             then foldl (\<lambda>files sst. bt_remove sst files) files (rct_ssts task) else files) m ts)
    \<and> (\<forall>k. bt_get (foldl (\<lambda>files task. if rct_task_id task = t
             then foldl (\<lambda>files sst. bt_remove sst files) files (rct_ssts task) else files) m ts) k
         = (if task_has ts k t then None else bt_get m k))"
  using assms
proof (induction ts arbitrary: m)
  case (Cons a ts)
  then show ?case using foldl_bt_remove [of m "rct_ssts a"] by (auto simp: task_has_def)
qed (simp add: task_has_def)

lemma bt_get_remove_task:
  assumes "bt_ok (lh_compacting_files h)"
  shows "bt_ok (lh_compacting_files (remove_task h t))"
    and "bt_get (lh_compacting_files (remove_task h t)) k
      = (if task_has (lh_pending_tasks h) k t then None else bt_get (lh_compacting_files h) k)"
  using remove_fold [OF assms, of t "lh_pending_tasks h"] by (simp_all add: remove_task_def)

lemma bt_get_add_pending_task:
  assumes "bt_ok (lh_compacting_files h)"
  shows "bt_ok (lh_compacting_files (add_pending_task h t l ssts))"
    and "bt_get (lh_compacting_files (add_pending_task h t l ssts)) k
      = (if k \<in> sst_id ` set ssts then Some t else bt_get (lh_compacting_files h) k)"
  using foldl_bt_insert [OF assms, of sst_id t ssts] by (simp_all add: add_pending_task_def)

lemma lh_inv_new [simp]: "lh_inv (lh_new lvl)"
  by (simp add: lh_inv_def lh_new_def task_has_def bt_get_def)

lemma task_has_filter:
  "task_has (filter (\<lambda>task. rct_task_id task \<noteq> x) ts) s t \<longleftrightarrow> task_has ts s t \<and> t \<noteq> x"
  by (auto simp: task_has_def)

lemma lh_inv_unique:
  assumes "lh_inv h" and "task_has (lh_pending_tasks h) s t" and "task_has (lh_pending_tasks h) s u"
  shows "u = t"
  using assms unfolding lh_inv_def by (metis option.inject)

lemma pending_remove_task:
  "lh_pending_tasks (remove_task h t) = filter (\<lambda>task. rct_task_id task \<noteq> t) (lh_pending_tasks h)"
  by (simp add: remove_task_def)

lemma lh_inv_remove_task:
  assumes "lh_inv h"
  shows "lh_inv (remove_task h t)"
proof -
  have get: "bt_get (lh_compacting_files h) s = Some u \<longleftrightarrow> task_has (lh_pending_tasks h) s u" for s u
    using assms by (simp add: lh_inv_def)
  have ok: "bt_ok (lh_compacting_files h)" using assms by (simp add: lh_inv_def)
  have "bt_get (lh_compacting_files (remove_task h t)) s = Some u
      \<longleftrightarrow> task_has (lh_pending_tasks h) s u \<and> u \<noteq> t" for s u
    unfolding bt_get_remove_task(2) [OF ok]
    using lh_inv_unique [OF assms, of s t u] get [of s u] by auto
  then show ?thesis
    unfolding lh_inv_def pending_remove_task task_has_filter using bt_get_remove_task(1) [OF ok] by blast
qed

lemma lh_inv_add_pending_task:
  assumes "lh_inv h" and "\<forall>s \<in> set ssts. \<not> is_pending_compact h (sst_id s)"
  shows "lh_inv (add_pending_task h t l ssts)"
proof -
  have pend: "lh_pending_tasks (add_pending_task h t l ssts) = lh_pending_tasks h @
      [\<lparr>rct_task_id = t, rct_target_level = word_of_nat l,
        rct_total_file_size = sum_list (map sst_size ssts), rct_ssts = map sst_id ssts\<rparr>]"
    by (simp add: add_pending_task_def)
  have has: "task_has (lh_pending_tasks (add_pending_task h t l ssts)) s u
      \<longleftrightarrow> task_has (lh_pending_tasks h) s u \<or> u = t \<and> s \<in> sst_id ` set ssts" for s u
    unfolding pend by (auto simp: task_has_def)
  have none: "bt_get (lh_compacting_files h) s = None" if "s \<in> sst_id ` set ssts" for s
    using assms(2) that by (auto simp: is_pending_compact_def)
  have get: "bt_get (lh_compacting_files h) s = Some u \<longleftrightarrow> task_has (lh_pending_tasks h) s u" for s u
    using assms(1) by (simp add: lh_inv_def)
  have ok: "bt_ok (lh_compacting_files h)" using assms(1) by (simp add: lh_inv_def)
  have "bt_get (lh_compacting_files (add_pending_task h t l ssts)) s = Some u
      \<longleftrightarrow> task_has (lh_pending_tasks (add_pending_task h t l ssts)) s u" for s u
    unfolding bt_get_add_pending_task(2) [OF ok] has get [symmetric] using none [of s] by auto
  then show ?thesis unfolding lh_inv_def using bt_get_add_pending_task(1) [OF ok] by blast
qed

lemma lh_inv_step: "lh_step h h' \<Longrightarrow> lh_inv h \<Longrightarrow> lh_inv h'"
  by (auto elim!: lh_stepE simp: lh_inv_remove_task lh_inv_add_pending_task)

lemma lh_inv_reach: "lh_reach lvl h \<Longrightarrow> lh_inv h"
  by (induction rule: lh_reach.induct) (auto simp: lh_inv_step)

lemma lh_inv_files_unique:
  assumes "lh_inv h" and "lh_inv h'" and "lh_pending_tasks h = lh_pending_tasks h'"
  shows "lh_compacting_files h = lh_compacting_files h'"
proof (rule bt_ext)
  show "bt_get (lh_compacting_files h) = bt_get (lh_compacting_files h')"
  proof
    fix k
    show "bt_get (lh_compacting_files h) k = bt_get (lh_compacting_files h') k"
      using assms unfolding lh_inv_def by (metis not_None_eq)
  qed
qed (use assms in \<open>auto simp: lh_inv_def\<close>)

lemma remove_add_pending_task:
  assumes "lh_inv h" and "\<forall>s \<in> set ssts. \<not> is_pending_compact h (sst_id s)"
    and "t \<notin> set (pending_tasks_ids h)"
  shows "remove_task (add_pending_task h t l ssts) t = h"
proof -
  let ?h = "remove_task (add_pending_task h t l ssts) t"
  have "filter (\<lambda>task. rct_task_id task \<noteq> t) (lh_pending_tasks h) = lh_pending_tasks h"
    using assms(3) by (auto simp: pending_tasks_ids_def filter_id_conv)
  then have p: "lh_pending_tasks ?h = lh_pending_tasks h"
    by (simp add: remove_task_def add_pending_task_def)
  moreover have "lh_compacting_files ?h = lh_compacting_files h"
    by (rule lh_inv_files_unique [OF _ assms(1) p])
      (intro lh_inv_remove_task lh_inv_add_pending_task assms)
  moreover have "lh_level ?h = lh_level h" by (simp add: remove_task_def add_pending_task_def)
  ultimately show ?thesis by (simp add: level_handler.equality)
qed

lemma from_pb_fold:
  assumes "bt_ok m" and "\<And>s t. task_has ts s t \<Longrightarrow> \<forall>u. task_has ts s u \<longrightarrow> u = t"
  shows "bt_ok (foldl (\<lambda>files task.
        foldl (\<lambda>files s. bt_insert s (rct_task_id task) files) files (rct_ssts task)) m ts)
    \<and> (\<forall>s t. bt_get (foldl (\<lambda>files task.
        foldl (\<lambda>files s. bt_insert s (rct_task_id task) files) files (rct_ssts task)) m ts) s = Some t
       \<longleftrightarrow> task_has ts s t \<or> bt_get m s = Some t \<and> (\<forall>u. \<not> task_has ts s u))"
  using assms
proof (induction ts arbitrary: m)
  case (Cons a ts)
  let ?m = "foldl (\<lambda>files s. bt_insert s (rct_task_id a) files) m (rct_ssts a)"
  have m: "bt_ok ?m" "\<And>k. bt_get ?m k = (if k \<in> set (rct_ssts a) then Some (rct_task_id a) else bt_get m k)"
    using foldl_bt_insert [OF Cons.prems(1), of "\<lambda>x. x" "rct_task_id a" "rct_ssts a"] by auto
  have sub: "task_has ts s t \<Longrightarrow> task_has (a # ts) s t" for s t by (auto simp: task_has_def)
  have cons: "task_has (a # ts) s t \<longleftrightarrow> rct_task_id a = t \<and> s \<in> set (rct_ssts a) \<or> task_has ts s t" for s t
    by (auto simp: task_has_def)
  have "\<And>s t. task_has ts s t \<Longrightarrow> \<forall>u. task_has ts s u \<longrightarrow> u = t" using Cons.prems(2) sub by blast
  note IH = Cons.IH [OF m(1) this]
  have "task_has ts s t \<or> bt_get ?m s = Some t \<and> (\<forall>u. \<not> task_has ts s u)
      \<longleftrightarrow> task_has (a # ts) s t \<or> bt_get m s = Some t \<and> (\<forall>u. \<not> task_has (a # ts) s u)" for s t
  proof (cases "s \<in> set (rct_ssts a)")
    case True
    then have "task_has (a # ts) s (rct_task_id a)" by (simp add: cons)
    then show ?thesis using True Cons.prems(2) sub by (metis cons m(2) option.inject)
  next
    case False
    then show ?thesis by (simp add: m(2) cons)
  qed
  with IH show ?case by simp
qed (simp add: task_has_def)

lemma lh_pb_round_trip:
  assumes "lh_inv h"
  shows "lh_from_pb (lh_to_pb h) = h"
proof -
  have "\<forall>u. task_has (lh_pending_tasks h) s u \<longrightarrow> u = t" if "task_has (lh_pending_tasks h) s t" for s t
    using lh_inv_unique [OF assms that] by blast
  then have "lh_inv (lh_from_pb (lh_to_pb h))"
    using from_pb_fold [of "[]" "lh_pending_tasks h"]
    by (simp add: lh_inv_def lh_from_pb_def lh_to_pb_def bt_get_def)
  then have "lh_compacting_files (lh_from_pb (lh_to_pb h)) = lh_compacting_files h"
    by (rule lh_inv_files_unique [OF _ assms]) (simp add: lh_from_pb_def lh_to_pb_def)
  then show ?thesis by (simp add: level_handler.equality lh_from_pb_def lh_to_pb_def)
qed

section \<open>Properties of the level handler\<close>

text \<open>
  C15. In every state reached from a new handler by adding tasks for files that are not being
  compacted and by removing tasks, a file is recorded as being compacted by a task exactly when
  that task is pending and lists the file, and the handler read back from its protobuf form is
  the same handler.
\<close>

theorem level_handler_reachable:
  assumes "lh_reach lvl h"
  shows "(pending_task_id_by_sst h s = Some t \<longleftrightarrow>
      (\<exists>task \<in> set (lh_pending_tasks h). rct_task_id task = t \<and> s \<in> set (rct_ssts task)))
    \<and> lh_from_pb (lh_to_pb h) = h"
  using lh_inv_reach [OF assms] lh_pb_round_trip
  by (simp add: lh_inv_def pending_task_id_by_sst_def task_has_def)

theorem level_handler_reachable_witness:
  "lh_from_pb (lh_to_pb (add_pending_task (lh_new 3) 7 4 [sst_of 1 [1] (UserKey 1 [1]) (UserKey 1 [5])]))
     = add_pending_task (lh_new 3) 7 4 [sst_of 1 [1] (UserKey 1 [1]) (UserKey 1 [5])]"
proof -
  have "lh_reach 3 (add_pending_task (lh_new 3) 7 4 [sst_of 1 [1] (UserKey 1 [1]) (UserKey 1 [5])])"
    by (rule reach_step [OF reach_new step_add])
      (simp add: is_pending_compact_def lh_new_def bt_get_def)
  then show ?thesis using level_handler_reachable by blast
qed

text \<open>
  Removing a task undoes adding it: for a fresh task id and files that are not being
  compacted the handler is back in its old state, and while the task is pending exactly its
  files are added to the pending ones and its size to the pending size.
\<close>

lemma remove_undoes_add:
  assumes "lh_reach lvl h" and "\<forall>s \<in> set ssts. \<not> is_pending_compact h (sst_id s)"
    and "t \<notin> set (pending_tasks_ids h)"
  shows "remove_task (add_pending_task h t l ssts) t = h
    \<and> (is_pending_compact (add_pending_task h t l ssts) i
         \<longleftrightarrow> is_pending_compact h i \<or> i \<in> sst_id ` set ssts)
    \<and> pending_file_size (add_pending_task h t l ssts)
        = pending_file_size h + sum_list (map sst_size ssts)"
proof -
  note inv = lh_inv_reach [OF assms(1)]
  have "is_pending_compact (add_pending_task h t l ssts) i
      \<longleftrightarrow> is_pending_compact h i \<or> i \<in> sst_id ` set ssts"
    using bt_get_add_pending_task(2) [of h t l ssts i] inv
    by (simp add: is_pending_compact_def lh_inv_def)
  moreover have "pending_file_size (add_pending_task h t l ssts)
      = pending_file_size h + sum_list (map sst_size ssts)"
    by (simp add: pending_file_size_def add_pending_task_def)
  ultimately show ?thesis using remove_add_pending_task [OF inv assms(2,3)] by simp
qed

end
