(* ===== verification/Level_Ops.thy ===== *)
theory Level_Ops
  imports Sst_Level
begin

text \<open>
  The operations on the levels of one compaction group, from
  \<^verbatim>\<open>storage/hummock_sdk/src/compaction_group/hummock_version_ext.rs\<close>: new sub-levels, the
  deletion and insertion of SSTables by a compaction, and the check for expired compactions.
  The invariant of a group says that the recorded sizes are the sums over the tables, that
  sub-level ids ascend and that every non-overlapping level can be concatenated.
\<close>

section \<open>Operations\<close>

record intra_level_delta =
  ild_level_idx :: u32
  ild_l0_sub_level_id :: u64
  ild_removed_table_ids :: "u64 list"
  ild_inserted_table_infos :: "sstable_info list"
  ild_vnode_partition_count :: u32

abbreviation sst_sizes :: "sstable_info list \<Rightarrow> u64" where
  "sst_sizes ssts \<equiv> sum_list (map sst_size ssts)"

abbreviation sst_uncompressed_sizes :: "sstable_info list \<Rightarrow> u64" where
  "sst_uncompressed_sizes ssts \<equiv> sum_list (map sst_uncompressed_file_size ssts)"

definition build_initial_compaction_group_levels :: "u64 \<Rightarrow> nat \<Rightarrow> levels" where
  "build_initial_compaction_group_levels group_id max_level =
     \<lparr>lvs_levels = map (\<lambda>l. \<lparr>lvl_idx = word_of_nat (l + 1), lvl_type = Nonoverlapping,
          lvl_table_infos = [], lvl_total_file_size = 0, lvl_sub_level_id = 0,
          lvl_uncompressed_file_size = 0, lvl_vnode_partition_count = 0\<rparr>) [0..<max_level],
      lvs_l0 = \<lparr>l0_sub_levels = [], l0_total_file_size = 0, l0_uncompressed_file_size = 0\<rparr>,
      lvs_group_id = group_id, lvs_parent_group_id = 0, lvs_member_table_ids = []\<rparr>"

definition new_sub_level :: "u64 \<Rightarrow> level_type \<Rightarrow> sstable_info list \<Rightarrow> level" where
  "new_sub_level sub_level_id ty table_infos =
     \<lparr>lvl_idx = 0, lvl_type = ty, lvl_table_infos = table_infos,
      lvl_total_file_size = sst_sizes table_infos, lvl_sub_level_id = sub_level_id,
      lvl_uncompressed_file_size = sst_uncompressed_sizes table_infos, lvl_vnode_partition_count = 0\<rparr>"

text \<open>\<open>sort_by\<close> on the key range, then \<open>assert!(can_concat(..))\<close>.\<close>

definition sort_and_check :: "sstable_info list \<Rightarrow> sstable_info list option" where
  "sort_and_check ssts =
     do { sorted_ssts \<leftarrow> sort_ssts ssts;
          ok \<leftarrow> can_concat sorted_ssts;
          if ok then Some sorted_ssts else None }"

definition add_ssts_to_sub_level ::
    "overlapping_level \<Rightarrow> nat \<Rightarrow> sstable_info list \<Rightarrow> overlapping_level option" where
  "add_ssts_to_sub_level l0 idx ssts =
     (if idx < length (l0_sub_levels l0) then
        (let lvl = l0_sub_levels l0 ! idx in
         do { infos \<leftarrow> (if lvl_type lvl = Nonoverlapping then sort_and_check (lvl_table_infos lvl @ ssts)
                       else Some (lvl_table_infos lvl @ ssts));
              Some (l0\<lparr>l0_sub_levels := (l0_sub_levels l0)[idx :=
                   lvl\<lparr>lvl_table_infos := infos,
                       lvl_total_file_size := lvl_total_file_size lvl + sst_sizes ssts,
                       lvl_uncompressed_file_size :=
                         lvl_uncompressed_file_size lvl + sst_uncompressed_sizes ssts\<rparr>],
                 l0_total_file_size := l0_total_file_size l0 + sst_sizes ssts,
                 l0_uncompressed_file_size :=
                   l0_uncompressed_file_size l0 + sst_uncompressed_sizes ssts\<rparr>) })
      else None)"

text \<open>\<open>Vec::insert\<close> panics when the position is past the end.\<close>

definition vec_insert :: "nat \<Rightarrow> 'a \<Rightarrow> 'a list \<Rightarrow> 'a list option" where
  "vec_insert i x xs = (if i \<le> length xs then Some (take i xs @ x # drop i xs) else None)"

definition insert_new_sub_level ::
    "overlapping_level \<Rightarrow> u64 \<Rightarrow> level_type \<Rightarrow> sstable_info list \<Rightarrow> nat option \<Rightarrow> overlapping_level option" where
  "insert_new_sub_level l0 insert_sub_level_id ty ssts hint =
     (if insert_sub_level_id = - 1 then Some l0
      else do {
        insert_pos \<leftarrow> (case hint of
            Some pos \<Rightarrow> Some pos
          | None \<Rightarrow>
              if l0_sub_levels l0 \<noteq> []
                 \<and> \<not> lvl_sub_level_id (last (l0_sub_levels l0)) < insert_sub_level_id
              then None else Some (length (l0_sub_levels l0)));
        let lvl = new_sub_level insert_sub_level_id ty ssts;
        subs \<leftarrow> vec_insert insert_pos lvl (l0_sub_levels l0);
        Some (l0\<lparr>l0_sub_levels := subs,
                 l0_total_file_size := l0_total_file_size l0 + lvl_total_file_size lvl,
                 l0_uncompressed_file_size :=
                   l0_uncompressed_file_size l0 + lvl_uncompressed_file_size lvl\<rparr>) })"

definition level_delete_ssts :: "level \<Rightarrow> u64 list \<Rightarrow> level" where
  "level_delete_ssts lvl delete_ids =
     (let infos = filter (\<lambda>t. sst_id t \<notin> set delete_ids) (lvl_table_infos lvl)
      in lvl\<lparr>lvl_table_infos := infos, lvl_total_file_size := sst_sizes infos,
             lvl_uncompressed_file_size := sst_uncompressed_sizes infos\<rparr>)"

definition level_insert_ssts :: "level \<Rightarrow> sstable_info list \<Rightarrow> level option" where
  "level_insert_ssts lvl ssts =
     do { infos \<leftarrow> sort_and_check (lvl_table_infos lvl @ ssts);
          Some (lvl\<lparr>lvl_total_file_size := lvl_total_file_size lvl + sst_sizes ssts,
                    lvl_uncompressed_file_size :=
                      lvl_uncompressed_file_size lvl + sst_uncompressed_sizes ssts,
                    lvl_table_infos := infos,
                    lvl_type := (if lvl_type lvl = Overlapping then Nonoverlapping else lvl_type lvl)\<rparr>) }"

text \<open>
  Removing the ids of the tables of the checked levels from the set; \<open>self.levels[idx]\<close> panics
  when the level does not exist.
\<close>

primrec check_sst_ids_exist :: "levels \<Rightarrow> u32 list \<Rightarrow> u64 list \<Rightarrow> bool option" where
  "check_sst_ids_exist ls [] ids = Some (ids = [])"
| "check_sst_ids_exist ls (level_idx # rest) ids =
     (if level_idx = 0 then
        check_sst_ids_exist ls rest
          (filter (\<lambda>i. i \<notin> sst_id ` set (concat (map lvl_table_infos (l0_sub_levels (lvs_l0 ls))))) ids)
      else do { lvl \<leftarrow> get_level ls (unat level_idx);
                check_sst_ids_exist ls rest (filter (\<lambda>i. i \<notin> sst_id ` set (lvl_table_infos lvl)) ids) })"

definition set_level :: "levels \<Rightarrow> nat \<Rightarrow> level \<Rightarrow> levels" where
  "set_level ls level_idx lvl = ls\<lparr>lvs_levels := (lvs_levels ls)[level_idx - 1 := lvl]\<rparr>"

definition set_sub_level :: "levels \<Rightarrow> nat \<Rightarrow> level \<Rightarrow> levels" where
  "set_sub_level ls i lvl =
     ls\<lparr>lvs_l0 := (lvs_l0 ls)\<lparr>l0_sub_levels := (l0_sub_levels (lvs_l0 ls))[i := lvl]\<rparr>\<rparr>"

definition compact_delete :: "levels \<Rightarrow> u32 \<Rightarrow> u64 list \<Rightarrow> levels option" where
  "compact_delete ls level_idx ids =
     (if ids = [] then Some ls
      else if level_idx = 0 then
        Some (ls\<lparr>lvs_l0 := (lvs_l0 ls)\<lparr>l0_sub_levels :=
               map (\<lambda>l. level_delete_ssts l ids) (l0_sub_levels (lvs_l0 ls))\<rparr>\<rparr>)
      else do { lvl \<leftarrow> get_level ls (unat level_idx);
                Some (set_level ls (unat level_idx) (level_delete_ssts lvl ids)) })"

definition compact_insert :: "levels \<Rightarrow> intra_level_delta \<Rightarrow> u32 list \<Rightarrow> levels option" where
  "compact_insert ls d member_table_ids =
     (let ssts = ild_inserted_table_infos d; count = ild_vnode_partition_count d in
      if ssts = [] then Some ls
      else if ild_level_idx d = 0 then
        (let subs = l0_sub_levels (lvs_l0 ls);
             index = partition_point (\<lambda>l. lvl_sub_level_id l < ild_l0_sub_level_id d) subs in
         if \<not> (index < length subs \<and> lvl_sub_level_id (subs ! index) = ild_l0_sub_level_id d) then None
         else
           (let lvl = subs ! index;
                lvl = (if lvl_table_infos lvl = [] \<and> length member_table_ids = 1
                          \<and> list_all (\<lambda>s. sst_table_ids s = [hd member_table_ids]) ssts
                       then lvl\<lparr>lvl_vnode_partition_count := count\<rparr> else lvl)
            in do { lvl' \<leftarrow> level_insert_ssts lvl ssts; Some (set_sub_level ls index lvl') }))
      else do {
        lvl \<leftarrow> get_level ls (unat (ild_level_idx d));
        let lvl = (if lvl_table_infos lvl = [] \<and> list_all (\<lambda>s. length (sst_table_ids s) = 1) ssts
                   then lvl\<lparr>lvl_vnode_partition_count := count\<rparr>
                   else if lvl_vnode_partition_count lvl \<noteq> 0 \<and> count = 0 \<and> length member_table_ids > 1
                   then lvl\<lparr>lvl_vnode_partition_count := 0\<rparr> else lvl);
        lvl' \<leftarrow> level_insert_ssts lvl ssts;
        Some (set_level ls (unat (ild_level_idx d)) lvl') })"

text \<open>\<open>Levels::apply_compact_ssts\<close>: an expired compaction changes nothing.\<close>

definition apply_compact_ssts :: "levels \<Rightarrow> intra_level_delta \<Rightarrow> u32 list \<Rightarrow> levels option" where
  "apply_compact_ssts ls d member_table_ids =
     do { exist \<leftarrow> check_sst_ids_exist ls [ild_level_idx d] (ild_removed_table_ids d);
          if \<not> exist then Some ls
          else do { ls' \<leftarrow> compact_delete ls (ild_level_idx d) (ild_removed_table_ids d);
                    compact_insert ls' d member_table_ids } }"

definition post_apply_l0_compact :: "levels \<Rightarrow> levels" where
  "post_apply_l0_compact ls =
     (let subs = filter (\<lambda>l. lvl_table_infos l \<noteq> []) (l0_sub_levels (lvs_l0 ls))
      in ls\<lparr>lvs_l0 := \<lparr>l0_sub_levels = subs,
              l0_total_file_size = sum_list (map lvl_total_file_size subs),
              l0_uncompressed_file_size = sum_list (map lvl_uncompressed_file_size subs)\<rparr>\<rparr>)"

section \<open>Invariants\<close>

definition level_sizes_ok :: "level \<Rightarrow> bool" where
  "level_sizes_ok l = (lvl_total_file_size l = sst_sizes (lvl_table_infos l)
     \<and> lvl_uncompressed_file_size l = sst_uncompressed_sizes (lvl_table_infos l))"

definition level_inv :: "level \<Rightarrow> bool" where
  "level_inv l = (level_sizes_ok l \<and> (\<forall>s \<in> set (lvl_table_infos l). sst_ok s)
     \<and> (lvl_type l = Overlapping \<or> level_ok (lvl_table_infos l)))"

text \<open>The sub-levels alone, and with the totals of level 0.\<close>

definition subs_inv :: "level list \<Rightarrow> bool" where
  "subs_inv subs = ((\<forall>l \<in> set subs. level_inv l) \<and> sorted_wrt (<) (map lvl_sub_level_id subs))"

definition l0_inv :: "overlapping_level \<Rightarrow> bool" where
  "l0_inv l0 = (subs_inv (l0_sub_levels l0)
     \<and> l0_total_file_size l0 = sum_list (map lvl_total_file_size (l0_sub_levels l0))
     \<and> l0_uncompressed_file_size l0 = sum_list (map lvl_uncompressed_file_size (l0_sub_levels l0)))"

definition base_inv :: "levels \<Rightarrow> bool" where
  "base_inv ls = (\<forall>i < length (lvs_levels ls). level_inv (lvs_levels ls ! i)
      \<and> lvl_type (lvs_levels ls ! i) = Nonoverlapping
      \<and> lvl_idx (lvs_levels ls ! i) = word_of_nat (i + 1))"

definition levels_inv :: "levels \<Rightarrow> bool" where
  "levels_inv ls = (l0_inv (lvs_l0 ls) \<and> base_inv ls)"

text \<open>The tables of a group, by level: level 0 is the union of its sub-levels.\<close>

definition level_ssts :: "levels \<Rightarrow> nat \<Rightarrow> sstable_info multiset" where
  "level_ssts ls n =
     (if n = 0 then mset (concat (map lvl_table_infos (l0_sub_levels (lvs_l0 ls))))
      else if n - 1 < length (lvs_levels ls) then mset (lvl_table_infos (lvs_levels ls ! (n - 1)))
      else {#})"

section \<open>Single levels\<close>

lemma sst_ok_wf: "sst_ok s \<Longrightarrow> kr_wf (sst_key_range s)"
  by (simp add: sst_ok_def Let_def)

lemma sort_and_check_Some:
  assumes "\<forall>s \<in> set ssts. sst_ok s" and "sort_and_check ssts = Some out"
  shows "mset out = mset ssts" and "level_ok out"
proof -
  have s: "sort_ssts ssts = Some (sort_key (\<lambda>s. kr_order_key (sst_key_range s)) ssts)"
    by (rule sort_ssts_sorted) (use assms(1) sst_ok_wf in blast)
  then have out: "out = sort_key (\<lambda>s. kr_order_key (sst_key_range s)) ssts" "can_concat out = Some True"
    using assms(2) by (auto simp: sort_and_check_def split: Option.bind_splits if_splits)
  then show "mset out = mset ssts" by simp
  then have "set out = set ssts" by (metis set_mset_mset)
  then show "level_ok out" using assms(1) out(2) by (simp add: level_ok_def)
qed

lemma sizes_mset:
  assumes "mset xs = mset ys"
  shows "sst_sizes xs = sst_sizes ys" and "sst_uncompressed_sizes xs = sst_uncompressed_sizes ys"
  using assms by (metis mset_map sum_mset_sum_list)+

lemma level_ok_filter: "level_ok ssts \<Longrightarrow> level_ok (filter p ssts)"
  by (auto simp: level_ok_iff intro: sorted_wrt_filter)

lemma level_delete_ssts_inv: "level_inv l \<Longrightarrow> level_inv (level_delete_ssts l ids)"
  by (auto simp: level_inv_def level_delete_ssts_def Let_def level_sizes_ok_def level_ok_filter)

lemma level_delete_ssts_fields [simp]:
  "lvl_sub_level_id (level_delete_ssts l ids) = lvl_sub_level_id l"
  "lvl_type (level_delete_ssts l ids) = lvl_type l"
  "lvl_idx (level_delete_ssts l ids) = lvl_idx l"
  "lvl_table_infos (level_delete_ssts l ids) = filter (\<lambda>t. sst_id t \<notin> set ids) (lvl_table_infos l)"
  by (simp_all add: level_delete_ssts_def Let_def)

lemma level_insert_ssts_inv:
  assumes "level_inv l" and "\<forall>s \<in> set ssts. sst_ok s" and "level_insert_ssts l ssts = Some l'"
  shows "level_inv l'" and "mset (lvl_table_infos l') = mset (lvl_table_infos l) + mset ssts"
    and "lvl_sub_level_id l' = lvl_sub_level_id l" and "lvl_idx l' = lvl_idx l"
    and "lvl_type l' = (if lvl_type l = Overlapping then Nonoverlapping else lvl_type l)"
proof -
  obtain infos where infos: "sort_and_check (lvl_table_infos l @ ssts) = Some infos"
    and l': "l' = l\<lparr>lvl_total_file_size := lvl_total_file_size l + sst_sizes ssts,
        lvl_uncompressed_file_size := lvl_uncompressed_file_size l + sst_uncompressed_sizes ssts,
        lvl_table_infos := infos,
        lvl_type := (if lvl_type l = Overlapping then Nonoverlapping else lvl_type l)\<rparr>"
    using assms(3) by (auto simp: level_insert_ssts_def split: Option.bind_splits)
  have ok: "\<forall>s \<in> set (lvl_table_infos l @ ssts). sst_ok s"
    using assms(1,2) by (auto simp: level_inv_def)
  note s = sort_and_check_Some [OF ok infos]
  show "level_inv l'"
    using assms(1) s(2) sizes_mset [OF s(1)] unfolding l'
    by (simp add: level_inv_def level_sizes_ok_def level_ok_def)
  show "mset (lvl_table_infos l') = mset (lvl_table_infos l) + mset ssts"
    using s(1) by (simp add: l')
qed (use assms(3) in \<open>auto simp: level_insert_ssts_def split: Option.bind_splits\<close>)

lemma new_sub_level_inv:
  assumes "\<forall>s \<in> set ssts. sst_ok s" and "ty = Overlapping \<or> level_ok ssts"
  shows "level_inv (new_sub_level i ty ssts)"
  using assms by (auto simp: level_inv_def new_sub_level_def level_sizes_ok_def)

section \<open>Level 0\<close>

lemma subs_inv_insert:
  assumes "subs_inv subs" and "level_inv lvl" and "vec_insert i lvl subs = Some subs'"
    and "\<forall>x \<in> set (take i subs). lvl_sub_level_id x < lvl_sub_level_id lvl"
    and "\<forall>x \<in> set (drop i subs). lvl_sub_level_id lvl < lvl_sub_level_id x"
  shows "subs_inv subs'"
proof -
  have subs': "subs' = take i subs @ lvl # drop i subs"
    using assms(3) by (simp add: vec_insert_def split: if_splits)
  have "sorted_wrt (<) (map lvl_sub_level_id (take i subs @ drop i subs))"
    using assms(1) by (simp add: subs_inv_def)
  then have "sorted_wrt (<) (map lvl_sub_level_id subs')"
    unfolding subs' map_append sorted_wrt_append list.map using assms(4,5) by auto
  moreover have "set subs' = insert lvl (set (take i subs @ drop i subs))" unfolding subs' by (simp only: set_append list.set Un_insert_right)
  then have "\<forall>l \<in> set subs'. level_inv l" using assms(1,2) by (simp add: subs_inv_def)
  ultimately show ?thesis by (simp add: subs_inv_def)
qed

lemma sum_list_insert:
  "sum_list (map f (take i xs @ x # drop i xs)) = sum_list (map f xs) + (f x :: 'a::comm_monoid_add)"
proof -
  have "sum_list (map f (take i xs @ x # drop i xs)) = sum_list (map f (take i xs)) + sum_list (map f (drop i xs)) + f x"
    by (simp add: ac_simps)
  also have "\<dots> = sum_list (map f (take i xs @ drop i xs)) + f x" by (simp only: map_append sum_list_append)
  finally show ?thesis by simp
qed

lemma insert_new_sub_level_cases:
  assumes "insert_new_sub_level l0 i ty ssts hint = Some l0'"
  obtains "i = - 1" "l0' = l0"
  | pos where "i \<noteq> - 1" "pos \<le> length (l0_sub_levels l0)" "\<And>p. hint = Some p \<Longrightarrow> pos = p"
    "hint = None \<Longrightarrow> pos = length (l0_sub_levels l0)
       \<and> (l0_sub_levels l0 = [] \<or> lvl_sub_level_id (last (l0_sub_levels l0)) < i)"
    "l0' = l0\<lparr>l0_sub_levels := take pos (l0_sub_levels l0) @ new_sub_level i ty ssts # drop pos (l0_sub_levels l0),
       l0_total_file_size := l0_total_file_size l0 + sst_sizes ssts,
       l0_uncompressed_file_size := l0_uncompressed_file_size l0 + sst_uncompressed_sizes ssts\<rparr>"
  using assms
  by (auto simp: insert_new_sub_level_def vec_insert_def new_sub_level_def Let_def
      split: if_splits option.splits Option.bind_splits)

lemma strict_sorted_le_last: "sorted_wrt (<) (xs :: 'a::linorder list) \<Longrightarrow> x \<in> set xs \<Longrightarrow> x \<le> last xs"
  by (induction xs) (auto simp: order_less_imp_le)

lemma new_sub_level_fields [simp]:
  "lvl_sub_level_id (new_sub_level i ty ssts) = i" "lvl_table_infos (new_sub_level i ty ssts) = ssts"
  "lvl_total_file_size (new_sub_level i ty ssts) = sst_sizes ssts"
  "lvl_uncompressed_file_size (new_sub_level i ty ssts) = sst_uncompressed_sizes ssts"
  "lvl_type (new_sub_level i ty ssts) = ty" "lvl_idx (new_sub_level i ty ssts) = 0"
  by (simp_all add: new_sub_level_def)

lemma insert_new_sub_level_inv:
  assumes "l0_inv l0" and "\<forall>s \<in> set ssts. sst_ok s" and "ty = Overlapping \<or> level_ok ssts"
    and "insert_new_sub_level l0 i ty ssts hint = Some l0'"
    and "\<And>pos. hint = Some pos \<Longrightarrow>
       (\<forall>x \<in> set (take pos (l0_sub_levels l0)). lvl_sub_level_id x < i)
       \<and> (\<forall>x \<in> set (drop pos (l0_sub_levels l0)). i < lvl_sub_level_id x)"
  shows "l0_inv l0'"
  using assms(4)
proof (cases rule: insert_new_sub_level_cases)
  case (2 pos)
  let ?subs = "l0_sub_levels l0"
  have subs: "subs_inv ?subs" using assms(1) by (simp add: l0_inv_def)
  have ids: "(\<forall>x \<in> set (take pos ?subs). lvl_sub_level_id x < i)
       \<and> (\<forall>x \<in> set (drop pos ?subs). i < lvl_sub_level_id x)"
  proof (cases hint)
    case None
    then have pos: "pos = length ?subs" using 2(4) by simp
    have "\<forall>x \<in> set ?subs. lvl_sub_level_id x < i"
    proof (cases "?subs = []")
      case False
      then have "lvl_sub_level_id (last ?subs) < i" using 2(4) None by simp
      moreover have "lvl_sub_level_id x \<le> last (map lvl_sub_level_id ?subs)" if "x \<in> set ?subs" for x
        by (rule strict_sorted_le_last) (use subs that in \<open>auto simp: subs_inv_def\<close>)
      ultimately show ?thesis using False by (fastforce simp: last_map)
    qed simp
    then show ?thesis by (simp add: pos)
  qed (use 2(3) assms(5) in auto)
  have "subs_inv (take pos ?subs @ new_sub_level i ty ssts # drop pos ?subs)"
    by (intro subs_inv_insert [OF subs new_sub_level_inv [OF assms(2,3)], of pos])
      (use ids 2(2) in \<open>auto simp: vec_insert_def\<close>)
  with 2(5) assms(1) show ?thesis
    by (simp add: l0_inv_def sum_list_insert del: map_append sum_list_append)
qed (use assms(1) in simp)

lemma subs_inv_update:
  assumes "subs_inv subs" and "i < length subs" and "level_inv l"
    and "lvl_sub_level_id l = lvl_sub_level_id (subs ! i)"
  shows "subs_inv (subs[i := l])"
proof -
  have "map lvl_sub_level_id (subs[i := l]) = map lvl_sub_level_id subs"
    by (simp add: map_update assms(2,4) list_update_same_conv)
  moreover have "\<forall>x \<in> set (subs[i := l]). level_inv x"
    using assms(1,3) set_update_subset_insert [of subs i l] by (auto simp: subs_inv_def)
  ultimately show ?thesis using assms(1) by (simp only: subs_inv_def simp_thms)
qed

lemma sum_list_map_update:
  assumes "i < length xs" and "f x = f (xs ! i) + (d :: 'a::ab_group_add)"
  shows "sum_list (map f (xs[i := x])) = sum_list (map f xs) + d"
proof -
  have "sum_list (map f (take i xs @ xs ! i # drop (Suc i) xs)) = sum_list (map f xs)"
    using assms(1) by (simp only: id_take_nth_drop [symmetric])
  then show ?thesis using assms by (simp add: upd_conv_take_nth_drop ac_simps)
qed

lemma add_ssts_to_sub_level_inv:
  assumes "l0_inv l0" and "\<forall>s \<in> set ssts. sst_ok s" and "add_ssts_to_sub_level l0 idx ssts = Some l0'"
    and "lvl_type (l0_sub_levels l0 ! idx) \<in> {Nonoverlapping, Overlapping}"
  shows "l0_inv l0'"
proof -
  let ?l = "l0_sub_levels l0 ! idx"
  have idx: "idx < length (l0_sub_levels l0)"
    using assms(3) by (simp add: add_ssts_to_sub_level_def split: if_splits)
  obtain infos where infos: "(if lvl_type ?l = Nonoverlapping then sort_and_check (lvl_table_infos ?l @ ssts)
      else Some (lvl_table_infos ?l @ ssts)) = Some infos"
    using assms(3) idx by (auto simp: add_ssts_to_sub_level_def Let_def split: Option.bind_splits)
  define l where "l = ?l\<lparr>lvl_table_infos := infos,
       lvl_total_file_size := lvl_total_file_size ?l + sst_sizes ssts,
       lvl_uncompressed_file_size := lvl_uncompressed_file_size ?l + sst_uncompressed_sizes ssts\<rparr>"
  have l0': "l0' = l0\<lparr>l0_sub_levels := (l0_sub_levels l0)[idx := l],
      l0_total_file_size := l0_total_file_size l0 + sst_sizes ssts,
      l0_uncompressed_file_size := l0_uncompressed_file_size l0 + sst_uncompressed_sizes ssts\<rparr>"
    using assms(3) idx infos by (simp add: add_ssts_to_sub_level_def Let_def l_def)
  have inv: "level_inv ?l" and subs: "subs_inv (l0_sub_levels l0)"
    using assms(1) idx by (auto simp: l0_inv_def subs_inv_def)
  have ok: "\<forall>s \<in> set (lvl_table_infos ?l @ ssts). sst_ok s" using inv assms(2) by (auto simp: level_inv_def)
  have "level_inv l"
  proof (cases "lvl_type ?l = Nonoverlapping")
    case True
    then have s: "sort_and_check (lvl_table_infos ?l @ ssts) = Some infos" using infos by simp
    show ?thesis using inv sort_and_check_Some [OF ok s] sizes_mset [OF sort_and_check_Some(1) [OF ok s]]
      by (simp add: l_def level_inv_def level_sizes_ok_def level_ok_def)
  next
    case False
    then have "infos = lvl_table_infos ?l @ ssts" using infos by simp
    then show ?thesis using inv ok False assms(4) by (simp add: l_def level_inv_def level_sizes_ok_def)
  qed
  then have "subs_inv ((l0_sub_levels l0)[idx := l])"
    by (intro subs_inv_update [OF subs idx]) (simp_all add: l_def)
  then show ?thesis
    using assms(1) idx unfolding l0'
    by (simp add: l0_inv_def l_def sum_list_map_update [where d = "sst_sizes ssts"]
        sum_list_map_update [where d = "sst_uncompressed_sizes ssts"])
qed

section \<open>When inserted tables can be concatenated\<close>

abbreviation kr_key :: "sstable_info \<Rightarrow> full_key option \<times> bool \<times> full_key option" where
  "kr_key s \<equiv> kr_order_key (sst_key_range s)"

definition ssts_apart :: "sstable_info list \<Rightarrow> bool" where
  "ssts_apart ssts = sorted_wrt (\<lambda>a b. sst_before a b \<or> sst_before b a) ssts"

lemma sorted_wrt_insort_symm:
  assumes "\<And>a b. R a b \<Longrightarrow> R b a"
  shows "sorted_wrt R (insort_key f x xs) \<longleftrightarrow> (\<forall>y \<in> set xs. R x y) \<and> sorted_wrt R xs"
proof (induction xs)
  case (Cons y ys)
  have "R x y \<longleftrightarrow> R y x" using assms by blast
  with Cons show ?case by (auto simp: set_insort_key)
qed simp

lemma sorted_wrt_sort_symm:
  assumes "\<And>a b. R a b \<Longrightarrow> R b a"
  shows "sorted_wrt R (sort_key f xs) \<longleftrightarrow> sorted_wrt R xs"
  by (induction xs) (auto simp: sorted_wrt_insort_symm [of R, OF assms])

lemma sst_before_low:
  assumes "sst_ok a" and "sst_ok b" and "sst_before a b"
  shows "kr_low (sst_key_range a) < kr_low (sst_key_range b)"
  using sst_before_keys [OF assms(1,2)] assms by (simp add: sst_ok_def Let_def)

lemma kr_key_low:
  assumes "sst_ok a" and "sst_ok b" and "kr_key a \<le> kr_key b"
  shows "kr_low (sst_key_range a) \<le> kr_low (sst_key_range b)"
proof -
  obtain x y where xy: "fk_decode (kr_left (sst_key_range a)) = Some x"
    "fk_decode (kr_left (sst_key_range b)) = Some y"
    using assms(1,2) by (auto simp: sst_ok_def Let_def kr_wf_def)
  have "Some x \<le> Some y" using assms(3) xy unfolding kr_order_key_def by (auto simp: less_eq_prod_def)
  then show ?thesis using xy by (auto simp: kr_low_def less_eq_full_key_def)
qed

lemma apart_ordered:
  assumes "sst_ok a" and "sst_ok b" and "sst_before a b \<or> sst_before b a" and "kr_key a \<le> kr_key b"
  shows "sst_before a b"
  using assms sst_before_low [of b a] kr_key_low [of a b] by force

lemma sorted_apart_before:
  assumes "\<forall>s \<in> set ssts. sst_ok s" and "sorted (map kr_key ssts)" and "ssts_apart ssts"
  shows "sorted_wrt sst_before ssts"
  using assms
proof (induction ssts)
  case (Cons a ssts)
  then have "sorted_wrt sst_before ssts" by (simp add: ssts_apart_def)
  moreover have "sst_before a b" if "b \<in> set ssts" for b
    by (rule apart_ordered) (use Cons.prems that in \<open>auto simp: ssts_apart_def\<close>)
  ultimately show ?case by simp
qed simp

lemma sort_and_check_exact:
  assumes "\<forall>s \<in> set ssts. sst_ok s"
  shows "sort_and_check ssts = (if ssts_apart ssts then Some (sort_key kr_key ssts) else None)"
proof -
  let ?out = "sort_key kr_key ssts"
  have s: "sort_ssts ssts = Some ?out" by (rule sort_ssts_sorted) (use assms sst_ok_wf in blast)
  have ok: "\<forall>s \<in> set ?out. sst_ok s" using assms by simp
  have "sorted_wrt sst_before ?out \<longleftrightarrow> ssts_apart ssts"
  proof
    assume "sorted_wrt sst_before ?out"
    then have "sorted_wrt (\<lambda>a b. sst_before a b \<or> sst_before b a) ?out"
      by (rule sorted_wrt_mono_rel [rotated]) blast
    then show "ssts_apart ssts" unfolding ssts_apart_def
      by (subst (asm) sorted_wrt_sort_symm) blast+
  next
    assume "ssts_apart ssts"
    then have "ssts_apart ?out" unfolding ssts_apart_def by (subst sorted_wrt_sort_symm) blast+
    then show "sorted_wrt sst_before ?out" by (intro sorted_apart_before ok) simp_all
  qed
  then show ?thesis using s can_concat_before [OF ok] by (simp add: sort_and_check_def)
qed

section \<open>Applying a compaction\<close>

definition groups_inv :: "levels \<Rightarrow> bool" where
  "groups_inv ls = (subs_inv (l0_sub_levels (lvs_l0 ls)) \<and> base_inv ls)"

lemma get_level_Some:
  assumes "get_level ls n = Some l"
  shows "0 < n" "n - 1 < length (lvs_levels ls)" "l = lvs_levels ls ! (n - 1)"
  using assms by (auto simp: get_level_def split: if_splits)

lemma level_ssts_set_level:
  assumes "get_level ls n = Some l0"
  shows "level_ssts (set_level ls n l) m = (if m = n then mset (lvl_table_infos l) else level_ssts ls m)"
  using get_level_Some [OF assms]
  by (auto simp: level_ssts_def set_level_def nth_list_update split: if_splits)

lemma base_inv_set_level:
  assumes "base_inv ls" and "get_level ls n = Some l0" and "level_inv l"
    and "lvl_type l = Nonoverlapping" and "lvl_idx l = lvl_idx l0"
  shows "base_inv (set_level ls n l)"
  using assms get_level_Some [OF assms(2)] by (auto simp: base_inv_def set_level_def nth_list_update)

lemma level_inv_get:
  assumes "groups_inv ls" and "get_level ls n = Some l"
  shows "level_inv l" and "lvl_type l = Nonoverlapping"
  using assms get_level_Some [OF assms(2)] by (auto simp: groups_inv_def base_inv_def)

lemma concat_delete:
  "mset (concat (map lvl_table_infos (map (\<lambda>l. level_delete_ssts l ids) subs)))
     = filter_mset (\<lambda>t. sst_id t \<notin> set ids) (mset (concat (map lvl_table_infos subs)))"
  by (induction subs) simp_all

lemma set_level_l0 [simp]: "lvs_l0 (set_level ls n l) = lvs_l0 ls"
  by (simp add: set_level_def)

lemma compact_delete_correct:
  assumes "groups_inv ls" and "compact_delete ls idx ids = Some ls'"
  shows "groups_inv ls'"
    and "level_ssts ls' m = (if m = unat idx
      then filter_mset (\<lambda>t. sst_id t \<notin> set ids) (level_ssts ls m) else level_ssts ls m)"
proof -
  consider "ids = []" "ls' = ls" | "ids \<noteq> []" "idx = 0"
      "ls' = ls\<lparr>lvs_l0 := (lvs_l0 ls)\<lparr>l0_sub_levels :=
               map (\<lambda>l. level_delete_ssts l ids) (l0_sub_levels (lvs_l0 ls))\<rparr>\<rparr>"
    | l where "ids \<noteq> []" "idx \<noteq> 0" "get_level ls (unat idx) = Some l"
      "ls' = set_level ls (unat idx) (level_delete_ssts l ids)"
    using assms(2) by (auto simp: compact_delete_def split: if_splits Option.bind_splits)
  then have "groups_inv ls' \<and> level_ssts ls' m = (if m = unat idx
      then filter_mset (\<lambda>t. sst_id t \<notin> set ids) (level_ssts ls m) else level_ssts ls m)"
  proof cases
    case 2
    have "subs_inv (map (\<lambda>l. level_delete_ssts l ids) (l0_sub_levels (lvs_l0 ls)))"
      using assms(1) by (auto simp: groups_inv_def subs_inv_def level_delete_ssts_inv comp_def)
    then have "groups_inv ls'" using assms(1) 2(3) by (simp add: groups_inv_def base_inv_def)
    moreover have "level_ssts ls' 0 = filter_mset (\<lambda>t. sst_id t \<notin> set ids) (level_ssts ls 0)"
      using concat_delete [of ids "l0_sub_levels (lvs_l0 ls)"] by (simp add: 2(3) level_ssts_def)
    moreover have "level_ssts ls' m = level_ssts ls m" if "m \<noteq> 0"
      using that by (simp add: 2(3) level_ssts_def)
    ultimately show ?thesis using 2(2) by auto
  next
    case 3
    note g = level_inv_get [OF assms(1) 3(3)]
    have "base_inv (set_level ls (unat idx) (level_delete_ssts l ids))"
      by (rule base_inv_set_level [OF _ 3(3)])
        (use assms(1) g in \<open>simp_all add: groups_inv_def level_delete_ssts_inv\<close>)
    then have "groups_inv ls'" using assms(1) 3(4) by (simp add: groups_inv_def)
    moreover have "level_ssts ls (unat idx) = mset (lvl_table_infos l)"
      using get_level_Some [OF 3(3)] by (simp add: level_ssts_def)
    ultimately show ?thesis by (simp add: 3(4) level_ssts_set_level [OF 3(3)])
  qed (use assms(1) in simp_all)
  then show "groups_inv ls'" and "level_ssts ls' m = (if m = unat idx
      then filter_mset (\<lambda>t. sst_id t \<notin> set ids) (level_ssts ls m) else level_ssts ls m)" by simp_all
qed

lemma level_inv_partition_count [simp]: "level_inv (l\<lparr>lvl_vnode_partition_count := c\<rparr>) = level_inv l"
  by (simp add: level_inv_def level_sizes_ok_def)

lemma concat_update:
  assumes "i < length subs" and "mset (lvl_table_infos l) = mset (lvl_table_infos (subs ! i)) + M"
  shows "mset (concat (map lvl_table_infos (subs[i := l]))) = mset (concat (map lvl_table_infos subs)) + M"
proof -
  have "mset (concat (map lvl_table_infos (take i subs @ subs ! i # drop (Suc i) subs)))
      = mset (concat (map lvl_table_infos subs))"
    using assms(1) by (simp only: id_take_nth_drop [symmetric])
  then show ?thesis using assms by (simp add: upd_conv_take_nth_drop ac_simps)
qed

lemma compact_insert_cases:
  assumes "compact_insert ls d ids = Some ls'"
  obtains "ild_inserted_table_infos d = []" "ls' = ls"
  | i l c l' where "ild_inserted_table_infos d \<noteq> []" "ild_level_idx d = 0" "i < length (l0_sub_levels (lvs_l0 ls))"
    "l = l0_sub_levels (lvs_l0 ls) ! i" "lvl_sub_level_id l = ild_l0_sub_level_id d"
    "level_insert_ssts (l\<lparr>lvl_vnode_partition_count := c\<rparr>) (ild_inserted_table_infos d) = Some l'"
    "ls' = set_sub_level ls i l'"
  | l c l' where "ild_inserted_table_infos d \<noteq> []" "ild_level_idx d \<noteq> 0" "get_level ls (unat (ild_level_idx d)) = Some l"
    "level_insert_ssts (l\<lparr>lvl_vnode_partition_count := c\<rparr>) (ild_inserted_table_infos d) = Some l'"
    "ls' = set_level ls (unat (ild_level_idx d)) l'"
proof (cases "ild_inserted_table_infos d = []")
  case True
  then show ?thesis using assms that(1) by (simp add: compact_insert_def)
next
  case ne: False
  have same: "l\<lparr>lvl_vnode_partition_count := lvl_vnode_partition_count l\<rparr> = l" for l :: level by simp
  show ?thesis
  proof (cases "ild_level_idx d = 0")
    case True
    define i where "i = partition_point (\<lambda>l. lvl_sub_level_id l < ild_l0_sub_level_id d) (l0_sub_levels (lvs_l0 ls))"
    define l where "l = l0_sub_levels (lvs_l0 ls) ! i"
    define c where "c = (if lvl_table_infos l = [] \<and> length ids = 1
        \<and> list_all (\<lambda>s. sst_table_ids s = [hd ids]) (ild_inserted_table_infos d)
        then ild_vnode_partition_count d else lvl_vnode_partition_count l)"
    have c: "(if lvl_table_infos l = [] \<and> length ids = 1
        \<and> list_all (\<lambda>s. sst_table_ids s = [hd ids]) (ild_inserted_table_infos d)
        then l\<lparr>lvl_vnode_partition_count := ild_vnode_partition_count d\<rparr> else l)
        = l\<lparr>lvl_vnode_partition_count := c\<rparr>"
      by (simp add: c_def)
    have i: "i < length (l0_sub_levels (lvs_l0 ls))" "lvl_sub_level_id l = ild_l0_sub_level_id d"
      using assms ne True by (auto simp: compact_insert_def Let_def i_def l_def split: if_splits)
    then have "do { lvl' \<leftarrow> level_insert_ssts (l\<lparr>lvl_vnode_partition_count := c\<rparr>) (ild_inserted_table_infos d);
        Some (set_sub_level ls i lvl') } = Some ls'"
      using assms ne True unfolding compact_insert_def Let_def i_def [symmetric] l_def [symmetric] c by simp
    then show ?thesis using that(2) [OF ne True i(1) l_def i(2)] by (auto split: Option.bind_splits)
  next
    case False
    then obtain l where l: "get_level ls (unat (ild_level_idx d)) = Some l"
      using assms ne by (cases "get_level ls (unat (ild_level_idx d))") (auto simp: compact_insert_def Let_def)
    define c where "c = (if lvl_table_infos l = [] \<and> list_all (\<lambda>s. length (sst_table_ids s) = 1) (ild_inserted_table_infos d)
        then ild_vnode_partition_count d
        else if lvl_vnode_partition_count l \<noteq> 0 \<and> ild_vnode_partition_count d = 0 \<and> length ids > 1
        then 0 else lvl_vnode_partition_count l)"
    have c: "(if lvl_table_infos l = [] \<and> list_all (\<lambda>s. length (sst_table_ids s) = 1) (ild_inserted_table_infos d)
        then l\<lparr>lvl_vnode_partition_count := ild_vnode_partition_count d\<rparr>
        else if lvl_vnode_partition_count l \<noteq> 0 \<and> ild_vnode_partition_count d = 0 \<and> length ids > 1
        then l\<lparr>lvl_vnode_partition_count := 0\<rparr> else l) = l\<lparr>lvl_vnode_partition_count := c\<rparr>"
      by (simp add: c_def)
    have "do { lvl' \<leftarrow> level_insert_ssts (l\<lparr>lvl_vnode_partition_count := c\<rparr>) (ild_inserted_table_infos d);
        Some (set_level ls (unat (ild_level_idx d)) lvl') } = Some ls'"
      using assms ne False unfolding compact_insert_def Let_def l bind.bind_lunit c by simp
    then show ?thesis using that(3) [OF ne False l] by (auto split: Option.bind_splits)
  qed
qed

lemma compact_insert_correct:
  assumes "groups_inv ls" and "\<forall>s \<in> set (ild_inserted_table_infos d). sst_ok s"
    and "compact_insert ls d ids = Some ls'"
  shows "groups_inv ls' \<and> level_ssts ls' m = (if m = unat (ild_level_idx d)
      then level_ssts ls m + mset (ild_inserted_table_infos d) else level_ssts ls m)"
  using assms(3)
proof (cases rule: compact_insert_cases)
  case (2 i l c l')
  let ?subs = "l0_sub_levels (lvs_l0 ls)"
  have subs: "subs_inv ?subs" using assms(1) by (simp add: groups_inv_def)
  then have "level_inv (l\<lparr>lvl_vnode_partition_count := c\<rparr>)" using 2(3,4) by (auto simp: subs_inv_def)
  note ins = level_insert_ssts_inv [OF this assms(2) 2(6)]
  have "subs_inv (?subs[i := l'])"
    by (rule subs_inv_update [OF subs 2(3) ins(1)]) (use ins(3) 2(4) in simp)
  then have "groups_inv ls'" using assms(1) by (simp add: 2(7) groups_inv_def set_sub_level_def base_inv_def)
  moreover have "level_ssts ls' 0 = level_ssts ls 0 + mset (ild_inserted_table_infos d)"
    using concat_update [OF 2(3), of l'] ins(2) 2(4) by (simp add: 2(7) level_ssts_def set_sub_level_def)
  moreover have "level_ssts ls' m = level_ssts ls m" if "m \<noteq> 0"
    using that by (simp add: 2(7) level_ssts_def set_sub_level_def)
  ultimately show ?thesis using 2(2) by auto
next
  case (3 l c l')
  note g = level_inv_get [OF assms(1) 3(3)]
  then have "level_inv (l\<lparr>lvl_vnode_partition_count := c\<rparr>)" by simp
  note ins = level_insert_ssts_inv [OF this assms(2) 3(4)]
  have "base_inv (set_level ls (unat (ild_level_idx d)) l')"
    by (rule base_inv_set_level [OF _ 3(3) ins(1)])
      (use assms(1) g(2) ins(4,5) in \<open>simp_all add: groups_inv_def\<close>)
  then have "groups_inv ls'" using assms(1) 3(5) by (simp add: groups_inv_def)
  moreover have "level_ssts ls (unat (ild_level_idx d)) = mset (lvl_table_infos l)"
    using get_level_Some [OF 3(3)] by (simp add: level_ssts_def)
  ultimately show ?thesis using ins(2) by (simp add: 3(5) level_ssts_set_level [OF 3(3)])
qed (use assms(1) in simp)

lemma check_sst_ids_exist_single:
  "check_sst_ids_exist ls [idx] ids =
     (if idx = 0 \<or> unat idx \<le> length (lvs_levels ls)
      then Some (\<forall>i \<in> set ids. \<exists>s \<in># level_ssts ls (unat idx). sst_id s = i) else None)"
proof (cases "idx = 0")
  case True
  then show ?thesis by (force simp: level_ssts_def filter_empty_conv)
next
  case False
  then have "0 < unat idx" by (simp add: unat_gt_0)
  with False show ?thesis by (force simp: level_ssts_def filter_empty_conv get_level_def)
qed

lemma post_apply_inv: "groups_inv ls \<Longrightarrow> levels_inv (post_apply_l0_compact ls)"
  by (auto simp: groups_inv_def levels_inv_def l0_inv_def subs_inv_def post_apply_l0_compact_def Let_def
      base_inv_def sorted_wrt_map intro: sorted_wrt_filter)


lemma apply_compact_correct:
  assumes "groups_inv ls" and "\<forall>s \<in> set (ild_inserted_table_infos d). sst_ok s"
    and "apply_compact_ssts ls d ids = Some ls'"
  shows "groups_inv ls'"
    and "level_ssts ls' m =
      (if m = unat (ild_level_idx d)
          \<and> (\<forall>i \<in> set (ild_removed_table_ids d). \<exists>s \<in># level_ssts ls m. sst_id s = i)
       then filter_mset (\<lambda>t. sst_id t \<notin> set (ild_removed_table_ids d)) (level_ssts ls m)
            + mset (ild_inserted_table_infos d)
       else level_ssts ls m)"
proof -
  let ?e = "\<forall>i \<in> set (ild_removed_table_ids d). \<exists>s \<in># level_ssts ls (unat (ild_level_idx d)). sst_id s = i"
  have e: "check_sst_ids_exist ls [ild_level_idx d] (ild_removed_table_ids d) = Some ?e"
    using assms(3) unfolding apply_compact_ssts_def check_sst_ids_exist_single
    by (simp split: if_splits)
  have "groups_inv ls' \<and> level_ssts ls' m =
      (if m = unat (ild_level_idx d) \<and> ?e
       then filter_mset (\<lambda>t. sst_id t \<notin> set (ild_removed_table_ids d)) (level_ssts ls m)
            + mset (ild_inserted_table_infos d)
       else level_ssts ls m)"
  proof (cases ?e)
    case True
    then obtain ls1 where ls1: "compact_delete ls (ild_level_idx d) (ild_removed_table_ids d) = Some ls1"
      "compact_insert ls1 d ids = Some ls'"
      using assms(3) e unfolding apply_compact_ssts_def e by (auto split: Option.bind_splits)
    note del = compact_delete_correct [OF assms(1) ls1(1)]
    show ?thesis using compact_insert_correct [OF del(1) assms(2) ls1(2), of m] True by (auto simp: del(2))
  next
    case False
    then have "ls' = ls" using assms(3) unfolding apply_compact_ssts_def e by simp
    then show ?thesis using assms(1) False by auto
  qed
  then show "groups_inv ls'"
    and "level_ssts ls' m =
      (if m = unat (ild_level_idx d)
          \<and> (\<forall>i \<in> set (ild_removed_table_ids d). \<exists>s \<in># level_ssts ls m. sst_id s = i)
       then filter_mset (\<lambda>t. sst_id t \<notin> set (ild_removed_table_ids d)) (level_ssts ls m)
            + mset (ild_inserted_table_infos d)
       else level_ssts ls m)" by auto
qed

section \<open>When a compaction panics\<close>

lemma partition_point_sub_level:
  assumes "sorted_wrt (<) (map lvl_sub_level_id subs)"
  shows "(let index = partition_point (\<lambda>l. lvl_sub_level_id l < i) subs in
      index < length subs \<and> lvl_sub_level_id (subs ! index) = i) \<longleftrightarrow> i \<in> lvl_sub_level_id ` set subs"
proof -
  let ?p = "\<lambda>l. lvl_sub_level_id l < i"
  have p: "partitioned ?p subs"
    using assms unfolding sorted_wrt_map by (rule partitioned_sorted_wrt) auto
  have "partition_point ?p subs < length subs \<and> lvl_sub_level_id (subs ! partition_point ?p subs) = i"
    if x: "x \<in> set subs" "lvl_sub_level_id x = i" for x
  proof -
    obtain j where j: "j < length subs" "lvl_sub_level_id (subs ! j) = i"
      using x by (auto simp: in_set_conv_nth)
    then have "\<not> j < partition_point ?p subs" by (simp add: partition_point_less_iff [OF p])
    moreover have "\<not> partition_point ?p subs < j"
    proof
      assume lt: "partition_point ?p subs < j"
      then have "lvl_sub_level_id (subs ! partition_point ?p subs) < i"
        using sorted_wrt_nth_less [OF assms, of "partition_point ?p subs" j] j by simp
      then show False using partition_point_less_iff [OF p, of "partition_point ?p subs"] lt j(1) by simp
    qed
    ultimately have "j = partition_point ?p subs" by simp
    with j show ?thesis by simp
  qed
  moreover have "i \<in> lvl_sub_level_id ` set subs"
    if "j < length subs" "lvl_sub_level_id (subs ! j) = i" for j
    using that nth_mem [of j subs] by blast
  ultimately show ?thesis by (auto simp: Let_def)
qed

lemma level_insert_ssts_None:
  assumes "level_inv l" and "\<forall>s \<in> set ssts. sst_ok s"
  shows "level_insert_ssts l ssts = None \<longleftrightarrow> \<not> ssts_apart (lvl_table_infos l @ ssts)"
proof -
  have "\<forall>s \<in> set (lvl_table_infos l @ ssts). sst_ok s" using assms by (auto simp: level_inv_def)
  then show ?thesis by (simp add: level_insert_ssts_def sort_and_check_exact)
qed


text \<open>The tables a compaction adds its output to.\<close>

definition target_level :: "levels \<Rightarrow> intra_level_delta \<Rightarrow> level option" where
  "target_level ls d =
     (if ild_level_idx d = 0
      then List.find (\<lambda>l. lvl_sub_level_id l = ild_l0_sub_level_id d) (l0_sub_levels (lvs_l0 ls))
      else get_level ls (unat (ild_level_idx d)))"

lemma compact_insert_total:
  assumes "groups_inv ls" and "\<forall>s \<in> set (ild_inserted_table_infos d). sst_ok s"
    and "target_level ls d = Some l" and "ssts_apart (lvl_table_infos l @ ild_inserted_table_infos d)"
  shows "compact_insert ls d ids \<noteq> None"
proof (cases "ild_inserted_table_infos d = []")
  case ne: False
  let ?subs = "l0_sub_levels (lvs_l0 ls)"
  have ins: "level_insert_ssts (l\<lparr>lvl_vnode_partition_count := c\<rparr>) (ild_inserted_table_infos d) \<noteq> None"
    if "level_inv l" for c
    using that assms(2,4) by (simp add: level_insert_ssts_None)
  have ins': "level_insert_ssts l (ild_inserted_table_infos d) \<noteq> None" if "level_inv l"
    using that assms(2,4) by (simp add: level_insert_ssts_None)
  show ?thesis
  proof (cases "ild_level_idx d = 0")
    case True
    then have f: "l \<in> set ?subs" "lvl_sub_level_id l = ild_l0_sub_level_id d"
      using assms(3) by (auto simp: target_level_def find_Some_iff)
    have sorted: "sorted_wrt (<) (map lvl_sub_level_id ?subs)"
      using assms(1) by (simp add: groups_inv_def subs_inv_def)
    define i where "i = partition_point (\<lambda>l. lvl_sub_level_id l < ild_l0_sub_level_id d) ?subs"
    have "ild_l0_sub_level_id d \<in> lvl_sub_level_id ` set ?subs" using f by (metis imageI)
    then have i: "i < length ?subs" "lvl_sub_level_id (?subs ! i) = ild_l0_sub_level_id d"
      using partition_point_sub_level [OF sorted, of "ild_l0_sub_level_id d"] by (simp_all add: i_def Let_def)
    have "?subs ! i = l"
      using f i sorted by (metis in_set_conv_nth length_map nth_eq_iff_index_eq nth_map strict_sorted_iff)
    moreover have "level_inv l" using assms(1) f(1) by (auto simp: groups_inv_def subs_inv_def)
    ultimately show ?thesis using ne True i ins [of "ild_vnode_partition_count d"] ins'
      by (auto simp: compact_insert_def Let_def i_def [symmetric])
  next
    case False
    then have "get_level ls (unat (ild_level_idx d)) = Some l" using assms(3) by (simp add: target_level_def)
    with False ne ins [of "ild_vnode_partition_count d"] ins [of 0] ins' level_inv_get(1) [OF assms(1)]
    show ?thesis
      by (auto simp: compact_insert_def Let_def)
  qed
qed (simp add: compact_insert_def)

section \<open>Properties of the levels of a group\<close>

text \<open>
  What a compaction promises: the tables of its level that it names are replaced by its output;
  a compaction that names a table its level does not hold (an expired one) changes nothing.
\<close>

definition compact_spec ::
    "(nat \<Rightarrow> sstable_info multiset) \<Rightarrow> intra_level_delta \<Rightarrow> nat \<Rightarrow> sstable_info multiset" where
  "compact_spec tables d =
     (let n = unat (ild_level_idx d) in
      if set (ild_removed_table_ids d) \<subseteq> sst_id ` set_mset (tables n)
      then tables(n := filter_mset (\<lambda>t. sst_id t \<notin> set (ild_removed_table_ids d)) (tables n)
                       + mset (ild_inserted_table_infos d))
      else tables)"

lemma levels_inv_groups: "levels_inv ls \<Longrightarrow> groups_inv ls"
  by (simp add: levels_inv_def l0_inv_def groups_inv_def)

lemma level_ssts_post_apply [simp]: "level_ssts (post_apply_l0_compact ls) = level_ssts ls"
proof
  fix n
  have "concat (map lvl_table_infos (filter (\<lambda>l. lvl_table_infos l \<noteq> []) subs))
      = concat (map lvl_table_infos subs)" for subs :: "level list"
    by (induction subs) auto
  then show "level_ssts (post_apply_l0_compact ls) n = level_ssts ls n"
    by (simp add: level_ssts_def post_apply_l0_compact_def Let_def)
qed

lemma compact_spec_exists:
  "set ids \<subseteq> sst_id ` set_mset M \<longleftrightarrow> (\<forall>i \<in> set ids. \<exists>s \<in># M. sst_id s = i)"
  by (auto simp: subset_iff image_iff eq_commute)

lemma apply_compact_spec:
  assumes "groups_inv ls" and "\<forall>s \<in> set (ild_inserted_table_infos d). sst_ok s"
    and "apply_compact_ssts ls d ids = Some ls'"
  shows "level_ssts ls' = compact_spec (level_ssts ls) d"
proof
  fix m
  show "level_ssts ls' m = compact_spec (level_ssts ls) d m"
    unfolding apply_compact_correct(2) [OF assms] compact_spec_def Let_def compact_spec_exists
    by (cases "m = unat (ild_level_idx d)") auto
qed

lemma compact_delete_target:
  assumes "target_level ls d = Some l" and "compact_delete ls (ild_level_idx d) ids = Some ls'"
  shows "\<exists>l'. target_level ls' d = Some l' \<and>
    lvl_table_infos l' = filter (\<lambda>t. sst_id t \<notin> set ids) (lvl_table_infos l)"
proof (cases "ids = []")
  case True
  then show ?thesis using assms by (auto simp: compact_delete_def)
next
  case ne: False
  have find: "List.find p (map f xs) = map_option f (List.find p xs)"
    if "\<And>x. p (f x) = p x" for p and f :: "level \<Rightarrow> level" and xs
    by (induction xs) (simp_all add: that)
  show ?thesis
  proof (cases "ild_level_idx d = 0")
    case True
    then show ?thesis using assms ne by (auto simp: compact_delete_def target_level_def find)
  next
    case False
    then obtain l where l: "get_level ls (unat (ild_level_idx d)) = Some l"
      using assms(1) by (simp add: target_level_def)
    then show ?thesis using assms ne False get_level_Some [OF l]
      by (auto simp: compact_delete_def target_level_def get_level_def set_level_def)
  qed
qed

lemma apply_compact_total:
  assumes "groups_inv ls" and "\<forall>s \<in> set (ild_inserted_table_infos d). sst_ok s"
    and "target_level ls d = Some l"
    and "ssts_apart (filter (\<lambda>t. sst_id t \<notin> set (ild_removed_table_ids d)) (lvl_table_infos l)
      @ ild_inserted_table_infos d)"
  shows "\<exists>ls'. apply_compact_ssts ls d ids = Some ls'"
proof -
  have idx: "ild_level_idx d = 0 \<or> unat (ild_level_idx d) \<le> length (lvs_levels ls)"
    using assms(3) get_level_Some(1,2) [of ls "unat (ild_level_idx d)"]
    by (fastforce simp: target_level_def split: if_splits)
  have "compact_delete ls (ild_level_idx d) (ild_removed_table_ids d) \<noteq> None"
    using assms(3) by (auto simp: compact_delete_def target_level_def)
  then obtain ls1 where ls1: "compact_delete ls (ild_level_idx d) (ild_removed_table_ids d) = Some ls1" by blast
  obtain l' where l': "target_level ls1 d = Some l'"
    "lvl_table_infos l' = filter (\<lambda>t. sst_id t \<notin> set (ild_removed_table_ids d)) (lvl_table_infos l)"
    using compact_delete_target [OF assms(3) ls1] by blast
  have "compact_insert ls1 d ids \<noteq> None"
    by (rule compact_insert_total [OF compact_delete_correct(1) [OF assms(1) ls1] assms(2) l'(1)])
      (simp add: l'(2) assms(4))
  then show ?thesis using ls1 idx
    unfolding apply_compact_ssts_def check_sst_ids_exist_single by auto
qed

lemma build_initial_inv [simp]:
  "levels_inv (build_initial_compaction_group_levels g n)"
  by (auto simp: levels_inv_def l0_inv_def subs_inv_def base_inv_def level_inv_def level_sizes_ok_def
      level_ok_def build_initial_compaction_group_levels_def)

text \<open>
  C16. Applying a compaction to the levels of a group implements its specification on the tables
  of each level, and with the clean-up of level 0 keeps the invariant: sizes are the sums over
  the tables, sub-level ids ascend, and every level that is not overlapping can be concatenated.
\<close>

theorem apply_compact_refines:
  assumes "levels_inv ls" and "\<forall>s \<in> set (ild_inserted_table_infos d). sst_ok s"
    and "apply_compact_ssts ls d ids = Some ls'"
  shows "level_ssts (post_apply_l0_compact ls') = compact_spec (level_ssts ls) d
    \<and> levels_inv (post_apply_l0_compact ls')"
  using apply_compact_spec [OF levels_inv_groups [OF assms(1)] assms(2,3)]
    post_apply_inv [OF apply_compact_correct(1) [OF levels_inv_groups [OF assms(1)] assms(2,3)]]
  by simp

definition example_delta :: intra_level_delta where
  "example_delta = \<lparr>ild_level_idx = 1, ild_l0_sub_level_id = 0, ild_removed_table_ids = [],
     ild_inserted_table_infos = [sst_of 1 [1] (UserKey 1 [1]) (UserKey 1 [5]),
       sst_of 2 [1] (UserKey 1 [6]) (UserKey 1 [9])], ild_vnode_partition_count = 0\<rparr>"

lemma example_delta_total:
  "\<exists>ls'. apply_compact_ssts (build_initial_compaction_group_levels 2 3) example_delta [1] = Some ls'"
proof (rule apply_compact_total)
  show "groups_inv (build_initial_compaction_group_levels 2 3)" by (simp add: levels_inv_groups)
  show "\<forall>s \<in> set (ild_inserted_table_infos example_delta). sst_ok s"
    by (simp add: example_delta_def less_eq_user_key_def)
  show "target_level (build_initial_compaction_group_levels 2 3) example_delta =
      Some (lvs_levels (build_initial_compaction_group_levels 2 3) ! 0)"
    by (simp add: target_level_def example_delta_def get_level_def build_initial_compaction_group_levels_def)
  show "ssts_apart (filter (\<lambda>t. sst_id t \<notin> set (ild_removed_table_ids example_delta))
      (lvl_table_infos (lvs_levels (build_initial_compaction_group_levels 2 3) ! 0))
      @ ild_inserted_table_infos example_delta)"
    by (simp add: example_delta_def build_initial_compaction_group_levels_def ssts_apart_def
        less_eq_user_key_def del: sst_of_simps)
qed

theorem apply_compact_refines_witness:
  "\<exists>ls'. apply_compact_ssts (build_initial_compaction_group_levels 2 3) example_delta [1] = Some ls'
     \<and> levels_inv (post_apply_l0_compact ls')
     \<and> level_ssts (post_apply_l0_compact ls') 1 = mset (ild_inserted_table_infos example_delta)"
proof -
  obtain ls' where ls': "apply_compact_ssts (build_initial_compaction_group_levels 2 3) example_delta [1] = Some ls'"
    using example_delta_total by blast
  have "\<forall>s \<in> set (ild_inserted_table_infos example_delta). sst_ok s"
    by (simp add: example_delta_def less_eq_user_key_def)
  note r = apply_compact_refines [OF build_initial_inv this ls']
  have "compact_spec (level_ssts (build_initial_compaction_group_levels 2 3)) example_delta 1
      = mset (ild_inserted_table_infos example_delta)"
    by (simp add: compact_spec_def example_delta_def level_ssts_def build_initial_compaction_group_levels_def)
  with r ls' show ?thesis by auto
qed

text \<open>
  C17. Applying a compaction does not panic when its target level exists and the tables that stay
  there and the inserted ones hold pairwise disjoint user keys.
\<close>

theorem apply_compact_no_panic:
  assumes "levels_inv ls" and "\<forall>s \<in> set (ild_inserted_table_infos d). sst_ok s"
    and "target_level ls d = Some l"
    and "ssts_apart (filter (\<lambda>t. sst_id t \<notin> set (ild_removed_table_ids d)) (lvl_table_infos l)
      @ ild_inserted_table_infos d)"
  shows "\<exists>ls'. apply_compact_ssts ls d ids = Some ls'"
  by (rule apply_compact_total [OF levels_inv_groups [OF assms(1)] assms(2,3,4)])

theorem apply_compact_no_panic_witness:
  "\<exists>ls'. apply_compact_ssts (build_initial_compaction_group_levels 2 3) example_delta [1] = Some ls'"
  by (rule apply_compact_no_panic [where l = "lvs_levels (build_initial_compaction_group_levels 2 3) ! 0"])
    (simp_all add: example_delta_def less_eq_user_key_def target_level_def get_level_def
      build_initial_compaction_group_levels_def ssts_apart_def levels_inv_def l0_inv_def subs_inv_def
      base_inv_def level_inv_def level_sizes_ok_def level_ok_def right_reaches_def kr_new_def)

end
