(* ===== verification/Group_Split.thy ===== *)
theory Group_Split
  imports Level_Ops
begin

text \<open>
  Splitting and merging compaction groups, the module \<open>group_split\<close> of
  \<^verbatim>\<open>storage/hummock_sdk/src/compaction_group/mod.rs\<close>. A split key is a full key with vnode 0 and
  the largest epoch, so that it sorts before every version of every key of its table. The
  lemmas show that a split neither loses nor duplicates a user key.
\<close>

section \<open>Split keys\<close>

text \<open>\<open>strict_add\<close> panics on overflow.\<close>

definition build_split_full_key :: "table_id \<Rightarrow> vnode \<Rightarrow> full_key option" where
  "build_split_full_key table_id v =
     do { (table_id, v) \<leftarrow>
            (if vnode_max_representable = v
             then (if table_id = - 1 then None else Some (table_id + 1, 0))
             else Some (table_id, v));
          Some (fk_new table_id (be_u16 v) (- 1)) }"

definition build_split_key :: "table_id \<Rightarrow> vnode \<Rightarrow> bytes option" where
  "build_split_key table_id v = map_option fk_encode (build_split_full_key table_id v)"

datatype sst_split_type = SplitLeft | SplitRight | SplitBoth

definition need_to_split :: "sstable_info \<Rightarrow> bytes \<Rightarrow> sst_split_type option" where
  "need_to_split s split_key =
     (let r = sst_key_range s in
      do { c \<leftarrow> compare_encoded_full_key split_key (kr_left r);
           if c \<noteq> Greater then Some SplitRight
           else do {
             c \<leftarrow> compare_encoded_full_key split_key (kr_right r);
             if kr_right_exclusive r
             then (if c \<noteq> Less then Some SplitLeft else Some SplitBoth)
             else (if c = Greater then Some SplitLeft else Some SplitBoth) } })"

section \<open>Splitting one table\<close>

definition split_table_ids_with_table_id_and_vnode ::
    "u32 list \<Rightarrow> table_id \<Rightarrow> nat \<Rightarrow> (u32 list \<times> u32 list) option" where
  "split_table_ids_with_table_id_and_vnode table_ids table_id v =
     (if \<not> sorted table_ids then None
      else if vnode_from_index v \<noteq> 0 then None
      else (let pos = partition_point (\<lambda>i. i < table_id) table_ids
            in Some (take pos table_ids, drop pos table_ids)))"

definition split_table_ids_with_split_key :: "u32 list \<Rightarrow> bytes \<Rightarrow> (u32 list \<times> u32 list) option" where
  "split_table_ids_with_split_key table_ids split_key =
     (if \<not> sorted table_ids then None
      else do { fk \<leftarrow> fk_decode split_key;
                v \<leftarrow> uk_get_vnode_id (fk_user_key fk);
                split_table_ids_with_table_id_and_vnode table_ids (uk_table_id (fk_user_key fk)) v })"

definition split_sst ::
    "sstable_info \<Rightarrow> u64 \<Rightarrow> bytes \<Rightarrow> u64 \<Rightarrow> u64 \<Rightarrow>
       ((sstable_info option \<times> sstable_info option) \<times> u64) option" where
  "split_sst s new_sst_id split_key left_size right_size =
     (let r = sst_key_range s;
          range_l = \<lparr>kr_left = kr_left r, kr_right = split_key, kr_right_exclusive = True\<rparr>;
          range_r = \<lparr>kr_left = split_key, kr_right = kr_right r,
                     kr_right_exclusive = kr_right_exclusive r\<rparr> in
      do { (ids_l, ids_r) \<leftarrow> split_table_ids_with_split_key (sst_table_ids s) split_key;
           let origin = s\<lparr>sst_id := new_sst_id + 1, sst_key_range := range_l,
                          sst_size := left_size, sst_table_ids := ids_l\<rparr>;
           let branch = s\<lparr>sst_id := new_sst_id, sst_key_range := range_r,
                          sst_size := right_size, sst_table_ids := ids_r\<rparr>;
           if ids_l = [] then Some ((None, Some branch), new_sst_id + 2)
           else if ids_r = [] then Some ((Some origin, None), new_sst_id + 2)
           else do {
             c \<leftarrow> compare_encoded_full_key (kr_left range_l) (kr_right range_l);
             if c = Equal then Some ((None, Some branch), new_sst_id + 2)
             else Some ((Some origin, Some branch), new_sst_id + 2) } })"

text \<open>The older split by table ids keeps the key range.\<close>

definition split_sst_with_table_ids ::
    "sstable_info \<Rightarrow> u64 \<Rightarrow> u64 \<Rightarrow> u64 \<Rightarrow> u32 list \<Rightarrow> (sstable_info \<times> sstable_info) \<times> u64" where
  "split_sst_with_table_ids s new_sst_id old_sst_size new_sst_size new_table_ids =
     (let inter = sorted_list_of_set (set (sst_table_ids s) \<inter> set new_table_ids);
          branch = s\<lparr>sst_id := new_sst_id, sst_size := new_sst_size, sst_table_ids := inter\<rparr>;
          origin = s\<lparr>sst_id := new_sst_id + 1, sst_size := old_sst_size,
                     sst_table_ids := filter (\<lambda>t. t \<notin> set inter) (sst_table_ids s)\<rparr>
      in ((origin, branch), new_sst_id + 2))"

section \<open>Splitting a level\<close>

definition get_split_pos :: "sstable_info list \<Rightarrow> bytes \<Rightarrow> nat option" where
  "get_split_pos ssts split_key =
     map_option (\<lambda>p. p - 1)
       (partition_point_opt (\<lambda>s. map_option (\<lambda>c. c = Less)
          (compare_encoded_full_key (kr_left (sst_key_range s)) split_key)) ssts)"

text \<open>What the loop does with one table: the part kept and the part moved.\<close>

definition split_one ::
    "bytes \<Rightarrow> sstable_info \<Rightarrow> u64 \<Rightarrow> ((sstable_info option \<times> sstable_info option) \<times> u64) option" where
  "split_one split_key s new_sst_id =
     do { ty \<leftarrow> need_to_split s split_key;
          case ty of
            SplitLeft \<Rightarrow> Some ((Some s, None), new_sst_id)
          | SplitRight \<Rightarrow> Some ((None, Some s), new_sst_id)
          | SplitBoth \<Rightarrow> split_sst s new_sst_id split_key (sst_size s div 2) (sst_size s div 2) }"

text \<open>The \<open>retain_mut\<close> loop over an overlapping level: kept tables, moved tables, next id.\<close>

primrec split_overlapping ::
    "bytes \<Rightarrow> sstable_info list \<Rightarrow> u64 \<Rightarrow> ((sstable_info list \<times> sstable_info list) \<times> u64) option" where
  "split_overlapping split_key [] new_sst_id = Some (([], []), new_sst_id)"
| "split_overlapping split_key (s # ssts) new_sst_id =
     do { ((l, r), new_sst_id) \<leftarrow> split_one split_key s new_sst_id;
          ((kept, moved), new_sst_id) \<leftarrow> split_overlapping split_key ssts new_sst_id;
          Some ((case l of None \<Rightarrow> kept | Some x \<Rightarrow> x # kept,
                 case r of None \<Rightarrow> moved | Some x \<Rightarrow> x # moved), new_sst_id) }"

definition split_nonoverlapping ::
    "bytes \<Rightarrow> sstable_info list \<Rightarrow> u64 \<Rightarrow> ((sstable_info list \<times> sstable_info list) \<times> u64) option" where
  "split_nonoverlapping split_key ssts new_sst_id =
     do { pos \<leftarrow> get_split_pos ssts split_key;
          if pos \<ge> length ssts then Some ((ssts, []), new_sst_id)
          else do {
            ty \<leftarrow> need_to_split (ssts ! pos) split_key;
            case ty of
              SplitLeft \<Rightarrow> Some ((take (pos + 1) ssts, drop (pos + 1) ssts), new_sst_id)
            | SplitRight \<Rightarrow> if pos = 0 then Some (([], drop pos ssts), new_sst_id) else None
            | SplitBoth \<Rightarrow> do {
                let s = ssts ! pos;
                ((l, r), new_sst_id) \<leftarrow>
                  split_sst s new_sst_id split_key (sst_size s div 2) (sst_size s div 2);
                Some ((take pos ssts @ (case l of None \<Rightarrow> [] | Some x \<Rightarrow> [x]),
                       (case r of None \<Rightarrow> [] | Some x \<Rightarrow> [x]) @ drop (pos + 1) ssts), new_sst_id) } } }"

text \<open>The tables moved out, the level with the tables kept, the next id; sizes are not touched.\<close>

definition split_sst_info_for_level_v2 ::
    "level \<Rightarrow> u64 \<Rightarrow> bytes \<Rightarrow> (sstable_info list \<times> level \<times> u64) option" where
  "split_sst_info_for_level_v2 l new_sst_id split_key =
     (if lvl_table_infos l = [] then Some ([], l, new_sst_id)
      else do {
        ((kept, moved), new_sst_id) \<leftarrow>
          (if lvl_type l = Overlapping
           then split_overlapping split_key (lvl_table_infos l) new_sst_id
           else split_nonoverlapping split_key (lvl_table_infos l) new_sst_id);
        Some (moved, l\<lparr>lvl_table_infos := kept\<rparr>, new_sst_id) })"

section \<open>Merging groups\<close>

text \<open>\<open>Err(idx)\<close> is \<open>Inl\<close>: a new sub-level at \<open>idx\<close>; \<open>Ok(idx)\<close> is \<open>Inr\<close>: the sub-level to extend.\<close>

fun sub_level_hint_from :: "nat \<Rightarrow> level list \<Rightarrow> u64 \<Rightarrow> nat + nat" where
  "sub_level_hint_from idx [] sub_level_id = Inl idx"
| "sub_level_hint_from idx (other # rest) sub_level_id =
     (case cmp (lvl_sub_level_id other) sub_level_id of
        Less \<Rightarrow> sub_level_hint_from (idx + 1) rest sub_level_id
      | Equal \<Rightarrow> Inr idx
      | Greater \<Rightarrow> Inl idx)"

definition get_sub_level_insert_hint :: "level list \<Rightarrow> level \<Rightarrow> nat + nat" where
  "get_sub_level_insert_hint target_levels sub_level =
     sub_level_hint_from 0 target_levels (lvl_sub_level_id sub_level)"

primrec merge_sub_levels :: "bool \<Rightarrow> u64 \<Rightarrow> overlapping_level \<Rightarrow> level list \<Rightarrow> overlapping_level option" where
  "merge_sub_levels rewrite next_id l0 [] = Some l0"
| "merge_sub_levels rewrite next_id l0 (s # ss) =
     do { let i = (if rewrite then next_id else lvl_sub_level_id s);
          l0' \<leftarrow> insert_new_sub_level l0 i (lvl_type s) (lvl_table_infos s) None;
          merge_sub_levels rewrite (if rewrite then next_id + 1 else next_id) l0' ss }"

primrec merge_base_levels :: "nat \<Rightarrow> level list \<Rightarrow> level list \<Rightarrow> level list option" where
  "merge_base_levels idx left [] = Some left"
| "merge_base_levels idx left (r # rs) =
     (if lvl_table_infos r = [] then merge_base_levels (idx + 1) left rs
      else if idx < length left then
        (let l = left ! idx; ssts = lvl_table_infos r in
         do { infos \<leftarrow> sort_and_check (lvl_table_infos l @ ssts);
              merge_base_levels (idx + 1)
                (left[idx := l\<lparr>lvl_total_file_size := lvl_total_file_size l + sst_sizes ssts,
                   lvl_uncompressed_file_size := lvl_uncompressed_file_size l + sst_uncompressed_sizes ssts,
                   lvl_table_infos := infos\<rparr>]) rs })
      else None)"

definition merge_levels :: "levels \<Rightarrow> levels \<Rightarrow> levels option" where
  "merge_levels left right =
     (let ids = map (\<lambda>s. lvl_sub_level_id s + 1) (l0_sub_levels (lvs_l0 left));
          next_id = fold max ids 0 in
      do { l0 \<leftarrow> merge_sub_levels (next_id \<noteq> 0) next_id (lvs_l0 left) (l0_sub_levels (lvs_l0 right));
           if \<not> sorted (map lvl_sub_level_id (l0_sub_levels l0)) then None
           else do {
             let l0 = l0\<lparr>l0_sub_levels := map (lvl_vnode_partition_count_update (\<lambda>_. 0)) (l0_sub_levels l0)\<rparr>;
             base \<leftarrow> merge_base_levels 0 (lvs_levels left) (lvs_levels right);
             Some (left\<lparr>lvs_l0 := l0, lvs_levels := base\<rparr>) } })"

section \<open>The user keys a table can hold\<close>

text \<open>A user key carries its two-byte vnode; a table holds keys of its table ids in its range.\<close>

definition uk_valid :: "user_key \<Rightarrow> bool" where
  "uk_valid k = (2 \<le> length (uk_table_key k))"

definition sst_has :: "sstable_info \<Rightarrow> user_key \<Rightarrow> bool" where
  "sst_has s k = (uk_table_id k \<in> set (sst_table_ids s) \<and> kr_contains (sst_key_range s) k)"

definition ssts_have :: "sstable_info list \<Rightarrow> user_key \<Rightarrow> bool" where
  "ssts_have ssts k = (\<exists>s \<in> set ssts. sst_has s k)"

text \<open>A split key: the encoding of the first key of a table.\<close>

definition is_split_key :: "bytes \<Rightarrow> table_id \<Rightarrow> bool" where
  "is_split_key key t = (fk_decode key = Some (FullKey (UserKey t [0, 0]) (- 1)))"

lemma be_u16_zero: "be_u16 0 = [0, 0]"
  by (simp add: be_u16_def nat_be_2)

lemma build_split_key_is_split_key:
  assumes "build_split_key t v = Some key" and "v = 0 \<or> v = vnode_max_representable"
  shows "is_split_key key (if v = 0 then t else t + 1)"
proof -
  have "vnode_max_representable \<noteq> 0"
    using unat_vnode_max_representable by (metis unat_0 zero_neq_numeral)
  then show ?thesis
    using assms by (auto simp: build_split_key_def build_split_full_key_def is_split_key_def fk_new_def
        be_u16_zero ewg_new_from_epoch_def ewg_new_def is_max_epoch_def ewg_new_max_epoch_def
        split: if_splits Option.bind_splits)
qed

lemma first_key_le: "uk_valid k \<Longrightarrow> UserKey t [0, 0] \<le> k \<longleftrightarrow> t \<le> uk_table_id k"
proof -
  assume "uk_valid k"
  then obtain a b rest where "uk_table_key k = a # b # rest"
    unfolding uk_valid_def by (cases "uk_table_key k"; cases "tl (uk_table_key k)") auto
  then have "[0, 0] \<le> uk_table_key k"
    by (auto simp: word_less_eq_iff_unsigned simp flip: word_gt_0 word_neq_0_conv)
  then show ?thesis by (auto simp: less_eq_user_key_def)
qed

lemma less_first_key: "uk_valid k \<Longrightarrow> k < UserKey t [0, 0] \<longleftrightarrow> uk_table_id k < t"
  using first_key_le [of k t] by (meson not_le)

section \<open>Where a table lies relative to the split key\<close>

text \<open>The end points of a table in order: \<open>lo\<close> and \<open>hi\<close> are the user keys of its bounds.\<close>

lemma sst_ok_bounds:
  assumes "sst_ok s"
  obtains l r where "fk_decode (kr_left (sst_key_range s)) = Some l"
    and "fk_decode (kr_right (sst_key_range s)) = Some r"
    and "kr_right_exclusive (sst_key_range s) = (fk_epoch r = - 1)"
    and "kr_low (sst_key_range s) = fk_user_key l"
    and "\<And>k. above_left (sst_key_range s) k \<longleftrightarrow> fk_user_key l \<le> k"
    and "\<And>k. below_right (sst_key_range s) k \<longleftrightarrow>
        (if fk_epoch r = - 1 then k < fk_user_key r else k \<le> fk_user_key r)"
    and "if fk_epoch r = - 1 then fk_user_key l < fk_user_key r else fk_user_key l \<le> fk_user_key r"
proof -
  obtain l r where lr: "fk_decode (kr_left (sst_key_range s)) = Some l"
    "fk_decode (kr_right (sst_key_range s)) = Some r"
    using assms by (auto simp: sst_ok_def Let_def kr_wf_def)
  have ex: "kr_right_exclusive (sst_key_range s) = (fk_epoch r = - 1)"
    using assms lr by (simp add: sst_ok_def Let_def kr_right_normal_def)
  have below: "below_right (sst_key_range s) k \<longleftrightarrow>
      (if fk_epoch r = - 1 then k < fk_user_key r else k \<le> fk_user_key r)" for k
    using assms lr ex by (auto simp: sst_ok_def Let_def below_right_def)
  have above: "above_left (sst_key_range s) k \<longleftrightarrow> fk_user_key l \<le> k" for k
    using assms lr by (auto simp: sst_ok_def Let_def above_left_def)
  have low: "kr_low (sst_key_range s) = fk_user_key l" by (simp add: kr_low_def lr)
  have "below_right (sst_key_range s) (fk_user_key l)"
    using assms low by (simp add: sst_ok_def Let_def kr_contains_def)
  then have "if fk_epoch r = - 1 then fk_user_key l < fk_user_key r else fk_user_key l \<le> fk_user_key r"
    by (simp only: below)
  then show thesis by (rule that [OF lr ex low above below])
qed

lemma split_key_compare:
  assumes "is_split_key key t" and "fk_decode x = Some k"
  shows "compare_encoded_full_key key x = Some (cmp (FullKey (UserKey t [0, 0]) (- 1)) k)"
    and "compare_encoded_full_key x key = Some (cmp k (FullKey (UserKey t [0, 0]) (- 1)))"
  using assms by (simp_all add: is_split_key_def compare_encoded_full_key_decode)

lemma split_full_key_le: "FullKey u (- 1) \<le> k \<longleftrightarrow> u \<le> fk_user_key k"
  by (cases k) (auto simp: less_eq_full_key_def)

lemma split_full_key_gt: "k < FullKey u (- 1) \<longleftrightarrow> fk_user_key k < u"
  using split_full_key_le [of u k] by (meson not_le)

lemma split_full_key_less: "FullKey u (- 1) < k \<longleftrightarrow> u < fk_user_key k \<or> u = fk_user_key k \<and> fk_epoch k \<noteq> - 1"
  using word_order.not_eq_extremum [of "fk_epoch k"] by (cases k) (auto simp: less_full_key_def)

lemma need_to_split_exact:
  assumes "sst_ok s" and "is_split_key key t"
  shows "need_to_split s key = Some
    (if UserKey t [0, 0] \<le> kr_low (sst_key_range s) then SplitRight
     else if below_right (sst_key_range s) (UserKey t [0, 0]) then SplitBoth else SplitLeft)"
proof -
  obtain l r where lr: "fk_decode (kr_left (sst_key_range s)) = Some l"
    "fk_decode (kr_right (sst_key_range s)) = Some r"
    "kr_right_exclusive (sst_key_range s) = (fk_epoch r = - 1)"
    "kr_low (sst_key_range s) = fk_user_key l"
    "\<And>k. below_right (sst_key_range s) k \<longleftrightarrow>
        (if fk_epoch r = - 1 then k < fk_user_key r else k \<le> fk_user_key r)"
    using sst_ok_bounds [OF assms(1)] by metis
  have "fk_user_key l < UserKey t [0, 0] \<longleftrightarrow> \<not> UserKey t [0, 0] \<le> fk_user_key l" by auto
  moreover have "fk_epoch r = - 1 \<Longrightarrow> FullKey (UserKey t [0, 0]) (- 1) < r \<longleftrightarrow> UserKey t [0, 0] < fk_user_key r"
    by (simp add: split_full_key_less)
  moreover have "\<not> r < FullKey (UserKey t [0, 0]) (- 1) \<longleftrightarrow> UserKey t [0, 0] \<le> fk_user_key r"
    by (simp add: split_full_key_gt not_less)
  ultimately show ?thesis
    by (auto simp: need_to_split_def Let_def split_key_compare [OF assms(2) lr(1)]
        split_key_compare [OF assms(2) lr(2)] lr(3,4,5) split_full_key_gt)
qed

section \<open>The two halves of a split table\<close>

definition split_ids_left :: "sstable_info \<Rightarrow> table_id \<Rightarrow> u32 list" where
  "split_ids_left s t = filter (\<lambda>i. i < t) (sst_table_ids s)"

definition split_ids_right :: "sstable_info \<Rightarrow> table_id \<Rightarrow> u32 list" where
  "split_ids_right s t = filter (\<lambda>i. \<not> i < t) (sst_table_ids s)"

lemma split_table_ids_exact:
  assumes "sorted (sst_table_ids s)" and "is_split_key key t"
  shows "split_table_ids_with_split_key (sst_table_ids s) key = Some (split_ids_left s t, split_ids_right s t)"
proof -
  let ?p = "\<lambda>i. i < t" and ?ids = "sst_table_ids s"
  have p: "partitioned ?p ?ids"
    using assms(1) by (rule partitioned_sorted_wrt) auto
  have true: "partitioned (\<lambda>_. True) ?ids" "partitioned (\<lambda>_. False) ?ids" by (simp_all add: partitioned_def)
  have tw: "takeWhile (\<lambda>_. False) ?ids = []" "takeWhile (\<lambda>_. True) ?ids = ?ids"
    by (cases ?ids) (simp_all add: takeWhile_eq_all_conv)
  have l: "take (partition_point ?p ?ids) ?ids = filter ?p ?ids"
    using partition_points_filter [OF true(2) p] by (simp add: partition_point_takeWhile [OF true(2)] tw)
  have r: "drop (partition_point ?p ?ids) ?ids = filter (\<lambda>i. \<not> i < t) ?ids"
    using partition_points_filter [OF p true(1)] by (simp add: partition_point_takeWhile [OF true(1)] tw)
  have "uk_get_vnode_id (UserKey t [0, 0]) = Some 0"
    using vnode_part_be(2) [of 0] by (simp add: uk_get_vnode_id_def be_u16_zero vnode_to_index_def)
  then show ?thesis
    using assms unfolding split_table_ids_with_split_key_def is_split_key_def
      split_table_ids_with_table_id_and_vnode_def
    by (simp add: l r split_ids_left_def split_ids_right_def vnode_from_index_def Let_def)
qed

definition split_left_of :: "sstable_info \<Rightarrow> u64 \<Rightarrow> bytes \<Rightarrow> table_id \<Rightarrow> u64 \<Rightarrow> sstable_info" where
  "split_left_of s i key t sz =
     s\<lparr>sst_id := i + 1, sst_key_range := \<lparr>kr_left = kr_left (sst_key_range s), kr_right = key,
         kr_right_exclusive = True\<rparr>, sst_size := sz, sst_table_ids := split_ids_left s t\<rparr>"

definition split_right_of :: "sstable_info \<Rightarrow> u64 \<Rightarrow> bytes \<Rightarrow> table_id \<Rightarrow> u64 \<Rightarrow> sstable_info" where
  "split_right_of s i key t sz =
     s\<lparr>sst_id := i, sst_key_range := \<lparr>kr_left = key, kr_right = kr_right (sst_key_range s),
         kr_right_exclusive = kr_right_exclusive (sst_key_range s)\<rparr>, sst_size := sz,
       sst_table_ids := split_ids_right s t\<rparr>"

lemma split_sst_exact:
  assumes "sst_ok s" and "is_split_key key t" and "sorted (sst_table_ids s)"
    and "need_to_split s key = Some SplitBoth"
  shows "split_sst s i key a b = Some
    ((if split_ids_left s t = [] then None else Some (split_left_of s i key t a),
      if split_ids_left s t = [] \<or> split_ids_right s t \<noteq> [] then Some (split_right_of s i key t b) else None),
     i + 2)"
proof -
  obtain l r where lr: "fk_decode (kr_left (sst_key_range s)) = Some l"
    "kr_low (sst_key_range s) = fk_user_key l"
    using sst_ok_bounds [OF assms(1)] by metis
  have "\<not> UserKey t [0, 0] \<le> fk_user_key l"
    using assms(4) unfolding need_to_split_exact [OF assms(1,2)] lr(2) by (auto split: if_splits)
  then have "cmp l (FullKey (UserKey t [0, 0]) (- 1)) \<noteq> Equal" by (auto simp: cmp_Equal)
  then show ?thesis
    unfolding split_sst_def Let_def split_table_ids_exact [OF assms(3,2)]
    by (simp add: split_key_compare(2) [OF assms(2) lr(1)] split_left_of_def split_right_of_def)
qed

lemma split_halves:
  assumes "sst_ok s" and "is_split_key key t" and "need_to_split s key = Some SplitBoth"
  shows "sst_ok (split_left_of s i key t a)" and "sst_ok (split_right_of s i key t b)"
    and "uk_valid k \<Longrightarrow> sst_has (split_left_of s i key t a) k \<longleftrightarrow> sst_has s k \<and> k < UserKey t [0, 0]"
    and "uk_valid k \<Longrightarrow> sst_has (split_right_of s i key t b) k \<longleftrightarrow> sst_has s k \<and> UserKey t [0, 0] \<le> k"
proof -
  let ?u = "UserKey t [0, 0]" and ?r = "sst_key_range s"
  have key: "fk_decode key = Some (FullKey ?u (- 1))" using assms(2) by (simp add: is_split_key_def)
  then have nonempty: "key \<noteq> []" by auto
  obtain l r where lr: "fk_decode (kr_left ?r) = Some l" "fk_decode (kr_right ?r) = Some r"
    "kr_right_exclusive ?r = (fk_epoch r = - 1)" "kr_low ?r = fk_user_key l"
    "\<And>k. above_left ?r k \<longleftrightarrow> fk_user_key l \<le> k"
    "\<And>k. below_right ?r k \<longleftrightarrow> (if fk_epoch r = - 1 then k < fk_user_key r else k \<le> fk_user_key r)"
    using sst_ok_bounds [OF assms(1)] by metis
  have both: "fk_user_key l < ?u" "below_right ?r ?u"
    using assms(3) unfolding need_to_split_exact [OF assms(1,2)] lr(4) by (auto split: if_splits)
  have L: "kr_contains (sst_key_range (split_left_of s i key t a)) k \<longleftrightarrow> fk_user_key l \<le> k \<and> k < ?u" for k
    using lr(1) key nonempty by (auto simp: split_left_of_def kr_contains_def above_left_def below_right_def)
  have R: "kr_contains (sst_key_range (split_right_of s i key t b)) k \<longleftrightarrow> ?u \<le> k \<and> below_right ?r k" for k
    using key nonempty by (auto simp: split_right_of_def kr_contains_def above_left_def below_right_def)
  have C: "kr_contains ?r k \<longleftrightarrow> fk_user_key l \<le> k \<and> below_right ?r k" for k
    by (simp add: kr_contains_def lr(5))
  show "sst_ok (split_left_of s i key t a)"
    unfolding sst_ok_def Let_def L using assms(1) lr(1) key nonempty both(1)
    by (simp add: sst_ok_def Let_def split_left_of_def kr_wf_def kr_right_normal_def kr_low_def)
  show "sst_ok (split_right_of s i key t b)"
    unfolding sst_ok_def Let_def R using assms(1) lr(2) key nonempty both(2)
    by (simp add: sst_ok_def Let_def split_right_of_def kr_wf_def kr_right_normal_def kr_low_def)
  assume k: "uk_valid k"
  have "below_right ?r k" if "k < ?u" using both(2) that by (auto intro: below_right_mono)
  moreover have "fk_user_key l \<le> k" if "?u \<le> k" using both(1) that by simp
  moreover have "uk_table_id k \<in> set (split_ids_left s t) \<longleftrightarrow> uk_table_id k \<in> set (sst_table_ids s) \<and> k < ?u"
    "uk_table_id k \<in> set (split_ids_right s t) \<longleftrightarrow> uk_table_id k \<in> set (sst_table_ids s) \<and> ?u \<le> k"
    using first_key_le [OF k, of t] less_first_key [OF k, of t]
    by (auto simp: split_ids_left_def split_ids_right_def)
  ultimately show "sst_has (split_left_of s i key t a) k \<longleftrightarrow> sst_has s k \<and> k < ?u"
    and "sst_has (split_right_of s i key t b) k \<longleftrightarrow> sst_has s k \<and> ?u \<le> k"
    unfolding sst_has_def L R C by (auto simp: split_left_of_def split_right_of_def)
qed

section \<open>Splitting a level partitions its user keys\<close>

text \<open>Every user key of the tables goes left or right of the split key, none twice, none lost.\<close>

definition splits_at ::
    "table_id \<Rightarrow> sstable_info list \<Rightarrow> sstable_info list \<Rightarrow> sstable_info list \<Rightarrow> bool" where
  "splits_at t ssts kept moved =
     ((\<forall>s \<in> set (kept @ moved). sst_ok s)
      \<and> (\<forall>k. uk_valid k \<longrightarrow>
          (ssts_have kept k \<longleftrightarrow> ssts_have ssts k \<and> k < UserKey t [0, 0])
          \<and> (ssts_have moved k \<longleftrightarrow> ssts_have ssts k \<and> UserKey t [0, 0] \<le> k)))"

definition opt_list :: "'a option \<Rightarrow> 'a list" where
  "opt_list x = (case x of None \<Rightarrow> [] | Some y \<Rightarrow> [y])"

lemma opt_list_simps [simp]: "opt_list None = []" "opt_list (Some x) = [x]"
  by (simp_all add: opt_list_def)

lemma ssts_have_append [simp]: "ssts_have (a @ b) k \<longleftrightarrow> ssts_have a k \<or> ssts_have b k"
  by (auto simp: ssts_have_def)

lemma ssts_have_Cons [simp]: "ssts_have (s # b) k \<longleftrightarrow> sst_has s k \<or> ssts_have b k"
  by (auto simp: ssts_have_def)

lemma ssts_have_Nil [simp]: "\<not> ssts_have [] k"
  by (simp add: ssts_have_def)

lemma splits_at_append:
  assumes "splits_at t a k m" and "splits_at t b k' m'"
  shows "splits_at t (a @ b) (k @ k') (m @ m')"
  using assms by (auto simp: splits_at_def)

lemma splits_at_left:
  assumes "\<forall>s \<in> set ssts. sst_ok s" and "\<And>s k. s \<in> set ssts \<Longrightarrow> kr_contains (sst_key_range s) k \<Longrightarrow> k < UserKey t [0, 0]"
  shows "splits_at t ssts ssts []"
  using assms by (fastforce simp: splits_at_def ssts_have_def sst_has_def)

lemma splits_at_right:
  assumes "\<forall>s \<in> set ssts. sst_ok s" and "\<And>s. s \<in> set ssts \<Longrightarrow> UserKey t [0, 0] \<le> kr_low (sst_key_range s)"
  shows "splits_at t ssts [] ssts"
proof -
  have "UserKey t [0, 0] \<le> k" if "s \<in> set ssts" "sst_has s k" for s k
  proof -
    have "kr_low (sst_key_range s) \<le> k"
      using that assms(1) by (auto simp: sst_has_def kr_contains_def sst_ok_wf above_left_iff)
    with assms(2) [OF that(1)] show ?thesis by simp
  qed
  with assms(1) show ?thesis by (fastforce simp: splits_at_def ssts_have_def not_le)
qed

lemma split_one_splits:
  assumes "sst_ok s" and "is_split_key key t" and "sorted (sst_table_ids s)"
  shows "\<exists>l r i'. split_one key s i = Some ((l, r), i') \<and> splits_at t [s] (opt_list l) (opt_list r)"
proof -
  let ?u = "UserKey t [0, 0]"
  consider "?u \<le> kr_low (sst_key_range s)" "need_to_split s key = Some SplitRight"
    | "\<not> ?u \<le> kr_low (sst_key_range s)" "need_to_split s key = Some SplitBoth"
    | "\<not> below_right (sst_key_range s) ?u" "need_to_split s key = Some SplitLeft"
    using need_to_split_exact [OF assms(1,2)] by (auto split: if_splits)
  then show ?thesis
  proof cases
    case 1
    have "splits_at t [s] [] [s]" by (rule splits_at_right) (use assms(1) 1 in simp_all)
    with 1 show ?thesis by (auto simp: split_one_def)
  next
    case 2
    note h = split_halves [OF assms(1,2) 2(2)]
    have l: "split_ids_left s t = [] \<Longrightarrow> \<not> sst_has (split_left_of s i key t a) k" for k a
      by (simp add: sst_has_def split_left_of_def)
    have r: "split_ids_right s t = [] \<Longrightarrow> \<not> sst_has (split_right_of s i key t a) k" for k a
      by (simp add: sst_has_def split_right_of_def)
    let ?h = "sst_size s div 2"
    have "splits_at t [s] (opt_list (if split_ids_left s t = [] then None else Some (split_left_of s i key t ?h)))
        (opt_list (if split_ids_left s t = [] \<or> split_ids_right s t \<noteq> [] then Some (split_right_of s i key t ?h) else None))"
      unfolding splits_at_def
      using h(1,2) h(3) [of _ i ?h] h(4) [of _ i ?h] l [of ?h] r [of ?h] by auto
    with 2 split_sst_exact [OF assms 2(2), of i ?h ?h] show ?thesis by (auto simp: split_one_def)
  next
    case 3
    have "splits_at t [s] [s] []"
    proof (rule splits_at_left)
      fix x k assume "x \<in> set [s]" "kr_contains (sst_key_range x) k"
      then have "below_right (sst_key_range s) k" by (simp add: kr_contains_def)
      then show "k < ?u" using 3(1) below_right_mono [of "sst_key_range s" k ?u] by force
    qed (use assms(1) in simp)
    with 3 show ?thesis by (auto simp: split_one_def)
  qed
qed

lemma split_overlapping_splits:
  assumes "\<forall>s \<in> set ssts. sst_ok s \<and> sorted (sst_table_ids s)" and "is_split_key key t"
  shows "\<exists>kept moved i'. split_overlapping key ssts i = Some ((kept, moved), i') \<and> splits_at t ssts kept moved"
  using assms(1)
proof (induction ssts arbitrary: i)
  case Nil
  then show ?case by (simp add: splits_at_def)
next
  case (Cons s ssts)
  obtain l r i1 where one: "split_one key s i = Some ((l, r), i1)" "splits_at t [s] (opt_list l) (opt_list r)"
    using split_one_splits [of s key t i] Cons.prems assms(2) by auto
  obtain kept moved i2 where rest: "split_overlapping key ssts i1 = Some ((kept, moved), i2)"
    "splits_at t ssts kept moved"
    using Cons.IH [of i1] Cons.prems by auto
  have "splits_at t (s # ssts) (opt_list l @ kept) (opt_list r @ moved)"
    using splits_at_append [OF one(2) rest(2)] by simp
  then show ?case using one(1) rest(1) by (auto simp: opt_list_def split: option.splits)
qed

lemma sst_before_shrink:
  assumes "sst_ok a" "sst_ok b" "sst_ok a'" "sst_ok b'" "sst_before a b"
    and "\<And>k. kr_contains (sst_key_range a') k \<Longrightarrow> kr_contains (sst_key_range a) k"
    and "\<And>k. kr_contains (sst_key_range b') k \<Longrightarrow> kr_contains (sst_key_range b) k"
  shows "sst_before a' b'"
  using assms unfolding sst_before_keys [OF assms(1,2)] sst_before_keys [OF assms(3,4)] by blast

lemma split_halves_contain:
  assumes "sst_ok s" and "is_split_key key t" and "need_to_split s key = Some SplitBoth"
  shows "kr_contains (sst_key_range (split_left_of s i key t a)) k \<Longrightarrow> kr_contains (sst_key_range s) k"
    and "kr_contains (sst_key_range (split_right_of s i key t a)) k \<Longrightarrow> kr_contains (sst_key_range s) k"
proof -
  let ?u = "UserKey t [0, 0]" and ?r = "sst_key_range s"
  have key: "fk_decode key = Some (FullKey ?u (- 1))" "key \<noteq> []" using assms(2) by (auto simp: is_split_key_def)
  obtain l where l: "kr_low ?r = fk_user_key l" "\<And>k. above_left ?r k \<longleftrightarrow> fk_user_key l \<le> k"
    using sst_ok_bounds [OF assms(1)] by metis
  have both: "fk_user_key l < ?u" "below_right ?r ?u"
    using assms(3) unfolding need_to_split_exact [OF assms(1,2)] l(1) by (auto split: if_splits)
  show "kr_contains (sst_key_range (split_left_of s i key t a)) k \<Longrightarrow> kr_contains ?r k"
    using below_right_mono [OF both(2), of k] key
    by (auto simp: split_left_of_def kr_contains_def above_left_def below_right_def [of "\<lparr>kr_left = _, kr_right = _, kr_right_exclusive = _\<rparr>"])
  show "kr_contains (sst_key_range (split_right_of s i key t a)) k \<Longrightarrow> kr_contains ?r k"
    using both(1) key by (auto simp: split_right_of_def kr_contains_def l(2) below_right_def
        above_left_def [of "\<lparr>kr_left = _, kr_right = _, kr_right_exclusive = _\<rparr>"])
qed

lemma sst_ok_left:
  assumes "sst_ok s"
  shows "\<exists>l. fk_decode (kr_left (sst_key_range s)) = Some l \<and> kr_low (sst_key_range s) = fk_user_key l"
  using sst_ok_bounds [OF assms] by metis

text \<open>The table at the split position: everything before it is left, everything after it right.\<close>

lemma get_split_pos_decomp:
  assumes "level_ok ssts" and "ssts \<noteq> []" and "is_split_key key t"
  obtains A s B where "ssts = A @ s # B" and "get_split_pos ssts key = Some (length A)"
    and "\<And>x. x \<in> set B \<Longrightarrow> UserKey t [0, 0] \<le> kr_low (sst_key_range x)"
    and "A = [] \<or> kr_low (sst_key_range s) < UserKey t [0, 0]"
proof -
  let ?u = "UserKey t [0, 0]" and ?p = "\<lambda>s. kr_low (sst_key_range s) < UserKey t [0, 0]"
  have ok: "\<forall>s \<in> set ssts. sst_ok s" and srt: "sorted_wrt sst_before ssts"
    using assms(1) by (simp_all add: level_ok_iff)
  have p: "partitioned ?p ssts"
  proof (rule partitioned_sorted_wrt [OF srt])
    fix x y assume "x \<in> set ssts" "y \<in> set ssts" "sst_before x y" "?p y"
    then show "?p x" using sst_before_low [of x y] ok by force
  qed
  have "map_option (\<lambda>c. c = Less) (compare_encoded_full_key (kr_left (sst_key_range s)) key) = Some (?p s)"
    if s: "s \<in> set ssts" for s
  proof -
    have "sst_ok s" using ok s by blast
    then obtain l where "fk_decode (kr_left (sst_key_range s)) = Some l" "kr_low (sst_key_range s) = fk_user_key l"
      using sst_ok_left by blast
    then show ?thesis by (simp add: split_key_compare(2) [OF assms(3)] split_full_key_gt)
  qed
  then have "partition_point_opt (\<lambda>s. map_option (\<lambda>c. c = Less)
      (compare_encoded_full_key (kr_left (sst_key_range s)) key)) ssts = Some (partition_point ?p ssts)"
    by (rule partition_point_opt_total)
  then have pos: "get_split_pos ssts key = Some (partition_point ?p ssts - 1)" by (simp add: get_split_pos_def)
  let ?n = "partition_point ?p ssts - 1"
  have n: "?n < length ssts" using partition_point_le_length [OF p] assms(2) by (cases ssts) auto
  have "ssts = take ?n ssts @ ssts ! ?n # drop (Suc ?n) ssts" using n by (rule id_take_nth_drop)
  moreover have "get_split_pos ssts key = Some (length (take ?n ssts))" using pos n by simp
  moreover have "?u \<le> kr_low (sst_key_range x)" if x: "x \<in> set (drop (Suc ?n) ssts)" for x
  proof -
    obtain j where j: "j < length (drop (Suc ?n) ssts)" "drop (Suc ?n) ssts ! j = x"
      using x by (metis in_set_conv_nth)
    then have "Suc ?n + j < length ssts" "ssts ! (Suc ?n + j) = x" by auto
    then show ?thesis using partition_point_less_iff [OF p, of "Suc ?n + j"] by auto
  qed
  moreover have "take ?n ssts = [] \<or> ?p (ssts ! ?n)"
    using partition_point_less_iff [OF p n] by auto
  ultimately show thesis by (rule that)
qed

lemma split_nonoverlapping_splits:
  assumes "level_ok ssts" and "\<forall>s \<in> set ssts. sorted (sst_table_ids s)" and "is_split_key key t"
    and "ssts \<noteq> []"
  shows "\<exists>kept moved i'. split_nonoverlapping key ssts i = Some ((kept, moved), i')
    \<and> splits_at t ssts kept moved \<and> level_ok kept \<and> level_ok moved"
proof -
  let ?u = "UserKey t [0, 0]"
  obtain A s B where d: "ssts = A @ s # B" "get_split_pos ssts key = Some (length A)"
    "\<And>x. x \<in> set B \<Longrightarrow> ?u \<le> kr_low (sst_key_range x)" "A = [] \<or> kr_low (sst_key_range s) < ?u"
    using get_split_pos_decomp [OF assms(1,4,3)] by metis
  have ok: "\<forall>x \<in> set A. sst_ok x" "sst_ok s" "\<forall>x \<in> set B. sst_ok x" "sorted (sst_table_ids s)"
    and AB: "sorted_wrt sst_before A" "sorted_wrt sst_before B" "\<And>x. x \<in> set A \<Longrightarrow> sst_before x s"
    "\<And>x. x \<in> set B \<Longrightarrow> sst_before s x"
    using assms(1,2) unfolding level_ok_iff d(1) by (auto simp: sorted_wrt_append)
  have A: "splits_at t A A []"
  proof (rule splits_at_left [OF ok(1)])
    fix x k assume x: "x \<in> set A" "kr_contains (sst_key_range x) k"
    then have "k < kr_low (sst_key_range s)"
      using sst_before_keys [of x s] AB(3) ok by (auto simp: sst_ok_def Let_def)
    with d(4) x(1) show "k < ?u" by auto
  qed
  have B: "splits_at t B [] B" by (rule splits_at_right [OF ok(3) d(3)])
  obtain l r i' where one: "split_one key s i = Some ((l, r), i')" "splits_at t [s] (opt_list l) (opt_list r)"
    using split_one_splits [OF ok(2) assms(3) ok(4)] by metis
  have parts: "splits_at t ssts (A @ opt_list l) (opt_list r @ B)"
    using splits_at_append [OF A splits_at_append [OF one(2) B]] d(1) by simp
  have ok': "x \<in> set (opt_list l @ opt_list r) \<Longrightarrow> sst_ok x" for x using one(2) by (auto simp: splits_at_def)
  have sub: "kr_contains (sst_key_range s) k"
    if "x \<in> set (opt_list l @ opt_list r)" "kr_contains (sst_key_range x) k" for x k
  proof -
    obtain ty where ty: "need_to_split s key = Some ty" using one(1) by (auto simp: split_one_def split: Option.bind_splits)
    show ?thesis
      using that one(1) split_sst_exact [OF ok(2) assms(3) ok(4)] ty
        split_halves_contain [OF ok(2) assms(3)]
      by (cases ty) (auto simp: split_one_def split: if_splits)
  qed
  have "sst_before x y" if "x \<in> set A" "y \<in> set (opt_list l)" for x y
    by (rule sst_before_shrink [of x s]) (use that ok ok' [of y] sub [of y] AB(3) in auto)
  moreover have "sst_before y x" if "x \<in> set B" "y \<in> set (opt_list r)" for x y
    by (rule sst_before_shrink [of s x]) (use that ok ok' [of y] sub [of y] AB(4) in auto)
  moreover have "sorted_wrt sst_before (opt_list l)" "sorted_wrt sst_before (opt_list r)"
    by (simp_all add: opt_list_def split: option.splits)
  ultimately have "sorted_wrt sst_before (A @ opt_list l)" "sorted_wrt sst_before (opt_list r @ B)"
    using AB(1,2) unfolding sorted_wrt_append by blast+
  then have levels: "level_ok (A @ opt_list l)" "level_ok (opt_list r @ B)"
    unfolding level_ok_iff using ok ok' by auto
  have right: "A = []" if "need_to_split s key = Some SplitRight"
    using that d(4) unfolding need_to_split_exact [OF ok(2) assms(3)] by (auto split: if_splits)
  have "split_nonoverlapping key ssts i = Some ((A @ opt_list l, opt_list r @ B), i')"
    using one(1) right unfolding split_nonoverlapping_def d(2) split_one_def
    by (auto simp: d(1) opt_list_def split: Option.bind_splits sst_split_type.splits option.splits)
  with parts levels show ?thesis by blast
qed

lemma case_cmp [simp]:
  "(case cmp a b of Less \<Rightarrow> x | Equal \<Rightarrow> y | Greater \<Rightarrow> z) = (if a < b then x else if a = b then y else z)"
  by (simp add: cmp_def)

lemma split_level_splits:
  assumes "\<forall>s \<in> set (lvl_table_infos l). sst_ok s \<and> sorted (sst_table_ids s)"
    and "lvl_type l = Overlapping \<or> level_ok (lvl_table_infos l)" and "is_split_key key t"
  shows "\<exists>moved l' i'. split_sst_info_for_level_v2 l i key = Some (moved, l', i')
    \<and> splits_at t (lvl_table_infos l) (lvl_table_infos l') moved
    \<and> l' = l\<lparr>lvl_table_infos := lvl_table_infos l'\<rparr>
    \<and> (lvl_type l = Overlapping \<or> level_ok (lvl_table_infos l') \<and> level_ok moved)"
proof (cases "lvl_table_infos l = []")
  case True
  then show ?thesis by (simp add: split_sst_info_for_level_v2_def splits_at_def level_ok_def)
next
  case ne: False
  show ?thesis
  proof (cases "lvl_type l = Overlapping")
    case True
    then show ?thesis using ne split_overlapping_splits [OF assms(1,3), of i]
      by (auto simp: split_sst_info_for_level_v2_def)
  next
    case False
    then show ?thesis using ne assms split_nonoverlapping_splits [of "lvl_table_infos l" key t i]
      by (auto simp: split_sst_info_for_level_v2_def)
  qed
qed

section \<open>Merging keeps the tables\<close>

lemma sub_level_hint_Inl:
  assumes "sorted_wrt (<) (map lvl_sub_level_id subs)" and "sub_level_hint_from n subs i = Inl p"
  shows "n \<le> p \<and> p - n \<le> length subs \<and> (\<forall>x \<in> set (take (p - n) subs). lvl_sub_level_id x < i)
    \<and> (\<forall>x \<in> set (drop (p - n) subs). i < lvl_sub_level_id x)"
  using assms
proof (induction n subs i rule: sub_level_hint_from.induct)
  case (2 n s rest i)
  show ?case
  proof (cases "lvl_sub_level_id s < i")
    case True
    then have "n + 1 \<le> p \<and> p - (n + 1) \<le> length rest
        \<and> (\<forall>x \<in> set (take (p - (n + 1)) rest). lvl_sub_level_id x < i)
        \<and> (\<forall>x \<in> set (drop (p - (n + 1)) rest). i < lvl_sub_level_id x)"
      using 2 by auto
    moreover from this have "p - n = Suc (p - (n + 1))" by linarith
    ultimately show ?thesis using True by auto
  next
    case False
    then show ?thesis using 2(2,3) by (auto split: if_splits)
  qed
qed auto

lemma get_sub_level_insert_hint_Inl:
  assumes "subs_inv subs" and "get_sub_level_insert_hint subs l = Inl p"
  shows "(\<forall>x \<in> set (take p subs). lvl_sub_level_id x < lvl_sub_level_id l)
    \<and> (\<forall>x \<in> set (drop p subs). lvl_sub_level_id l < lvl_sub_level_id x)"
  using sub_level_hint_Inl [of subs 0 "lvl_sub_level_id l" p] assms
  by (simp add: subs_inv_def get_sub_level_insert_hint_def)

lemma sub_level_hint_Inr:
  assumes "sub_level_hint_from n subs i = Inr p"
  shows "n \<le> p \<and> p - n < length subs \<and> lvl_sub_level_id (subs ! (p - n)) = i"
  using assms
proof (induction n subs i rule: sub_level_hint_from.induct)
  case (2 n s rest i)
  show ?case
  proof (cases "lvl_sub_level_id s < i")
    case True
    then have "n + 1 \<le> p \<and> p - (n + 1) < length rest \<and> lvl_sub_level_id (rest ! (p - (n + 1))) = i"
      using 2 by auto
    moreover from this have "p - n = Suc (p - (n + 1))" by linarith
    ultimately show ?thesis by auto
  next
    case False
    then show ?thesis using 2(2) by (auto split: if_splits)
  qed
qed auto

definition l0_tables :: "level list \<Rightarrow> sstable_info multiset" where
  "l0_tables subs = mset (concat (map lvl_table_infos subs))"

lemma l0_tables_simps [simp]:
  "l0_tables [] = {#}" "l0_tables (a @ b) = l0_tables a + l0_tables b"
  "l0_tables (s # b) = mset (lvl_table_infos s) + l0_tables b"
  by (simp_all add: l0_tables_def)

lemma insert_new_sub_level_tables:
  assumes "insert_new_sub_level l0 i ty ssts hint = Some l0'" and "i \<noteq> - 1"
  shows "l0_tables (l0_sub_levels l0') = l0_tables (l0_sub_levels l0) + mset ssts"
  using assms(1)
proof (cases rule: insert_new_sub_level_cases)
  case (2 pos)
  have "l0_tables (l0_sub_levels l0) = l0_tables (take pos (l0_sub_levels l0) @ drop pos (l0_sub_levels l0))"
    by (simp only: append_take_drop_id)
  then show ?thesis using 2(5) by (simp only: l0_tables_simps overlapping_level.select_convs
      overlapping_level.update_convs) (simp add: ac_simps)
qed (use assms(2) in simp)

lemma merge_sub_levels_correct:
  assumes "merge_sub_levels rw n l0 ss = Some l0'" and "l0_inv l0" and "\<forall>s \<in> set ss. level_inv s"
  shows "l0_inv l0'"
    and "(if rw then \<forall>j < length ss. n + word_of_nat j \<noteq> - 1 else \<forall>s \<in> set ss. lvl_sub_level_id s \<noteq> - 1) \<Longrightarrow>
      l0_tables (l0_sub_levels l0') = l0_tables (l0_sub_levels l0) + l0_tables ss"
proof -
  have "l0_inv l0' \<and> ((if rw then \<forall>j < length ss. n + word_of_nat j \<noteq> - 1
        else \<forall>s \<in> set ss. lvl_sub_level_id s \<noteq> - 1) \<longrightarrow>
      l0_tables (l0_sub_levels l0') = l0_tables (l0_sub_levels l0) + l0_tables ss)"
    using assms
  proof (induction ss arbitrary: n l0)
    case (Cons s ss)
    let ?i = "if rw then n else lvl_sub_level_id s" and ?n = "if rw then n + 1 else n"
    obtain l1 where l1: "insert_new_sub_level l0 ?i (lvl_type s) (lvl_table_infos s) None = Some l1"
      "merge_sub_levels rw ?n l1 ss = Some l0'"
      using Cons.prems(1) by (auto simp: Let_def split: Option.bind_splits)
    have inv: "l0_inv l1"
      by (rule insert_new_sub_level_inv [OF Cons.prems(2) _ _ l1(1)])
        (use Cons.prems(3) in \<open>auto simp: level_inv_def\<close>)
    have IH: "l0_inv l0' \<and> ((if rw then \<forall>j < length ss. ?n + word_of_nat j \<noteq> - 1
        else \<forall>s \<in> set ss. lvl_sub_level_id s \<noteq> - 1) \<longrightarrow>
      l0_tables (l0_sub_levels l0') = l0_tables (l0_sub_levels l1) + l0_tables ss)"
      by (rule Cons.IH [OF l1(2) inv]) (use Cons.prems(3) in simp)
    show ?case
    proof (intro conjI impI)
      show "l0_inv l0'" using IH by simp
      assume ids: "if rw then \<forall>j < length (s # ss). n + word_of_nat j \<noteq> - 1
        else \<forall>s \<in> set (s # ss). lvl_sub_level_id s \<noteq> - 1"
      have "?i \<noteq> - 1"
      proof (cases rw)
        case True
        then have "n + word_of_nat 0 \<noteq> - 1" using ids by (metis length_greater_0_conv list.distinct(1))
        with True show ?thesis by simp
      qed (use ids in simp)
      moreover have "if rw then \<forall>j < length ss. ?n + word_of_nat j \<noteq> - 1
        else \<forall>s \<in> set ss. lvl_sub_level_id s \<noteq> - 1"
      proof (cases rw)
        case True
        have "n + 1 + word_of_nat j \<noteq> - 1" if "j < length ss" for j
        proof -
          have "n + word_of_nat (Suc j) \<noteq> - 1" using ids True that by (metis length_Cons Suc_less_eq)
          then show ?thesis by (simp add: ac_simps)
        qed
        with True show ?thesis by simp
      qed (use ids in simp)
      ultimately show "l0_tables (l0_sub_levels l0') = l0_tables (l0_sub_levels l0) + l0_tables (s # ss)"
        using IH insert_new_sub_level_tables [OF l1(1)] by (simp add: ac_simps)
    qed
  qed simp
  then show "l0_inv l0'"
    and "(if rw then \<forall>j < length ss. n + word_of_nat j \<noteq> - 1 else \<forall>s \<in> set ss. lvl_sub_level_id s \<noteq> - 1) \<Longrightarrow>
      l0_tables (l0_sub_levels l0') = l0_tables (l0_sub_levels l0) + l0_tables ss" by blast+
qed

definition right_tables :: "nat \<Rightarrow> level list \<Rightarrow> nat \<Rightarrow> sstable_info multiset" where
  "right_tables idx rs i =
     (if idx \<le> i \<and> i - idx < length rs then mset (lvl_table_infos (rs ! (i - idx))) else {#})"

lemma right_tables_Cons:
  "right_tables idx (r # rs) i = (if i = idx then mset (lvl_table_infos r) else right_tables (idx + 1) rs i)"
proof (cases "idx < i")
  case True
  then have "i - idx = Suc (i - (idx + 1))" by linarith
  with True show ?thesis by (simp add: right_tables_def)
qed (auto simp: right_tables_def)

lemma merge_base_levels_correct:
  assumes "merge_base_levels idx ls rs = Some out" and "\<forall>l \<in> set ls. level_inv l \<and> lvl_type l = Nonoverlapping"
    and "\<forall>r \<in> set rs. \<forall>s \<in> set (lvl_table_infos r). sst_ok s"
  shows "length out = length ls \<and> (\<forall>i < length ls. level_inv (out ! i)
      \<and> lvl_type (out ! i) = Nonoverlapping \<and> lvl_idx (out ! i) = lvl_idx (ls ! i)
      \<and> mset (lvl_table_infos (out ! i)) = mset (lvl_table_infos (ls ! i)) + right_tables idx rs i)
    \<and> (\<forall>i \<ge> length ls. right_tables idx rs i = {#})"
  using assms
proof (induction rs arbitrary: idx ls)
  case Nil
  then show ?case by (simp add: right_tables_def)
next
  case (Cons r rs)
  show ?case
  proof (cases "lvl_table_infos r = []")
    case True
    then have "merge_base_levels (idx + 1) ls rs = Some out" using Cons.prems(1) by simp
    from Cons.IH [OF this Cons.prems(2)] Cons.prems(3) True show ?thesis
      by (simp add: right_tables_Cons) (auto simp: right_tables_def)
  next
    case False
    have idx: "idx < length ls" using Cons.prems(1) False by (simp split: if_splits)
    let ?l = "ls ! idx" and ?ssts = "lvl_table_infos r"
    obtain infos where infos: "sort_and_check (lvl_table_infos ?l @ ?ssts) = Some infos"
      using Cons.prems(1) False idx by (auto simp: Let_def split: Option.bind_splits)
    define l where "l = ?l\<lparr>lvl_total_file_size := lvl_total_file_size ?l + sst_sizes ?ssts,
        lvl_uncompressed_file_size := lvl_uncompressed_file_size ?l + sst_uncompressed_sizes ?ssts,
        lvl_table_infos := infos\<rparr>"
    have rest: "merge_base_levels (idx + 1) (ls[idx := l]) rs = Some out"
      using Cons.prems(1) False idx infos by (simp add: Let_def l_def)
    have inv: "level_inv ?l" "lvl_type ?l = Nonoverlapping" using Cons.prems(2) idx by auto
    then have ok: "\<forall>s \<in> set (lvl_table_infos ?l @ ?ssts). sst_ok s"
      using Cons.prems(3) by (auto simp: level_inv_def)
    note s = sort_and_check_Some [OF ok infos]
    have l: "level_inv l" "lvl_type l = Nonoverlapping" "lvl_idx l = lvl_idx ?l"
      "mset (lvl_table_infos l) = mset (lvl_table_infos ?l) + mset ?ssts"
      using inv s sizes_mset [OF s(1)] by (simp_all add: l_def level_inv_def level_sizes_ok_def level_ok_def)
    have upd: "\<forall>x \<in> set (ls[idx := l]). level_inv x \<and> lvl_type x = Nonoverlapping"
      using Cons.prems(2) l(1,2) set_update_subset_insert [of ls idx l] by auto
    have zero: "right_tables (idx + 1) rs idx = {#}" by (simp add: right_tables_def)
    from Cons.IH [OF rest upd] Cons.prems(3) idx l zero show ?thesis
      by (auto simp: right_tables_Cons nth_list_update)
  qed
qed

lemma base_inv_all: "base_inv ls \<Longrightarrow> \<forall>l \<in> set (lvs_levels ls). level_inv l \<and> lvl_type l = Nonoverlapping"
  by (auto simp: base_inv_def in_set_conv_nth)

lemma l0_inv_partition_counts:
  assumes "l0_inv l0"
  shows "l0_inv (l0\<lparr>l0_sub_levels := map (lvl_vnode_partition_count_update (\<lambda>_. 0)) (l0_sub_levels l0)\<rparr>)"
  using assms by (auto simp: l0_inv_def subs_inv_def comp_def)

lemma l0_tables_partition_counts [simp]:
  "l0_tables (map (lvl_vnode_partition_count_update f) subs) = l0_tables subs"
  by (simp add: l0_tables_def comp_def)

lemma level_ssts_l0: "level_ssts ls 0 = l0_tables (l0_sub_levels (lvs_l0 ls))"
  by (simp add: level_ssts_def l0_tables_def)

text \<open>No sub-level id reaches the largest 64-bit value, which the insertion skips.\<close>

definition merge_ids_ok :: "levels \<Rightarrow> levels \<Rightarrow> bool" where
  "merge_ids_ok left right =
     (let ids = map (\<lambda>s. lvl_sub_level_id s + 1) (l0_sub_levels (lvs_l0 left));
          next_id = fold max ids 0; subs = l0_sub_levels (lvs_l0 right) in
      if next_id \<noteq> 0 then \<forall>j < length subs. next_id + word_of_nat j \<noteq> - 1
      else \<forall>s \<in> set subs. lvl_sub_level_id s \<noteq> - 1)"

lemma merge_levels_correct:
  assumes "merge_levels left right = Some out" and "levels_inv left" and "levels_inv right"
  shows "levels_inv out"
    and "merge_ids_ok left right \<Longrightarrow> level_ssts out n = level_ssts left n + level_ssts right n"
proof -
  define next_id where "next_id = fold max (map (\<lambda>s. lvl_sub_level_id s + 1) (l0_sub_levels (lvs_l0 left))) 0"
  obtain l0 base where l0: "merge_sub_levels (next_id \<noteq> 0) next_id (lvs_l0 left) (l0_sub_levels (lvs_l0 right)) = Some l0"
    and base: "merge_base_levels 0 (lvs_levels left) (lvs_levels right) = Some base"
    and out: "out = left\<lparr>lvs_l0 := l0\<lparr>l0_sub_levels := map (lvl_vnode_partition_count_update (\<lambda>_. 0))
        (l0_sub_levels l0)\<rparr>, lvs_levels := base\<rparr>"
    using assms(1) unfolding merge_levels_def Let_def next_id_def [symmetric]
    by (auto split: Option.bind_splits if_splits)
  have subs: "\<forall>s \<in> set (l0_sub_levels (lvs_l0 right)). level_inv s"
    using assms(3) by (simp add: levels_inv_def l0_inv_def subs_inv_def)
  have "l0_inv (lvs_l0 left)" using assms(2) by (simp add: levels_inv_def)
  note m0 = merge_sub_levels_correct [OF l0 this subs]
  have L: "\<forall>l \<in> set (lvs_levels left). level_inv l \<and> lvl_type l = Nonoverlapping"
    using assms(2) base_inv_all [of left] by (simp add: levels_inv_def)
  have R: "\<forall>r \<in> set (lvs_levels right). \<forall>s \<in> set (lvl_table_infos r). sst_ok s"
    using assms(3) base_inv_all [of right] by (simp add: levels_inv_def level_inv_def)
  note mb = merge_base_levels_correct [OF base L R]
  show "levels_inv out"
    using mb assms(2) l0_inv_partition_counts [OF m0(1)] by (simp add: out levels_inv_def base_inv_def)
  assume "merge_ids_ok left right"
  then have "l0_tables (l0_sub_levels l0) = l0_tables (l0_sub_levels (lvs_l0 left)) + l0_tables (l0_sub_levels (lvs_l0 right))"
    using m0(2) unfolding merge_ids_ok_def Let_def next_id_def [symmetric] by simp
  then have zero: "level_ssts out 0 = level_ssts left 0 + level_ssts right 0" by (simp add: level_ssts_l0 out)
  have rt: "right_tables 0 (lvs_levels right) i = level_ssts right (Suc i)" for i
    by (simp add: right_tables_def level_ssts_def)
  show "level_ssts out n = level_ssts left n + level_ssts right n"
  proof (cases n)
    case (Suc i)
    then show ?thesis using mb by (cases "i < length (lvs_levels left)") (auto simp: level_ssts_def out rt)
  qed (use zero in simp)
qed

section \<open>Properties of splitting and merging\<close>

text \<open>
  C18. Splitting a level at a split key never panics and partitions its user keys: the tables that
  stay hold exactly the keys below the split key, the tables that move exactly the others; a
  level that could be concatenated gives two that can.
\<close>

theorem split_level_partitions_keys:
  assumes "\<forall>s \<in> set (lvl_table_infos l). sst_ok s \<and> sorted (sst_table_ids s)"
    and "lvl_type l = Overlapping \<or> level_ok (lvl_table_infos l)" and "is_split_key key t"
  shows "\<exists>moved l' i'. split_sst_info_for_level_v2 l i key = Some (moved, l', i')
    \<and> (\<forall>k. uk_valid k \<longrightarrow>
          (ssts_have (lvl_table_infos l') k \<longleftrightarrow> ssts_have (lvl_table_infos l) k \<and> uk_table_id k < t)
        \<and> (ssts_have moved k \<longleftrightarrow> ssts_have (lvl_table_infos l) k \<and> t \<le> uk_table_id k))
    \<and> (lvl_type l = Overlapping \<or> level_ok (lvl_table_infos l') \<and> level_ok moved)"
proof -
  obtain moved l' i' where s: "split_sst_info_for_level_v2 l i key = Some (moved, l', i')"
    "splits_at t (lvl_table_infos l) (lvl_table_infos l') moved"
    "lvl_type l = Overlapping \<or> level_ok (lvl_table_infos l') \<and> level_ok moved"
    using split_level_splits [OF assms, of i] by blast
  show ?thesis
    by (intro exI conjI, rule s(1))
      (use s(2,3) in \<open>auto simp: splits_at_def first_key_le less_first_key\<close>)
qed

text \<open>A level with one table over the tables 1 and 2, and the split key of table 2.\<close>

definition example_level :: level where
  "example_level = new_sub_level 5 Nonoverlapping [sst_of 1 [1, 2] (UserKey 1 [0, 0, 1]) (UserKey 2 [0, 0, 5])]"

definition example_split_key :: bytes where
  "example_split_key = fk_encode (FullKey (UserKey 2 [0, 0]) (- 1))"

lemma example_split_key [simp]: "is_split_key example_split_key 2"
  by (simp add: is_split_key_def example_split_key_def)

lemma example_level_ok:
  "\<forall>s \<in> set (lvl_table_infos example_level). sst_ok s \<and> sorted (sst_table_ids s)"
  "level_ok (lvl_table_infos example_level)" "lvl_type example_level = Nonoverlapping" "level_inv example_level"
  by (simp_all add: example_level_def level_ok_iff less_eq_user_key_def level_inv_def level_sizes_ok_def
      new_sub_level_def)

theorem split_level_partitions_keys_witness:
  "\<exists>moved l' i'. split_sst_info_for_level_v2 example_level 10 example_split_key = Some (moved, l', i')
     \<and> level_ok (lvl_table_infos l') \<and> level_ok moved"
  using split_level_partitions_keys [of example_level example_split_key 2 10] example_level_ok by auto

text \<open>
  C19. Merging two groups keeps every table in its level: if the merge succeeds and no sub-level id
  reaches the skipped maximum, the tables of each level are those of both groups together, and
  the invariant of the group (sizes, ascending sub-levels, concatenable levels) holds.
\<close>

theorem merge_levels_keeps_tables:
  assumes "merge_levels left right = Some out" and "levels_inv left" and "levels_inv right"
    and "merge_ids_ok left right"
  shows "level_ssts out n = level_ssts left n + level_ssts right n \<and> levels_inv out"
  using merge_levels_correct [OF assms(1,2,3)] assms(4) by blast

text \<open>Two groups, each with a table in a sub-level and one in its base level.\<close>

definition example_group :: "u64 \<Rightarrow> u64 \<Rightarrow> sstable_info \<Rightarrow> sstable_info \<Rightarrow> levels" where
  "example_group g i s b = (build_initial_compaction_group_levels g 1)
     \<lparr>lvs_l0 := \<lparr>l0_sub_levels = [new_sub_level i Overlapping [s]], l0_total_file_size = sst_size s,
                l0_uncompressed_file_size = sst_uncompressed_file_size s\<rparr>,
      lvs_levels := [(new_sub_level 0 Nonoverlapping [b])\<lparr>lvl_idx := 1\<rparr>]\<rparr>"

definition example_left :: levels where
  "example_left = example_group 2 5 (sst_of 1 [1] (UserKey 1 [0, 0, 1]) (UserKey 1 [0, 0, 9]))
     (sst_of 2 [1] (UserKey 1 [0, 0, 2]) (UserKey 1 [0, 0, 3]))"

definition example_right :: levels where
  "example_right = example_group 3 2 (sst_of 3 [2] (UserKey 2 [0, 0, 1]) (UserKey 2 [0, 0, 9]))
     (sst_of 4 [2] (UserKey 2 [0, 0, 2]) (UserKey 2 [0, 0, 3]))"

lemma example_group_inv: "sst_ok s \<Longrightarrow> sst_ok b \<Longrightarrow> levels_inv (example_group g i s b)"
  by (simp add: example_group_def levels_inv_def l0_inv_def subs_inv_def base_inv_def level_inv_def level_sizes_ok_def
      level_ok_iff new_sub_level_def)

lemma example_groups_inv: "levels_inv example_left" "levels_inv example_right"
  by (simp_all add: example_left_def example_right_def example_group_inv less_eq_user_key_def)

lemma example_groups_merge: "merge_levels example_left example_right \<noteq> None" "merge_ids_ok example_left example_right"
proof -
  let ?a = "sst_of 2 [1] (UserKey 1 [0, 0, 2]) (UserKey 1 [0, 0, 3])" and ?b = "sst_of 4 [2] (UserKey 2 [0, 0, 2]) (UserKey 2 [0, 0, 3])"
  have "sort_and_check [?a, ?b] \<noteq> None"
    by (subst sort_and_check_exact) (auto simp: ssts_apart_def right_reaches_def kr_new_def less_eq_user_key_def)
  then show "merge_levels example_left example_right \<noteq> None"
    by (auto simp: merge_levels_def example_left_def example_right_def example_group_def new_sub_level_def
        insert_new_sub_level_def vec_insert_def Let_def)
  show "merge_ids_ok example_left example_right"
    by (simp add: merge_ids_ok_def example_left_def example_right_def example_group_def new_sub_level_def)
qed

theorem merge_levels_keeps_tables_witness:
  "\<exists>out. merge_levels example_left example_right = Some out \<and> levels_inv out
     \<and> image_mset sst_id (level_ssts out 0) = {#1, 3#} \<and> image_mset sst_id (level_ssts out 1) = {#2, 4#}"
proof -
  obtain out where out: "merge_levels example_left example_right = Some out" using example_groups_merge(1) by blast
  note m = merge_levels_keeps_tables [OF out example_groups_inv example_groups_merge(2)]
  show ?thesis using out m [of 0] m [of 1]
    by (simp add: level_ssts_def example_left_def example_right_def example_group_def new_sub_level_def)
qed

text \<open>
  C20. A table of size 1 that has to be split gives parts of size 0, which the protobuf conversion
  refuses with a panic: splitting halves the size without keeping it positive.
\<close>

theorem split_of_unit_size_not_encodable:
  assumes "need_to_split s key = Some SplitBoth" and "sst_size s = 1"
    and "split_one key s i = Some ((l, r), i')"
  shows "list_all (\<lambda>x. sst_to_pb x = None) (opt_list l @ opt_list r)"
  using assms
  by (auto simp: split_one_def split_sst_def Let_def sst_to_pb_None split: Option.bind_splits if_splits)

theorem split_of_unit_size_not_encodable_witness:
  "\<exists>l r i'. split_one example_split_key
       ((sst_of 1 [1, 2] (UserKey 1 [0, 0, 1]) (UserKey 2 [0, 0, 5]))\<lparr>sst_size := 1\<rparr>) 10 = Some ((Some l, Some r), i')
     \<and> sst_to_pb l = None \<and> sst_to_pb r = None"
proof -
  let ?s = "(sst_of 1 [1, 2] (UserKey 1 [0, 0, 1]) (UserKey 2 [0, 0, 5]))\<lparr>sst_size := 1\<rparr>"
  have ok: "sst_ok ?s" "sorted (sst_table_ids ?s)"
    using sst_of_ok [of 1 "[1, 2]" "UserKey 1 [0, 0, 1]" "UserKey 2 [0, 0, 5]"]
    by (simp_all add: sst_ok_def less_eq_user_key_def)
  have both: "need_to_split ?s example_split_key = Some SplitBoth"
    unfolding need_to_split_exact [OF ok(1) example_split_key]
    by (simp add: kr_low_def kr_new_def below_right_def less_eq_user_key_def)
  have ids: "split_ids_left ?s 2 = [1]" "split_ids_right ?s 2 = [2]"
    by (simp_all add: split_ids_left_def split_ids_right_def)
  have "split_one example_split_key ?s 10 = Some ((Some (split_left_of ?s 10 example_split_key 2 (sst_size ?s div 2)),
      Some (split_right_of ?s 10 example_split_key 2 (sst_size ?s div 2))), 10 + 2)"
    using split_sst_exact [OF ok(1) example_split_key ok(2) both] both by (simp add: split_one_def ids)
  with split_of_unit_size_not_encodable [OF both _ this] show ?thesis by auto
qed

end
