(* ===== verification/State_Table_Info.thy ===== *)
theory State_Table_Info
  imports Hummock_Key
begin

text \<open>
  The state tables of a version, \<open>HummockVersionStateTableInfo\<close> of
  \<^verbatim>\<open>storage/hummock_sdk/src/version.rs\<close>: the committed epoch and compaction group of each
  table, with an index from groups to their member tables. Hash maps are ordered association
  lists and the member sets strictly sorted lists; a hash map or set that an operation walks
  through is a list of its entries in any order.
\<close>

section \<open>State and operations\<close>

record state_table_info =
  sti_committed_epoch :: hummock_epoch
  sti_compaction_group_id :: u64

record version_state_table_info =
  vsti_info :: "(table_id, state_table_info) btree"
  vsti_members :: "(u64, table_id list) btree"

definition vsti_empty :: version_state_table_info where
  "vsti_empty = \<lparr>vsti_info = [], vsti_members = []\<rparr>"

text \<open>\<open>assert!(entry(group).or_default().insert(table))\<close>.\<close>

definition add_member ::
    "u64 \<Rightarrow> table_id \<Rightarrow> (u64, table_id list) btree \<Rightarrow> (u64, table_id list) btree option" where
  "add_member g t members =
     (let ts = (case bt_get members g of None \<Rightarrow> [] | Some ts \<Rightarrow> ts) in
      if t \<in> set ts then None else Some (bt_insert g (insort t ts) members))"

fun build_members ::
    "(table_id \<times> state_table_info) list \<Rightarrow> (u64, table_id list) btree \<Rightarrow> (u64, table_id list) btree option" where
  "build_members [] ret = Some ret"
| "build_members ((t, info) # rest) ret =
     do { ret' \<leftarrow> add_member (sti_compaction_group_id info) t ret; build_members rest ret' }"

definition build_compaction_group_member_tables ::
    "(table_id, state_table_info) btree \<Rightarrow> (u64, table_id list) btree option" where
  "build_compaction_group_member_tables info = build_members info []"

definition build_table_compaction_group_id ::
    "version_state_table_info \<Rightarrow> (table_id, u64) btree" where
  "build_table_compaction_group_id s = map (\<lambda>(t, info). (t, sti_compaction_group_id info)) (vsti_info s)"

definition vsti_from_protobuf :: "(table_id, state_table_info) btree \<Rightarrow> version_state_table_info option" where
  "vsti_from_protobuf info =
     do { members \<leftarrow> build_compaction_group_member_tables info;
          Some \<lparr>vsti_info = info, vsti_members = members\<rparr> }"

definition vsti_to_protobuf :: "version_state_table_info \<Rightarrow> (table_id, state_table_info) btree" where
  "vsti_to_protobuf s = vsti_info s"

definition remove_table_from_compaction_group ::
    "(u64, table_id list) btree \<Rightarrow> u64 \<Rightarrow> table_id \<Rightarrow> (u64, table_id list) btree option" where
  "remove_table_from_compaction_group members g t =
     do { ts \<leftarrow> bt_get members g;
          if t \<notin> set ts then None
          else (let ts' = remove1 t ts in
                Some (if ts' = [] then bt_remove g members else bt_insert g ts' members)) }"

type_synonym changed_tables = "(table_id, state_table_info option) btree"

fun remove_tables ::
    "table_id list \<Rightarrow> version_state_table_info \<Rightarrow> changed_tables \<Rightarrow>
       (version_state_table_info \<times> changed_tables) option" where
  "remove_tables [] s changed = Some (s, changed)"
| "remove_tables (t # ts) s changed =
     (case bt_get (vsti_info s) t of
        Some prev_info \<Rightarrow>
          do { members \<leftarrow> remove_table_from_compaction_group (vsti_members s)
                 (sti_compaction_group_id prev_info) t;
               if bt_get changed t \<noteq> None then None
               else remove_tables ts \<lparr>vsti_info = bt_remove t (vsti_info s), vsti_members = members\<rparr>
                      (bt_insert t (Some prev_info) changed) }
      | None \<Rightarrow> remove_tables ts s changed)"

definition apply_table_delta ::
    "version_state_table_info \<Rightarrow> table_id \<Rightarrow> state_table_info \<Rightarrow>
       (version_state_table_info \<times> state_table_info option \<times> bool) option" where
  "apply_table_delta s t new_info =
     (case bt_get (vsti_info s) t of
        Some prev_info \<Rightarrow>
          if \<not> sti_committed_epoch new_info \<ge> sti_committed_epoch prev_info then None
          else do {
            members \<leftarrow>
              (if sti_compaction_group_id prev_info \<noteq> sti_compaction_group_id new_info then
                 do { m \<leftarrow> remove_table_from_compaction_group (vsti_members s)
                        (sti_compaction_group_id prev_info) t;
                      add_member (sti_compaction_group_id new_info) t m }
               else Some (vsti_members s));
            Some (\<lparr>vsti_info = bt_insert t new_info (vsti_info s), vsti_members = members\<rparr>,
                  Some prev_info, sti_committed_epoch new_info > sti_committed_epoch prev_info) }
      | None \<Rightarrow>
          do { members \<leftarrow> add_member (sti_compaction_group_id new_info) t (vsti_members s);
               Some (\<lparr>vsti_info = bt_insert t new_info (vsti_info s), vsti_members = members\<rparr>,
                     None, True) })"

fun apply_table_deltas ::
    "(table_id \<times> state_table_info) list \<Rightarrow> table_id list \<Rightarrow> version_state_table_info \<Rightarrow> changed_tables \<Rightarrow> bool \<Rightarrow>
       (version_state_table_info \<times> changed_tables \<times> bool) option" where
  "apply_table_deltas [] removed s changed bumped = Some (s, changed, bumped)"
| "apply_table_deltas ((t, d) # rest) removed s changed bumped =
     (if t \<in> set removed then apply_table_deltas rest removed s changed bumped
      else do { (s', old, b) \<leftarrow> apply_table_delta s t d;
                apply_table_deltas rest removed s' (bt_insert t old changed) (bumped \<or> b) })"

definition vsti_apply_delta ::
    "version_state_table_info \<Rightarrow> (table_id \<times> state_table_info) list \<Rightarrow> table_id list \<Rightarrow>
       (version_state_table_info \<times> changed_tables \<times> bool) option" where
  "vsti_apply_delta s delta removed =
     do { (s', changed) \<leftarrow> remove_tables removed s [];
          apply_table_deltas delta removed s' changed False }"

definition compaction_group_member_table_ids :: "version_state_table_info \<Rightarrow> u64 \<Rightarrow> table_id list" where
  "compaction_group_member_table_ids s g = (case bt_get (vsti_members s) g of None \<Rightarrow> [] | Some ts \<Rightarrow> ts)"

definition max_table_committed_epoch :: "version_state_table_info \<Rightarrow> hummock_epoch option" where
  "max_table_committed_epoch s =
     (case map (\<lambda>e. sti_committed_epoch (snd e)) (vsti_info s) of [] \<Rightarrow> None | x # xs \<Rightarrow> Some (fold max xs x))"

section \<open>The index agrees with the tables\<close>

definition tables_of :: "(table_id, state_table_info) btree \<Rightarrow> u64 \<Rightarrow> table_id set" where
  "tables_of info g = {t. \<exists>e. bt_get info t = Some e \<and> sti_compaction_group_id e = g}"

definition members_of :: "table_id set \<Rightarrow> table_id list option" where
  "members_of ts = (if ts = {} then None else Some (sorted_list_of_set ts))"

definition vsti_inv :: "version_state_table_info \<Rightarrow> bool" where
  "vsti_inv s = (bt_ok (vsti_info s) \<and> bt_ok (vsti_members s)
     \<and> (\<forall>g. bt_get (vsti_members s) g = members_of (tables_of (vsti_info s) g)))"

lemma finite_tables_of [simp]: "finite (tables_of info g)"
  by (rule finite_subset [of _ "fst ` set info"]) (force simp: tables_of_def bt_get_def dest: map_of_SomeD, simp)

lemma tables_of_insert:
  "tables_of (bt_insert t e info) g =
     (if sti_compaction_group_id e = g then insert t (tables_of info g) else tables_of info g - {t})"
  by (auto simp: tables_of_def bt_get_insert split: if_splits)

lemma tables_of_remove: "tables_of (bt_remove t info) g = tables_of info g - {t}"
  by (auto simp: tables_of_def bt_get_remove split: if_splits)

lemma tables_of_other: "bt_get info t = Some e \<Longrightarrow> sti_compaction_group_id e \<noteq> g \<Longrightarrow> t \<notin> tables_of info g"
  by (simp add: tables_of_def)

lemma add_member_correct:
  assumes "bt_ok m" and "bt_get m g = members_of ts" and "finite ts" and "t \<notin> ts"
  obtains m' where "add_member g t m = Some m'" and "bt_ok m'"
    and "bt_get m' = (bt_get m)(g := members_of (insert t ts))"
proof -
  have "(case bt_get m g of None \<Rightarrow> [] | Some ts \<Rightarrow> ts) = sorted_list_of_set ts"
    using assms(2) by (simp add: members_of_def)
  moreover have "sorted_list_of_set (insert t ts) = insort t (sorted_list_of_set ts)"
    using assms(3,4) by (simp add: sorted_list_of_set_insert)
  ultimately show thesis
    using that [of "bt_insert g (insort t (sorted_list_of_set ts)) m"] assms
    by (simp add: add_member_def bt_insert_ok bt_get_insert members_of_def)
qed

lemma remove_member_correct:
  assumes "bt_ok m" and "bt_get m g = members_of ts" and "finite ts" and "t \<in> ts"
  obtains m' where "remove_table_from_compaction_group m g t = Some m'" and "bt_ok m'"
    and "bt_get m' = (bt_get m)(g := members_of (ts - {t}))"
proof -
  have get: "bt_get m g = Some (sorted_list_of_set ts)" using assms(2,4) by (auto simp: members_of_def)
  have rem: "remove1 t (sorted_list_of_set ts) = sorted_list_of_set (ts - {t})"
    by (simp add: sorted_list_of_set_remove assms(3))
  have "sorted_list_of_set (ts - {t}) = [] \<longleftrightarrow> ts - {t} = {}"
    using assms(3) by (simp add: sorted_list_of_set_eq_Nil_iff)
  then show thesis
    using that [of "if ts - {t} = {} then bt_remove g m else bt_insert g (sorted_list_of_set (ts - {t})) m"]
      assms(1,3,4) get rem
    by (auto simp: remove_table_from_compaction_group_def Let_def bt_remove_ok bt_insert_ok bt_get_remove
        bt_get_insert members_of_def)
qed


lemma remove_table_correct:
  assumes "vsti_inv s" and "bt_get (vsti_info s) t = Some e"
  obtains m where "remove_table_from_compaction_group (vsti_members s) (sti_compaction_group_id e) t = Some m"
    and "bt_ok m" and "\<And>g. bt_get m g = members_of (tables_of (vsti_info s) g - {t})"
proof -
  let ?g = "sti_compaction_group_id e"
  have inv: "bt_ok (vsti_members s)" "\<And>g. bt_get (vsti_members s) g = members_of (tables_of (vsti_info s) g)"
    using assms(1) by (simp_all add: vsti_inv_def)
  have "t \<in> tables_of (vsti_info s) ?g" using assms(2) by (simp add: tables_of_def)
  then obtain m where m: "remove_table_from_compaction_group (vsti_members s) ?g t = Some m" "bt_ok m"
    "bt_get m = (bt_get (vsti_members s))(?g := members_of (tables_of (vsti_info s) ?g - {t}))"
    using remove_member_correct [OF inv(1) inv(2) finite_tables_of] by blast
  have "bt_get m g = members_of (tables_of (vsti_info s) g - {t})" for g
  proof (cases "g = ?g")
    case False
    then have "t \<notin> tables_of (vsti_info s) g" using assms(2) by (simp add: tables_of_def)
    with False show ?thesis by (simp add: m(3) inv(2))
  qed (simp add: m(3))
  with m(1,2) show thesis by (rule that)
qed

lemma remove_tables_correct:
  assumes "vsti_inv s" and "distinct ts" and "\<And>t. t \<in> set ts \<Longrightarrow> bt_get changed t = None"
  shows "\<exists>s' changed'. remove_tables ts s changed = Some (s', changed') \<and> vsti_inv s'
    \<and> (\<forall>t. bt_get (vsti_info s') t = (if t \<in> set ts then None else bt_get (vsti_info s) t))
    \<and> (\<forall>t. bt_get changed' t = (if t \<in> set ts then map_option Some (bt_get (vsti_info s) t) else bt_get changed t))"
  using assms
proof (induction ts arbitrary: s changed)
  case (Cons t ts)
  show ?case
  proof (cases "bt_get (vsti_info s) t")
    case None
    then show ?thesis using Cons.IH [OF Cons.prems(1), of changed] Cons.prems(2,3) by auto
  next
    case (Some e)
    obtain m where m: "remove_table_from_compaction_group (vsti_members s) (sti_compaction_group_id e) t = Some m"
      "bt_ok m" "\<And>g. bt_get m g = members_of (tables_of (vsti_info s) g - {t})"
      using remove_table_correct [OF Cons.prems(1) Some] by metis
    let ?s = "\<lparr>vsti_info = bt_remove t (vsti_info s), vsti_members = m\<rparr>"
    have inv: "vsti_inv ?s"
      using Cons.prems(1) m(2,3) by (simp add: vsti_inv_def bt_remove_ok tables_of_remove)
    have "\<exists>s' changed'. remove_tables ts ?s (bt_insert t (Some e) changed) = Some (s', changed') \<and> vsti_inv s'
      \<and> (\<forall>x. bt_get (vsti_info s') x = (if x \<in> set ts then None else bt_get (vsti_info ?s) x))
      \<and> (\<forall>x. bt_get changed' x = (if x \<in> set ts then map_option Some (bt_get (vsti_info ?s) x)
          else bt_get (bt_insert t (Some e) changed) x))"
      by (rule Cons.IH [OF inv]) (use Cons.prems(2,3) in \<open>auto simp: bt_get_insert\<close>)
    then show ?thesis using Some m(1) Cons.prems(2,3) by (auto simp: bt_get_insert bt_get_remove)
  qed
qed simp

lemma vsti_inv_insert:
  assumes "bt_ok (vsti_info s)" and "bt_ok m"
    and "\<And>g. bt_get m g = members_of (tables_of (bt_insert t e (vsti_info s)) g)"
  shows "vsti_inv \<lparr>vsti_info = bt_insert t e (vsti_info s), vsti_members = m\<rparr>"
  using assms by (simp add: vsti_inv_def bt_insert_ok)

lemma apply_table_delta_correct:
  assumes "vsti_inv s"
  shows "apply_table_delta s t d = None \<longleftrightarrow>
      (\<exists>e. bt_get (vsti_info s) t = Some e \<and> sti_committed_epoch d < sti_committed_epoch e)"
    and "apply_table_delta s t d = Some (s', old, b) \<Longrightarrow> vsti_inv s'
      \<and> bt_get (vsti_info s') = (bt_get (vsti_info s))(t \<mapsto> d) \<and> old = bt_get (vsti_info s) t
      \<and> b = (\<forall>e. old = Some e \<longrightarrow> sti_committed_epoch e < sti_committed_epoch d)"
proof -
  let ?i = "bt_insert t d (vsti_info s)" and ?g = "sti_compaction_group_id d"
  have inv: "bt_ok (vsti_info s)" "bt_ok (vsti_members s)"
    "\<And>g. bt_get (vsti_members s) g = members_of (tables_of (vsti_info s) g)"
    using assms by (simp_all add: vsti_inv_def)
  have "(apply_table_delta s t d = None \<longleftrightarrow>
      (\<exists>e. bt_get (vsti_info s) t = Some e \<and> sti_committed_epoch d < sti_committed_epoch e))
    \<and> (\<forall>s' old b. apply_table_delta s t d = Some (s', old, b) \<longrightarrow> vsti_inv s'
      \<and> bt_get (vsti_info s') = (bt_get (vsti_info s))(t \<mapsto> d) \<and> old = bt_get (vsti_info s) t
      \<and> b = (\<forall>e. old = Some e \<longrightarrow> sti_committed_epoch e < sti_committed_epoch d))"
  proof (cases "bt_get (vsti_info s) t")
    case None
    then have "t \<notin> tables_of (vsti_info s) g" for g by (simp add: tables_of_def)
    then obtain m where m: "add_member ?g t (vsti_members s) = Some m" "bt_ok m"
      "bt_get m = (bt_get (vsti_members s))(?g := members_of (insert t (tables_of (vsti_info s) ?g)))"
      using add_member_correct [OF inv(2) inv(3) finite_tables_of] by metis
    have "vsti_inv \<lparr>vsti_info = ?i, vsti_members = m\<rparr>"
      by (rule vsti_inv_insert [OF inv(1) m(2)])
        (use \<open>\<And>g. t \<notin> tables_of (vsti_info s) g\<close> in \<open>simp add: m(3) inv(3) tables_of_insert\<close>)
    then show ?thesis using None m(1) by (simp add: apply_table_delta_def bt_get_insert)
  next
    case (Some e)
    show ?thesis
    proof (cases "sti_compaction_group_id e = ?g")
      case True
      have "t \<in> tables_of (vsti_info s) ?g" using Some True by (simp add: tables_of_def)
      then have "tables_of ?i g = tables_of (vsti_info s) g" for g
        using Some True by (auto simp: tables_of_insert insert_absorb dest: tables_of_other)
      then have "vsti_inv \<lparr>vsti_info = ?i, vsti_members = vsti_members s\<rparr>"
        by (intro vsti_inv_insert [OF inv(1,2)]) (simp add: inv(3))
      then show ?thesis using Some True by (auto simp: apply_table_delta_def bt_get_insert not_le)
    next
      case False
      obtain m where m: "remove_table_from_compaction_group (vsti_members s) (sti_compaction_group_id e) t = Some m"
        "bt_ok m" "\<And>g. bt_get m g = members_of (tables_of (vsti_info s) g - {t})"
        using remove_table_correct [OF assms Some] by metis
      obtain m' where m': "add_member ?g t m = Some m'" "bt_ok m'"
        "bt_get m' = (bt_get m)(?g := members_of (insert t (tables_of (vsti_info s) ?g - {t})))"
        using add_member_correct [OF m(2) m(3) [of ?g], of t] by auto
      have "vsti_inv \<lparr>vsti_info = ?i, vsti_members = m'\<rparr>"
        by (rule vsti_inv_insert [OF inv(1) m'(2)]) (simp add: m'(3) m(3) tables_of_insert)
      then show ?thesis using Some False m(1) m'(1) by (auto simp: apply_table_delta_def bt_get_insert not_le)
    qed
  qed
  then show "apply_table_delta s t d = None \<longleftrightarrow>
      (\<exists>e. bt_get (vsti_info s) t = Some e \<and> sti_committed_epoch d < sti_committed_epoch e)"
    and "apply_table_delta s t d = Some (s', old, b) \<Longrightarrow> vsti_inv s'
      \<and> bt_get (vsti_info s') = (bt_get (vsti_info s))(t \<mapsto> d) \<and> old = bt_get (vsti_info s) t
      \<and> b = (\<forall>e. old = Some e \<longrightarrow> sti_committed_epoch e < sti_committed_epoch d)" by blast+
qed


definition epoch_regresses ::
    "version_state_table_info \<Rightarrow> (table_id \<times> state_table_info) list \<Rightarrow> table_id list \<Rightarrow> bool" where
  "epoch_regresses s delta removed = (\<exists>(t, d) \<in> set delta. t \<notin> set removed \<and>
     (case bt_get (vsti_info s) t of None \<Rightarrow> False | Some e \<Rightarrow> sti_committed_epoch d < sti_committed_epoch e))"

definition epoch_advances ::
    "version_state_table_info \<Rightarrow> (table_id \<times> state_table_info) list \<Rightarrow> table_id list \<Rightarrow> bool" where
  "epoch_advances s delta removed = (\<exists>(t, d) \<in> set delta. t \<notin> set removed \<and>
     (case bt_get (vsti_info s) t of None \<Rightarrow> True | Some e \<Rightarrow> sti_committed_epoch e < sti_committed_epoch d))"

definition effective :: "(table_id \<times> state_table_info) list \<Rightarrow> table_id list \<Rightarrow> table_id \<Rightarrow> state_table_info option" where
  "effective delta removed = map_of delta |` (- set removed)"

lemma effective_Nil: "effective [] removed = Map.empty"
  by (simp add: effective_def)

lemma effective_removed: "t \<in> set removed \<Longrightarrow> effective ((t, d) # delta) removed = effective delta removed"
  by (auto simp: effective_def restrict_map_def)

lemma effective_step: "t \<notin> set removed \<Longrightarrow> effective ((t, d) # delta) removed = (effective delta removed)(t \<mapsto> d)"
  by (auto simp: effective_def restrict_map_def)

lemma effective_None: "map_of delta t = None \<Longrightarrow> effective delta removed t = None"
  by (simp add: effective_def restrict_map_def)

definition deltas_spec where
  "deltas_spec s delta removed changed b r = (case r of
      None \<Rightarrow> epoch_regresses s delta removed
    | Some (s', changed', b') \<Rightarrow> \<not> epoch_regresses s delta removed \<and> vsti_inv s'
        \<and> bt_get (vsti_info s') = bt_get (vsti_info s) ++ effective delta removed
        \<and> bt_get changed' = bt_get changed ++ (\<lambda>t. map_option (\<lambda>d. bt_get (vsti_info s) t) (effective delta removed t))
        \<and> b' = (b \<or> epoch_advances s delta removed))"

lemma deltas_spec_step:
  assumes "deltas_spec s1 delta removed (bt_insert t (bt_get (vsti_info s) t) changed) (b \<or> b1) r"
    and "t \<notin> set removed" and "effective delta removed t = None"
    and "bt_get (vsti_info s1) = (bt_get (vsti_info s))(t \<mapsto> d)"
    and "epoch_regresses s ((t, d) # delta) removed = epoch_regresses s1 delta removed"
    and "epoch_advances s ((t, d) # delta) removed = (b1 \<or> epoch_advances s1 delta removed)"
  shows "deltas_spec s ((t, d) # delta) removed changed b r"
proof (cases r)
  case None
  then show ?thesis using assms(1,5) by (simp add: deltas_spec_def)
next
  case (Some x)
  obtain s' c' b' where x: "x = (s', c', b')" by (cases x)
  have "bt_get (vsti_info s1) ++ effective delta removed = bt_get (vsti_info s) ++ effective ((t, d) # delta) removed"
    using assms(3)
    by (simp add: effective_step [OF assms(2)] assms(4) fun_eq_iff map_add_def split: option.split)
  moreover have "bt_get (bt_insert t (bt_get (vsti_info s) t) changed)
        ++ (\<lambda>u. map_option (\<lambda>d. bt_get (vsti_info s1) u) (effective delta removed u))
      = bt_get changed ++ (\<lambda>u. map_option (\<lambda>d. bt_get (vsti_info s) u) (effective ((t, d) # delta) removed u))"
    using assms(3)
    by (simp add: effective_step [OF assms(2)] assms(4) bt_get_insert fun_eq_iff map_add_def split: option.split)
  ultimately show ?thesis using assms(1,5,6) Some x by (simp add: deltas_spec_def)
qed

lemma apply_table_deltas_correct:
  assumes "vsti_inv s" and "distinct (map fst delta)"
  shows "deltas_spec s delta removed changed b (apply_table_deltas delta removed s changed b)"
  using assms
proof (induction delta arbitrary: s changed b)
  case Nil
  then show ?case
    by (simp add: deltas_spec_def epoch_regresses_def epoch_advances_def effective_Nil map_add_def)
next
  case (Cons x delta)
  obtain t d where x: "x = (t, d)" by (cases x)
  have dist: "distinct (map fst delta)" and t: "map_of delta t = None" "\<And>d. (t, d) \<notin> set delta"
    using Cons.prems(2) x by (auto simp: map_of_eq_None_iff rev_image_eqI)
  show ?case
  proof (cases "t \<in> set removed")
    case True
    then have eqs: "epoch_regresses s ((t, d) # delta) removed = epoch_regresses s delta removed"
      "epoch_advances s ((t, d) # delta) removed = epoch_advances s delta removed"
      by (simp_all add: epoch_regresses_def epoch_advances_def)
    have "deltas_spec s ((t, d) # delta) removed changed b r = deltas_spec s delta removed changed b r" for r
      by (simp only: deltas_spec_def eqs effective_removed [OF True])
    then show ?thesis using Cons.IH [OF Cons.prems(1) dist, of changed b] True by (simp add: x)
  next
    case False
    show ?thesis
    proof (cases "apply_table_delta s t d")
      case None
      then have "epoch_regresses s (x # delta) removed"
        using apply_table_delta_correct(1) [OF Cons.prems(1), of t d] False by (auto simp: x epoch_regresses_def)
      then show ?thesis using None False x by (simp add: deltas_spec_def)
    next
      case (Some r)
      obtain s1 old b1 where r: "r = (s1, old, b1)" by (cases r)
      note step = apply_table_delta_correct(2) [OF Cons.prems(1) Some [unfolded r]]
      have here: "\<not> (case bt_get (vsti_info s) t of None \<Rightarrow> False | Some e \<Rightarrow> sti_committed_epoch d < sti_committed_epoch e)"
        using apply_table_delta_correct(1) [OF Cons.prems(1), of t d] Some by (auto split: option.splits)
      have b1: "b1 = (case bt_get (vsti_info s) t of None \<Rightarrow> True | Some e \<Rightarrow> sti_committed_epoch e < sti_committed_epoch d)"
        using step by (cases "bt_get (vsti_info s) t") simp_all
      have same: "bt_get (vsti_info s1) u = bt_get (vsti_info s) u" if "(u, d') \<in> set delta" for u d'
        using step t(2) that by auto
      have reg: "epoch_regresses s ((t, d) # delta) removed = epoch_regresses s1 delta removed"
        unfolding epoch_regresses_def using here same by fastforce
      have adv: "epoch_advances s ((t, d) # delta) removed = (b1 \<or> epoch_advances s1 delta removed)"
        unfolding epoch_advances_def using b1 same False by fastforce
      have "deltas_spec s1 delta removed (bt_insert t (bt_get (vsti_info s) t) changed) (b \<or> b1)
        (apply_table_deltas delta removed s1 (bt_insert t (bt_get (vsti_info s) t) changed) (b \<or> b1))"
        using Cons.IH step dist by blast
      from deltas_spec_step [OF this False effective_None [OF t(1)] _ reg adv]
      show ?thesis using step Some r False x by simp
    qed
  qed
qed

section \<open>The index rebuilt from the tables\<close>

lemma build_members_correct:
  assumes "bt_ok m" and "\<And>g. bt_get m g = members_of (tables_of p g)" and "distinct (map fst (p @ xs))"
  shows "\<exists>m'. build_members xs m = Some m' \<and> bt_ok m' \<and> (\<forall>g. bt_get m' g = members_of (tables_of (p @ xs) g))"
  using assms
proof (induction xs arbitrary: p m)
  case (Cons x xs)
  obtain t e where x: "x = (t, e)" by (cases x)
  let ?g = "sti_compaction_group_id e"
  have new: "map_of p t = None" using Cons.prems(3) x by (auto simp: map_of_eq_None_iff)
  then have "t \<notin> tables_of p ?g" by (simp add: tables_of_def bt_get_def)
  then obtain m' where m': "add_member ?g t m = Some m'" "bt_ok m'"
    "bt_get m' = (bt_get m)(?g := members_of (insert t (tables_of p ?g)))"
    using add_member_correct [OF Cons.prems(1) Cons.prems(2) finite_tables_of] by metis
  have "tables_of (p @ [x]) g = (if g = ?g then insert t (tables_of p g) else tables_of p g)" for g
    using new by (auto simp: tables_of_def bt_get_def x map_add_def split: option.splits if_splits)
  then have "bt_get m' g = members_of (tables_of (p @ [x]) g)" for g
    by (simp add: m'(3) Cons.prems(2))
  then show ?case using Cons.IH [OF m'(2), of "p @ [x]"] Cons.prems(3) m'(1) x by simp
qed simp

lemma build_compaction_group_member_tables_correct:
  assumes "bt_ok info"
  shows "\<exists>m. build_compaction_group_member_tables info = Some m \<and> vsti_inv \<lparr>vsti_info = info, vsti_members = m\<rparr>"
  using build_members_correct [of "[]" "[]" info] bt_ok_distinct [OF assms] assms
  by (auto simp: build_compaction_group_member_tables_def vsti_inv_def members_of_def tables_of_def bt_get_def)

lemma vsti_inv_iff:
  "vsti_inv s \<longleftrightarrow> bt_ok (vsti_info s) \<and> build_compaction_group_member_tables (vsti_info s) = Some (vsti_members s)"
proof -
  have "vsti_members s = m" if "vsti_inv s" and "vsti_inv \<lparr>vsti_info = vsti_info s, vsti_members = m\<rparr>" for m
    by (rule bt_ext) (use that in \<open>simp_all add: vsti_inv_def fun_eq_iff\<close>)
  moreover have "bt_ok (vsti_info s)" if "vsti_inv s" using that by (simp add: vsti_inv_def)
  moreover have "vsti_inv s" if "vsti_inv \<lparr>vsti_info = vsti_info s, vsti_members = vsti_members s\<rparr>"
    using that by (simp add: vsti_inv_def)
  ultimately show ?thesis
    using build_compaction_group_member_tables_correct [of "vsti_info s"] by (metis option.inject)
qed

lemma vsti_from_protobuf_inv: "bt_ok info \<Longrightarrow> \<exists>s. vsti_from_protobuf info = Some s \<and> vsti_inv s \<and> vsti_info s = info"
  using build_compaction_group_member_tables_correct [of info] by (auto simp: vsti_from_protobuf_def)

lemma compaction_group_member_table_ids_set:
  "vsti_inv s \<Longrightarrow> compaction_group_member_table_ids s g = sorted_list_of_set (tables_of (vsti_info s) g)"
  by (simp add: vsti_inv_def compaction_group_member_table_ids_def members_of_def)

section \<open>Properties\<close>

lemma vsti_apply_delta_correct:
  assumes "bt_ok (vsti_info s)"
    and "build_compaction_group_member_tables (vsti_info s) = Some (vsti_members s)"
    and "distinct (map fst delta)" and "distinct removed"
  shows "case vsti_apply_delta s delta removed of
      None \<Rightarrow> epoch_regresses s delta removed
    | Some (s', changed, bumped) \<Rightarrow> \<not> epoch_regresses s delta removed
        \<and> bt_ok (vsti_info s')
        \<and> build_compaction_group_member_tables (vsti_info s') = Some (vsti_members s')
        \<and> bt_get (vsti_info s') = (bt_get (vsti_info s) ++ map_of delta) |` (- set removed)
        \<and> bt_get changed = (\<lambda>t. if t \<in> set removed then map_option Some (bt_get (vsti_info s) t)
             else map_option (\<lambda>d. bt_get (vsti_info s) t) (map_of delta t))
        \<and> bumped = epoch_advances s delta removed"
proof -
  have inv: "vsti_inv s" using assms(1,2) by (simp add: vsti_inv_iff)
  obtain s1 c1 where rem: "remove_tables removed s [] = Some (s1, c1)" "vsti_inv s1"
    "\<And>t. bt_get (vsti_info s1) t = (if t \<in> set removed then None else bt_get (vsti_info s) t)"
    "\<And>t. bt_get c1 t = (if t \<in> set removed then map_option Some (bt_get (vsti_info s) t) else None)"
    using remove_tables_correct [OF inv assms(4), of "[]"] by (auto simp: bt_get_def)
  have eqs: "epoch_regresses s1 delta removed = epoch_regresses s delta removed"
    "epoch_advances s1 delta removed = epoch_advances s delta removed"
    unfolding epoch_regresses_def epoch_advances_def by (rule bex_cong [OF refl]; auto simp: rem(3))+
  have restr: "bt_get (vsti_info s1) = bt_get (vsti_info s) |` (- set removed)"
    by (auto simp: rem(3) restrict_map_def)
  have spec: "deltas_spec s1 delta removed c1 False (vsti_apply_delta s delta removed)"
    using apply_table_deltas_correct [OF rem(2) assms(3)] by (simp add: vsti_apply_delta_def rem(1))
  have info: "bt_get (vsti_info s1) ++ effective delta removed = (bt_get (vsti_info s) ++ map_of delta) |` (- set removed)"
    by (simp add: restr effective_def fun_eq_iff map_add_def restrict_map_def split: option.split)
  have changed: "bt_get c1 ++ (\<lambda>t. map_option (\<lambda>d. bt_get (vsti_info s1) t) (effective delta removed t))
      = (\<lambda>t. if t \<in> set removed then map_option Some (bt_get (vsti_info s) t)
             else map_option (\<lambda>d. bt_get (vsti_info s) t) (map_of delta t))"
    by (simp add: rem(3,4) effective_def fun_eq_iff map_add_def restrict_map_def split: option.split)
  show ?thesis
  proof (cases "vsti_apply_delta s delta removed")
    case None
    then show ?thesis using spec by (simp add: deltas_spec_def eqs)
  next
    case (Some x)
    then show ?thesis using spec by (cases x) (simp add: deltas_spec_def eqs info changed vsti_inv_iff)
  qed
qed

text \<open>
  C21. Applying a delta to the state tables of a version panics exactly when the delta lowers the
  committed epoch of a table it does not remove. Otherwise the removed tables are gone, every other
  table of the delta has its new committed epoch and group and all remaining tables are unchanged;
  the index of member tables is the one rebuilt from the tables, as the assertion at the end of the
  code demands; the returned map has for each table touched what was known of it before; and the
  returned flag says whether some committed epoch advanced.
\<close>

theorem vsti_apply_delta_exact:
  assumes "bt_ok (vsti_info s)"
    and "build_compaction_group_member_tables (vsti_info s) = Some (vsti_members s)"
    and "distinct (map fst delta)" and "distinct removed"
  shows "case vsti_apply_delta s delta removed of
      None \<Rightarrow> epoch_regresses s delta removed
    | Some (s', changed, bumped) \<Rightarrow> \<not> epoch_regresses s delta removed
        \<and> bt_ok (vsti_info s')
        \<and> build_compaction_group_member_tables (vsti_info s') = Some (vsti_members s')
        \<and> bt_get (vsti_info s') = (bt_get (vsti_info s) ++ map_of delta) |` (- set removed)
        \<and> bt_get changed = (\<lambda>t. if t \<in> set removed then map_option Some (bt_get (vsti_info s) t)
             else map_option (\<lambda>d. bt_get (vsti_info s) t) (map_of delta t))
        \<and> bumped = epoch_advances s delta removed"
  by (rule vsti_apply_delta_correct [OF assms])

definition example_tables :: version_state_table_info where
  "example_tables = \<lparr>vsti_info = [(1, \<lparr>sti_committed_epoch = 10, sti_compaction_group_id = 2\<rparr>),
                                  (2, \<lparr>sti_committed_epoch = 10, sti_compaction_group_id = 2\<rparr>)],
                     vsti_members = [(2, [1, 2])]\<rparr>"

theorem vsti_apply_delta_exact_witness:
  "case vsti_apply_delta example_tables
      [(1, \<lparr>sti_committed_epoch = 20, sti_compaction_group_id = 3\<rparr>),
       (2, \<lparr>sti_committed_epoch = 5, sti_compaction_group_id = 2\<rparr>)] [2] of
    None \<Rightarrow> False
  | Some (s', changed, bumped) \<Rightarrow>
      bt_get (vsti_info s') 1 = Some \<lparr>sti_committed_epoch = 20, sti_compaction_group_id = 3\<rparr>
      \<and> bt_get (vsti_info s') 2 = None \<and> bumped"
proof -
  let ?d = "[(1, \<lparr>sti_committed_epoch = 20, sti_compaction_group_id = 3\<rparr>),
       (2, \<lparr>sti_committed_epoch = 5, sti_compaction_group_id = 2\<rparr>)] :: (table_id \<times> state_table_info) list"
  have ok: "bt_ok (vsti_info example_tables)"
    "build_compaction_group_member_tables (vsti_info example_tables) = Some (vsti_members example_tables)"
    "distinct (map fst ?d)" "distinct [2 :: table_id]"
    by (simp_all add: example_tables_def build_compaction_group_member_tables_def add_member_def bt_get_def word_le_nat_alt)
  have no: "\<not> epoch_regresses example_tables ?d [2]"
    and up: "epoch_advances example_tables ?d [2]"
    by (simp_all add: epoch_regresses_def epoch_advances_def example_tables_def bt_get_def)
  show ?thesis
    using vsti_apply_delta_exact [OF ok] no up
    by (cases "vsti_apply_delta example_tables ?d [2]") (auto simp: map_add_def)
qed

text \<open>
  A set of state tables read from its protobuf form never trips the assertion in the index
  construction, holds exactly the tables of the message, lists for each group exactly its tables in
  ascending order, and is written back as the message it was read from.
\<close>

lemma vsti_protobuf_round_trip:
  assumes "bt_ok info"
  obtains s where "vsti_from_protobuf info = Some s" and "vsti_to_protobuf s = info"
    and "\<And>g. sorted_wrt (<) (compaction_group_member_table_ids s g)"
    and "\<And>g. set (compaction_group_member_table_ids s g) =
           {t. \<exists>e. bt_get info t = Some e \<and> sti_compaction_group_id e = g}"
proof -
  obtain s where s: "vsti_from_protobuf info = Some s" "vsti_inv s" "vsti_info s = info"
    using vsti_from_protobuf_inv [OF assms] by blast
  show thesis
    by (rule that [OF s(1)])
      (simp_all add: s(3) vsti_to_protobuf_def compaction_group_member_table_ids_set [OF s(2)] strict_sorted_list_of_set,
        simp add: tables_of_def)
qed

text \<open>
  The greatest committed epoch of a version is that of one of its tables and no table is
  committed beyond it; there is none exactly when the version has no table.
\<close>

lemma max_table_committed_epoch_exact:
  "case max_table_committed_epoch s of
     None \<Rightarrow> vsti_info s = []
   | Some e \<Rightarrow> e \<in> (\<lambda>x. sti_committed_epoch (snd x)) ` set (vsti_info s)
       \<and> Max ((\<lambda>x. sti_committed_epoch (snd x)) ` set (vsti_info s)) = e"
proof (cases "map (\<lambda>e. sti_committed_epoch (snd e)) (vsti_info s)")
  case (Cons x xs)
  have "fold max xs x = Max (set (x # xs))" by (simp only: Max.set_eq_fold)
  moreover have "set (x # xs) = (\<lambda>x. sti_committed_epoch (snd x)) ` set (vsti_info s)"
    unfolding Cons [symmetric] by simp
  moreover have "Max (set (x # xs)) \<in> set (x # xs)" by (rule Max_in) simp_all
  ultimately show ?thesis by (simp add: max_table_committed_epoch_def Cons)
qed (simp add: max_table_committed_epoch_def)

end
