(* ===== verification/Bitmap.thy ===== *)
theory Bitmap
  imports Hummock_Prelude
begin

text \<open>
  The packed bitmaps of \<^verbatim>\<open>common/src/bitmap.rs\<close>: bits are kept in 64-bit words, the
  number of ones is cached, and the words are dropped when all bits are equal. The theory models
  the builder, the bitmap and its iterators word by word and relates them to lists of booleans.
  Reading a word past the end of the buffer without a bounds check is undefined behaviour in the
  source; here it is an unspecified value, and the lemmas show that it does not happen.
\<close>

unbundle bit_operations_syntax

section \<open>Words\<close>

definition vec_len :: "nat \<Rightarrow> nat" where
  "vec_len num_bits = (num_bits + 63) div 64"

definition bit_mask :: "nat \<Rightarrow> u64" where
  "bit_mask k = push_bit k 1"

definition low_mask :: "nat \<Rightarrow> u64" where
  "low_mask k = push_bit k 1 - 1"

definition word_count_ones :: "u64 \<Rightarrow> u32" where
  "word_count_ones w = word_of_nat (length (filter (bit w) [0..<64]))"

definition words_count_ones :: "u64 list \<Rightarrow> nat" where
  "words_count_ones ws = unat (sum_list (map word_count_ones ws))"

definition trailing_zeros :: "u64 \<Rightarrow> nat" where
  "trailing_zeros w = length (takeWhile (\<lambda>k. \<not> bit w k) [0..<64])"

definition vec_resize :: "nat \<Rightarrow> 'a \<Rightarrow> 'a list \<Rightarrow> 'a list" where
  "vec_resize n x xs = take n xs @ replicate (n - length xs) x"

text \<open>\<open>data[i] &= mask\<close> and \<open>*data.last_mut().unwrap() &= mask\<close>.\<close>

definition and_at :: "nat \<Rightarrow> u64 \<Rightarrow> u64 list \<Rightarrow> u64 list option" where
  "and_at i m ws = (if i < length ws then Some (ws[i := ws ! i AND m]) else None)"

definition and_last :: "u64 \<Rightarrow> u64 list \<Rightarrow> u64 list option" where
  "and_last m ws = (if ws = [] then None else and_at (length ws - 1) m ws)"

section \<open>The bitmap\<close>

record bitmap =
  bm_num_bits :: nat
  bm_count_ones :: nat
  bm_words :: "u64 list option"

definition bm_zeros :: "nat \<Rightarrow> bitmap" where
  "bm_zeros n = \<lparr>bm_num_bits = n, bm_count_ones = 0, bm_words = None\<rparr>"

definition bm_ones :: "nat \<Rightarrow> bitmap" where
  "bm_ones n = \<lparr>bm_num_bits = n, bm_count_ones = n, bm_words = None\<rparr>"

definition from_vec_with_len :: "u64 list \<Rightarrow> nat \<Rightarrow> bitmap" where
  "from_vec_with_len buf num_bits =
     (let count_ones = words_count_ones buf in
      \<lparr>bm_num_bits = num_bits, bm_count_ones = count_ones,
       bm_words = (if count_ones \<noteq> 0 \<and> count_ones \<noteq> num_bits then Some buf else None)\<rparr>)"

text \<open>The words whose bytes in memory, in little-endian order, are the given bytes.\<close>

definition le_word :: "bytes \<Rightarrow> u64" where
  "le_word bs = foldr (\<lambda>b w. ucast b OR push_bit 8 w) bs 0"

definition le_words :: "nat \<Rightarrow> bytes \<Rightarrow> u64 list" where
  "le_words n bs = map (\<lambda>i. le_word (take 8 (drop (8 * i) bs))) [0..<n]"

definition word_bytes :: "u64 \<Rightarrow> bytes" where
  "word_bytes w = map (\<lambda>j. ucast (drop_bit (8 * j) w)) [0..<8]"

definition from_bytes_with_len :: "bytes \<Rightarrow> nat \<Rightarrow> bitmap option" where
  "from_bytes_with_len buf num_bits =
     (let n = vec_len num_bits in
      if length buf > n * 8 then None
      else Some (from_vec_with_len (le_words n (buf @ replicate (n * 8 - length buf) 0)) num_bits))"

definition bm_from_bytes :: "bytes \<Rightarrow> bitmap option" where
  "bm_from_bytes buf = from_bytes_with_len buf (length buf * 8)"

text \<open>A chunk of at most 64 booleans as a word, lowest bit first.\<close>

definition bools_word :: "bool list \<Rightarrow> u64" where
  "bools_word bs = fold (\<lambda>(i, b) w. w OR push_bit i (of_bool b)) (enumerate 0 bs) 0"

fun bools_words :: "bool list \<Rightarrow> u64 list" where
  "bools_words bs = (if bs = [] then [] else bools_word (take 64 bs) # bools_words (drop 64 bs))"

declare bools_words.simps [simp del]

definition from_bool_slice :: "bool list \<Rightarrow> bitmap" where
  "from_bool_slice bools = from_vec_with_len (bools_words bools) (length bools)"

definition is_set_unchecked :: "bitmap \<Rightarrow> nat \<Rightarrow> bool" where
  "is_set_unchecked m idx =
     (case bm_words m of
        None \<Rightarrow> bm_count_ones m \<noteq> 0
      | Some bits \<Rightarrow> bits ! (idx div 64) AND bit_mask (idx mod 64) \<noteq> 0)"

definition bm_is_set :: "bitmap \<Rightarrow> nat \<Rightarrow> bool option" where
  "bm_is_set m idx = (if idx < bm_num_bits m then Some (is_set_unchecked m idx) else None)"

definition next_set_bit :: "bitmap \<Rightarrow> nat \<Rightarrow> nat option" where
  "next_set_bit m bit_idx = find (is_set_unchecked m) [bit_idx..<bm_num_bits m]"

definition bm_any :: "bitmap \<Rightarrow> bool" where
  "bm_any m = (bm_count_ones m \<noteq> 0)"

definition bm_all :: "bitmap \<Rightarrow> bool" where
  "bm_all m = (bm_count_ones m = bm_num_bits m)"

definition from_range_words :: "nat \<Rightarrow> nat \<Rightarrow> u64 list \<Rightarrow> u64 list option" where
  "from_range_words a b bits =
     (let start = a div 64; e = b div 64; start_offset = a mod 64; end_offset = b mod 64 in
      if \<not> start < length bits then None
      else if start = e then
        Some (bits[start := push_bit start_offset (push_bit (end_offset - start_offset) 1 - 1)])
      else if \<not> (start + 1 \<le> e \<and> e \<le> length bits) then None
      else (let bits = bits[start := push_bit start_offset (NOT 0)];
                bits = take (start + 1) bits @ replicate (e - (start + 1)) (NOT 0) @ drop e bits in
            if end_offset \<noteq> 0
            then if \<not> e < length bits then None else Some (bits[e := low_mask end_offset])
            else Some bits))"

definition bm_from_range :: "nat \<Rightarrow> nat \<Rightarrow> nat \<Rightarrow> bitmap option" where
  "bm_from_range num_bits a b =
     (if \<not> a \<le> b then None
      else if \<not> b \<le> num_bits then None
      else if a = b then Some (bm_zeros num_bits)
      else if a = 0 \<and> b = num_bits then Some (bm_ones num_bits)
      else do { bits \<leftarrow> from_range_words a b (replicate (vec_len num_bits) 0);
                Some \<lparr>bm_num_bits = num_bits, bm_count_ones = b - a, bm_words = Some bits\<rparr> })"

definition bm_not :: "bitmap \<Rightarrow> bitmap option" where
  "bm_not m =
     (case bm_words m of
        None \<Rightarrow> Some (if bm_count_ones m = 0 then bm_ones (bm_num_bits m) else bm_zeros (bm_num_bits m))
      | Some bits \<Rightarrow>
          do { bits \<leftarrow> (let inv = map NOT bits in
                 if bm_num_bits m mod 64 \<noteq> 0
                 then and_at (bm_num_bits m div 64) (low_mask (bm_num_bits m mod 64)) inv
                 else Some inv);
               Some \<lparr>bm_num_bits = bm_num_bits m,
                     bm_count_ones = bm_num_bits m - bm_count_ones m, bm_words = Some bits\<rparr> })"

definition bm_and :: "bitmap \<Rightarrow> bitmap \<Rightarrow> bitmap option" where
  "bm_and l r =
     (if bm_num_bits l \<noteq> bm_num_bits r then None
      else if bm_count_ones l = 0 \<or> bm_count_ones r = 0 then Some (bm_zeros (bm_num_bits l))
      else (case (bm_words l, bm_words r) of
              (_, None) \<Rightarrow> Some l
            | (None, Some _) \<Rightarrow> Some r
            | (Some lbits, Some rbits) \<Rightarrow>
                Some (from_vec_with_len (map2 (AND) lbits rbits) (bm_num_bits l))))"

definition bm_or :: "bitmap \<Rightarrow> bitmap \<Rightarrow> bitmap option" where
  "bm_or l r =
     (if bm_num_bits l \<noteq> bm_num_bits r then None
      else if bm_count_ones l = bm_num_bits l \<or> bm_count_ones r = bm_num_bits l
        then Some (bm_ones (bm_num_bits l))
      else (case (bm_words l, bm_words r) of
              (_, None) \<Rightarrow> Some l
            | (None, Some _) \<Rightarrow> Some r
            | (Some lbits, Some rbits) \<Rightarrow>
                Some (from_vec_with_len (map2 (OR) lbits rbits) (bm_num_bits l))))"

definition bm_xor :: "bitmap \<Rightarrow> bitmap \<Rightarrow> bitmap option" where
  "bm_xor l r =
     (if bm_num_bits l \<noteq> bm_num_bits r then None
      else (case (bm_words l, bm_words r) of
              (_, None) \<Rightarrow> if bm_count_ones r = 0 then Some l else bm_not l
            | (None, Some _) \<Rightarrow> if bm_count_ones l = 0 then Some r else bm_not r
            | (Some lbits, Some rbits) \<Rightarrow>
                Some (from_vec_with_len (map2 (XOR) lbits rbits) (bm_num_bits l))))"

section \<open>Iterators\<close>

record bitmap_iter =
  bi_bits :: "u64 list option"
  bi_idx :: nat
  bi_num_bits :: nat
  bi_current_usize :: u64
  bi_all_ones :: bool

definition bm_iter :: "bitmap \<Rightarrow> bitmap_iter" where
  "bm_iter m = \<lparr>bi_bits = bm_words m, bi_idx = 0, bi_num_bits = bm_num_bits m,
                bi_current_usize = 0, bi_all_ones = (bm_count_ones m = bm_num_bits m)\<rparr>"

definition bi_next :: "bitmap_iter \<Rightarrow> (bool \<times> bitmap_iter) option" where
  "bi_next it =
     (if bi_idx it \<ge> bi_num_bits it then None
      else case bi_bits it of
        None \<Rightarrow> Some (bi_all_ones it, it\<lparr>bi_idx := bi_idx it + 1\<rparr>)
      | Some bits \<Rightarrow>
          (let usize_offset = bi_idx it mod 64;
               current = (if usize_offset = 0 then bits ! (bi_idx it div 64) else bi_current_usize it) in
           Some (current AND bit_mask usize_offset \<noteq> 0,
                 it\<lparr>bi_current_usize := current, bi_idx := bi_idx it + 1\<rparr>)))"

definition bi_next_always_load_usize :: "bitmap_iter \<Rightarrow> (bool \<times> bitmap_iter) option \<times> bitmap_iter" where
  "bi_next_always_load_usize it =
     (if bi_idx it \<ge> bi_num_bits it then (None, it)
      else case bi_bits it of
        None \<Rightarrow> (let it' = it\<lparr>bi_idx := bi_idx it + 1\<rparr> in (Some (bi_all_ones it, it'), it'))
      | Some bits \<Rightarrow>
          (let current = bits ! (bi_idx it div 64);
               it' = it\<lparr>bi_current_usize := current, bi_idx := bi_idx it + 1\<rparr> in
           (Some (current AND bit_mask (bi_idx it mod 64) \<noteq> 0, it'), it')))"

definition bi_nth :: "bitmap_iter \<Rightarrow> nat \<Rightarrow> (bool \<times> bitmap_iter) option \<times> bitmap_iter" where
  "bi_nth it n = bi_next_always_load_usize (it\<lparr>bi_idx := bi_idx it + n\<rparr>)"

text \<open>Running an iterator to its end.\<close>

function bi_collect :: "bitmap_iter \<Rightarrow> bool list" where
  "bi_collect it = (case bi_next it of None \<Rightarrow> [] | Some (b, it') \<Rightarrow> b # bi_collect it')"
  by auto
termination
  by (relation "measure (\<lambda>it. bi_num_bits it - bi_idx it)")
    (auto simp: bi_next_def Let_def split: if_splits option.splits)

declare bi_collect.simps [simp del]

datatype ones_iter = OnesRange nat nat | OnesBuffer "u64 list" nat "u64 option"

definition iter_ones :: "bitmap \<Rightarrow> ones_iter" where
  "iter_ones m = (case bm_words m of
     Some bits \<Rightarrow> OnesBuffer bits 0 (case bits of [] \<Rightarrow> None | w # _ \<Rightarrow> Some w)
   | None \<Rightarrow> OnesRange 0 (bm_count_ones m))"

function skip_zero_words :: "u64 list \<Rightarrow> nat \<Rightarrow> u64 option \<Rightarrow> nat \<times> u64 option" where
  "skip_zero_words bits i cur =
     (if cur = Some 0
      then skip_zero_words bits (i + 1) (if i + 1 \<ge> length bits then None else Some (bits ! (i + 1)))
      else (i, cur))"
  by auto
termination
  by (relation "measure (\<lambda>(bits, i, cur). (length bits - i) + (if cur = None then 0 else 1))") auto

declare skip_zero_words.simps [simp del]

fun ones_next :: "ones_iter \<Rightarrow> (nat \<times> ones_iter) option" where
  "ones_next (OnesRange s e) = (if s \<ge> e then None else Some (s, OnesRange (s + 1) e))"
| "ones_next (OnesBuffer bits i cur) =
     (case skip_zero_words bits i cur of
        (i, None) \<Rightarrow> None
      | (i, Some w) \<Rightarrow>
          let low_bit = w AND (- w) in
          Some (i * 64 + trailing_zeros w, OnesBuffer bits i (Some (w XOR low_bit))))"

text \<open>
  The runs of ones, as pairs of first and last position: the closure of \<open>filter_map\<close> with its
  captured start, applied to the bits followed by one zero.
\<close>

fun high_ranges_from :: "nat \<Rightarrow> nat option \<Rightarrow> bool list \<Rightarrow> (nat \<times> nat) list" where
  "high_ranges_from i start [] = []"
| "high_ranges_from i start (b # bs) =
     (case (b, start) of
        (True, None) \<Rightarrow> high_ranges_from (i + 1) (Some i) bs
      | (False, Some s) \<Rightarrow> (s, i - 1) # high_ranges_from (i + 1) None bs
      | _ \<Rightarrow> high_ranges_from (i + 1) start bs)"

definition high_ranges :: "bitmap \<Rightarrow> (nat \<times> nat) list" where
  "high_ranges m = high_ranges_from 0 None (bi_collect (bm_iter m) @ [False])"

section \<open>The builder\<close>

record bitmap_builder =
  bb_len :: nat
  bb_data :: "u64 list"

definition bb_zeroed :: "nat \<Rightarrow> bitmap_builder" where
  "bb_zeroed n = \<lparr>bb_len = n, bb_data = replicate (vec_len n) 0\<rparr>"

definition bb_filled :: "nat \<Rightarrow> bitmap_builder" where
  "bb_filled n =
     (let v = vec_len n; data = replicate v (- 1) in
      \<lparr>bb_len = n, bb_data = (if v \<ge> 1 \<and> n mod 64 \<noteq> 0 then data[v - 1 := low_mask (n mod 64)] else data)\<rparr>)"

definition bb_from_bitmap :: "bitmap \<Rightarrow> bitmap_builder" where
  "bb_from_bitmap m =
     (case bm_words m of
        Some bits \<Rightarrow> \<lparr>bb_len = bm_num_bits m, bb_data = bits\<rparr>
      | None \<Rightarrow> if bm_count_ones m = 0 then bb_zeroed (bm_num_bits m) else bb_filled (bm_num_bits m))"

definition bb_set :: "bitmap_builder \<Rightarrow> nat \<Rightarrow> bool \<Rightarrow> bitmap_builder option" where
  "bb_set b n val =
     (if \<not> n < bb_len b then None
      else if \<not> n div 64 < length (bb_data b) then None
      else let w = bb_data b ! (n div 64); mask = bit_mask (n mod 64) in
        Some (b\<lparr>bb_data := (bb_data b)[n div 64 := if val then w OR mask else w AND NOT mask]\<rparr>))"

definition bb_is_set :: "bitmap_builder \<Rightarrow> nat \<Rightarrow> bool option" where
  "bb_is_set b n =
     (if \<not> n < bb_len b then None
      else if \<not> n div 64 < length (bb_data b) then None
      else Some (bb_data b ! (n div 64) AND bit_mask (n mod 64) \<noteq> 0))"

definition bb_append :: "bitmap_builder \<Rightarrow> bool \<Rightarrow> bitmap_builder option" where
  "bb_append b bit_set =
     (let data = (if bb_len b mod 64 = 0 then bb_data b @ [0] else bb_data b); i = bb_len b div 64 in
      if \<not> i < length data then None
      else Some \<lparr>bb_len = bb_len b + 1,
                 bb_data = data[i := data ! i OR push_bit (bb_len b mod 64) (of_bool bit_set)]\<rparr>)"

fun append_until_aligned :: "bitmap_builder \<Rightarrow> nat \<Rightarrow> bool \<Rightarrow> (bitmap_builder \<times> nat) option" where
  "append_until_aligned b 0 bit_set = Some (b, 0)"
| "append_until_aligned b (Suc n) bit_set =
     (if bb_len b mod 64 \<noteq> 0
      then do { b' \<leftarrow> bb_append b bit_set; append_until_aligned b' n bit_set }
      else Some (b, Suc n))"

definition bb_append_n :: "bitmap_builder \<Rightarrow> nat \<Rightarrow> bool \<Rightarrow> bitmap_builder option" where
  "bb_append_n b n bit_set =
     do { (b, n) \<leftarrow> append_until_aligned b n bit_set;
          let len = bb_len b + n;
          let data = vec_resize (vec_len len) (if bit_set then - 1 else 0) (bb_data b);
          data \<leftarrow> (if bit_set \<and> len mod 64 \<noteq> 0 then and_last (low_mask (len mod 64)) data else Some data);
          Some \<lparr>bb_len = len, bb_data = data\<rparr> }"

text \<open>The inner option is the returned \<open>Option<()>\<close> with the shortened builder.\<close>

definition bb_pop :: "bitmap_builder \<Rightarrow> bitmap_builder option option" where
  "bb_pop b =
     (if bb_len b = 0 then Some None
      else let len = bb_len b - 1; data = take (vec_len len) (bb_data b) in
        do { data \<leftarrow> (if len mod 64 \<noteq> 0 then and_last (low_mask (len mod 64)) data else Some data);
             Some (Some \<lparr>bb_len = len, bb_data = data\<rparr>) })"

fun bb_append_all :: "bitmap_builder \<Rightarrow> bool list \<Rightarrow> bitmap_builder option" where
  "bb_append_all b [] = Some b"
| "bb_append_all b (x # xs) = do { b' \<leftarrow> bb_append b x; bb_append_all b' xs }"

definition bb_append_bitmap :: "bitmap_builder \<Rightarrow> bitmap \<Rightarrow> bitmap_builder option" where
  "bb_append_bitmap b other =
     (if bb_len b mod 64 = 0 then
        (let len = bb_len b + bm_num_bits other in
         case bm_words other of
           Some bits \<Rightarrow> Some \<lparr>bb_len = len, bb_data = bb_data b @ bits\<rparr>
         | None \<Rightarrow>
             if bm_count_ones other = 0
             then Some \<lparr>bb_len = len, bb_data = vec_resize (vec_len len) 0 (bb_data b)\<rparr>
             else (let data = vec_resize (vec_len len) (- 1) (bb_data b) in
                   if len mod 64 \<noteq> 0 then
                     if data = [] then None
                     else Some \<lparr>bb_len = len, bb_data = data[length data - 1 := low_mask (len mod 64)]\<rparr>
                   else Some \<lparr>bb_len = len, bb_data = data\<rparr>))
      else bb_append_all b (bi_collect (bm_iter other)))"

definition bb_finish :: "bitmap_builder \<Rightarrow> bitmap" where
  "bb_finish b =
     (let count_ones = words_count_ones (bb_data b) in
      \<lparr>bm_num_bits = bb_len b, bm_count_ones = count_ones,
       bm_words = (if count_ones \<noteq> 0 \<and> count_ones \<noteq> bb_len b then Some (bb_data b) else None)\<rparr>)"

section \<open>Protobuf\<close>

record pb_buffer =
  pb_compression :: int
  pb_body :: bytes

definition bm_to_protobuf :: "bitmap \<Rightarrow> pb_buffer" where
  "bm_to_protobuf m =
     (let n = (bm_num_bits m + 7) div 8; body_len = n + 1; head = word_of_nat (bm_num_bits m mod 8);
          body = (case bm_words m of
             None \<Rightarrow>
               if bm_count_ones m = 0 then vec_resize body_len 0 [head]
               else (let body = vec_resize body_len (- 1) [head] in
                     if bm_num_bits m mod 8 \<noteq> 0
                     then body[body_len - 1 := push_bit (bm_num_bits m mod 8) 1 - 1]
                     else body)
           | Some bits \<Rightarrow> [head] @ take n (concat (map word_bytes bits))) in
      \<lparr>pb_compression = 1, pb_body = body\<rparr>)"

definition bm_from_protobuf :: "pb_buffer \<Rightarrow> bitmap option" where
  "bm_from_protobuf buf =
     (case pb_body buf of
        [] \<Rightarrow> None
      | last_byte_num_bits # rest \<Rightarrow>
          (let unused = unat ((8 - last_byte_num_bits) mod 8) in
           if unused > length rest * 8 then None
           else from_bytes_with_len rest (length rest * 8 - unused)))"

section \<open>Words as lists of bits\<close>

definition wbit :: "u64 list \<Rightarrow> nat \<Rightarrow> bool" where
  "wbit ws i = (i div 64 < length ws \<and> bit (ws ! (i div 64)) (i mod 64))"

definition words_ok :: "nat \<Rightarrow> u64 list \<Rightarrow> bool" where
  "words_ok n ws = (length ws = vec_len n \<and> (\<forall>i \<ge> n. \<not> wbit ws i))"

definition bits_of :: "nat \<Rightarrow> u64 list \<Rightarrow> bool list" where
  "bits_of n ws = map (wbit ws) [0..<n]"

lemma length_bits_of [simp]: "length (bits_of n ws) = n"
  by (simp add: bits_of_def)

lemma nth_bits_of [simp]: "i < n \<Longrightarrow> bits_of n ws ! i = wbit ws i"
  by (simp add: bits_of_def)

lemma bit_u64: "bit (w :: u64) k \<Longrightarrow> k < 64"
  by (auto dest: bit_imp_le_length)

lemma bit_bit_mask [simp]: "bit (bit_mask k) i \<longleftrightarrow> i = k \<and> k < 64"
  by (auto simp: bit_mask_def push_bit_of_1 bit_exp_iff possible_bit_word)

lemma bit_low_mask [simp]: "bit (low_mask k) i \<longleftrightarrow> i < k \<and> i < 64"
proof -
  have "low_mask k = mask k" by (simp add: low_mask_def mask_eq_exp_minus_1 push_bit_eq_mult)
  then show ?thesis by (auto simp: bit_mask_iff)
qed

lemma and_bit_mask: "k < 64 \<Longrightarrow> w AND bit_mask k \<noteq> 0 \<longleftrightarrow> bit w k"
proof -
  assume k: "k < 64"
  have "w AND bit_mask k = (if bit w k then bit_mask k else 0)"
    by (rule bit_eqI) (auto simp: bit_and_iff)
  moreover have "bit_mask k \<noteq> 0" using k bit_bit_mask [of k k] by (metis bit_0_eq bot_apply bot_bool_def)
  ultimately show ?thesis by simp
qed

lemma wbit_words: "j < length ws \<Longrightarrow> k < 64 \<Longrightarrow> wbit ws (64 * j + k) \<longleftrightarrow> bit (ws ! j) k"
  by (simp add: wbit_def)

lemma wbit_imp_less: "wbit ws i \<Longrightarrow> i < 64 * length ws"
  unfolding wbit_def by (metis div_less_iff_less_mult mult.commute zero_less_numeral)

lemma wbit_ext:
  assumes "length ws = length vs" and "\<And>i. i < 64 * length ws \<Longrightarrow> wbit ws i = wbit vs i"
  shows "ws = vs"
proof (rule nth_equalityI [OF assms(1)])
  fix j assume j: "j < length ws"
  show "ws ! j = vs ! j"
  proof (rule bit_eqI)
    fix k assume "possible_bit TYPE(64 word) k"
    then have k: "k < 64" by (simp add: possible_bit_word)
    have "64 * j + k < 64 * length ws" using j k by simp
    then show "bit (ws ! j) k = bit (vs ! j) k"
      using assms(2) [of "64 * j + k"] wbit_words [OF j k] wbit_words [of j vs k] j k assms(1) by simp
  qed
qed

lemma wbit_update:
  "j < length ws \<Longrightarrow> wbit (ws[j := w]) i = (if i div 64 = j then bit w (i mod 64) else wbit ws i)"
  by (auto simp: wbit_def nth_list_update)

lemma wbit_append:
  "wbit (ws @ vs) i = (if i < 64 * length ws then wbit ws i else wbit vs (i - 64 * length ws))"
proof (cases "i < 64 * length ws")
  case True
  then have "i div 64 < length ws" by auto
  then show ?thesis using True by (simp add: wbit_def nth_append)
next
  case False
  then obtain d where d: "i = 64 * length ws + d" using le_Suc_ex not_less by blast
  then have "i div 64 = length ws + d div 64" "i mod 64 = d mod 64" by simp_all
  then show ?thesis using False d by (simp add: wbit_def nth_append)
qed

lemma wbit_Nil [simp]: "\<not> wbit [] i"
  by (simp add: wbit_def)

lemma wbit_replicate_0 [simp]: "\<not> wbit (replicate n 0) i"
  by (simp add: wbit_def)

lemma wbit_replicate_max: "wbit (replicate n (- 1)) i \<longleftrightarrow> i < 64 * n"
  by (auto simp: wbit_def div_less_iff_less_mult)

lemma wbit_take: "wbit (take n ws) i \<longleftrightarrow> i < 64 * n \<and> wbit ws i"
  by (auto simp: wbit_def div_less_iff_less_mult)

lemma wbit_map2:
  assumes "length a = length b" and "\<And>x y k. k < 64 \<Longrightarrow> bit (f x y) k = g (bit x k) (bit y k)" and "\<not> g False False"
  shows "wbit (map2 f a b) i = g (wbit a i) (wbit b i)"
  using assms by (cases "i div 64 < length b") (simp_all add: wbit_def)

lemma wbit_and_at:
  "and_at j m ws = Some vs \<Longrightarrow> wbit vs i = (wbit ws i \<and> (i div 64 = j \<longrightarrow> bit m (i mod 64)))"
  by (auto simp: and_at_def wbit_def nth_list_update bit_and_iff split: if_splits)

lemma vec_len_bounds: "n \<le> 64 * vec_len n" "64 * vec_len n < n + 64"
proof -
  have "64 * vec_len n + (n + 63) mod 64 = n + 63"
    unfolding vec_len_def by (rule mult_div_mod_eq)
  moreover have "(n + 63) mod 64 < 64" by simp
  ultimately show "n \<le> 64 * vec_len n" "64 * vec_len n < n + 64" by linarith+
qed

lemma vec_len_aligned: "n mod 64 = 0 \<Longrightarrow> vec_len n = n div 64"
proof -
  assume "n mod 64 = 0"
  then have "64 * (n div 64) = n" using mult_div_mod_eq [of 64 n] by linarith
  then show ?thesis using vec_len_bounds [of n] by linarith
qed

lemma vec_len_aligned_bits: "n mod 64 = 0 \<Longrightarrow> 64 * vec_len n = n"
  using vec_len_aligned [of n] mult_div_mod_eq [of 64 n] by linarith

lemma vec_len_unaligned: "n mod 64 \<noteq> 0 \<Longrightarrow> vec_len n = Suc (n div 64)"
proof -
  assume "n mod 64 \<noteq> 0"
  moreover have "64 * (n div 64) + n mod 64 = n" "n mod 64 < 64" by simp_all
  ultimately show ?thesis using vec_len_bounds [of n] by linarith
qed

lemma below_unaligned:
  assumes "n mod 64 \<noteq> 0"
  shows "i < n \<longleftrightarrow> i < 64 * vec_len n \<and> (i div 64 = n div 64 \<longrightarrow> i mod 64 < n mod 64)"
proof -
  have n: "64 * (n div 64) + n mod 64 = n" and i: "64 * (i div 64) + i mod 64 = i" "i mod 64 < 64"
    by simp_all
  show ?thesis
  proof (cases "i div 64 = n div 64")
    case True
    then have "i < n \<longleftrightarrow> i mod 64 < n mod 64" using n i by linarith
    then show ?thesis using True vec_len_bounds(1) [of n] by auto
  next
    case False
    then show ?thesis using n i by (auto simp: vec_len_unaligned [OF assms] dest: div_le_mono [of i n 64])
  qed
qed

section \<open>Counting ones\<close>

declare upt_rec_numeral [simp del]

definition count_true :: "bool list \<Rightarrow> nat" where
  "count_true bs = length (filter id bs)"

lemma count_true_le: "count_true bs \<le> length bs"
  by (simp add: count_true_def)

lemma count_true_bits: "count_true (bits_of n ws) = length (filter (wbit ws) [0..<n])"
  by (simp add: count_true_def bits_of_def filter_map comp_def)

lemma filter_wbit_words:
  "length (filter (wbit ws) [0..<64 * length ws]) = sum_list (map (\<lambda>w. length (filter (bit w) [0..<64])) ws)"
proof (induction ws rule: rev_induct)
  case (snoc w ws)
  have split: "[0..<64 * length (ws @ [w])] = [0..<64 * length ws] @ map (\<lambda>k. 64 * length ws + k) [0..<64]"
    using upt_add_eq_append [of 0 "64 * length ws" 64]
      map_add_upt [of "64 * length ws" 64] by (simp add: add.commute)
  have "filter (wbit (ws @ [w])) [0..<64 * length ws] = filter (wbit ws) [0..<64 * length ws]"
    by (rule filter_cong) (auto simp: wbit_append)
  moreover have "filter (wbit (ws @ [w]) \<circ> (\<lambda>k. 64 * length ws + k)) [0..<64] = filter (bit w) [0..<64]"
    by (rule filter_cong) (auto simp: wbit_append wbit_def)
  ultimately show ?case unfolding split by (simp add: filter_map snoc.IH)
qed simp

lemma count_true_words_ok:
  assumes "words_ok n ws"
  shows "count_true (bits_of n ws) = sum_list (map (\<lambda>w. length (filter (bit w) [0..<64])) ws)"
proof -
  have "n \<le> 64 * length ws" using assms vec_len_bounds(1) by (simp add: words_ok_def)
  then have "[0..<64 * length ws] = [0..<n] @ [n..<64 * length ws]"
    using upt_add_eq_append [of 0 n "64 * length ws - n"] by simp
  moreover have "filter (wbit ws) [n..<64 * length ws] = []"
    using assms by (auto simp: words_ok_def filter_empty_conv)
  ultimately show ?thesis by (simp add: count_true_bits flip: filter_wbit_words)
qed

lemma words_count_ones_mod:
  assumes "words_ok n ws"
  shows "words_count_ones ws = count_true (bits_of n ws) mod 2 ^ 32"
proof -
  have "sum_list (map word_count_ones ws) = word_of_nat (sum_list (map (\<lambda>w. length (filter (bit w) [0..<64])) ws))"
    by (induction ws) (simp_all add: word_count_ones_def)
  then show ?thesis
    by (simp add: words_count_ones_def count_true_words_ok [OF assms] unat_of_nat)
qed

lemma words_count_ones_exact:
  assumes "words_ok n ws" and "n < 2 ^ 32"
  shows "words_count_ones ws = count_true (bits_of n ws)"
proof -
  have "count_true (bits_of n ws) < 2 ^ 32" using count_true_le [of "bits_of n ws"] assms(2) by simp
  then show ?thesis by (simp add: words_count_ones_mod [OF assms(1)])
qed

lemma count_true_0_iff: "count_true bs = 0 \<longleftrightarrow> bs = replicate (length bs) False"
  by (induction bs) (auto simp: count_true_def)

lemma count_true_all_iff: "count_true bs = length bs \<longleftrightarrow> bs = replicate (length bs) True"
proof (induction bs)
  case (Cons b bs)
  have "length (filter id bs) \<noteq> Suc (length bs)" using length_filter_le [of id bs] by linarith
  then show ?case using Cons by (auto simp: count_true_def)
qed (simp add: count_true_def)

lemma count_true_not: "count_true (map Not bs) = length bs - count_true bs"
proof (induction bs)
  case (Cons b bs)
  then show ?case by (auto simp: count_true_def Suc_diff_le)
qed (simp add: count_true_def)

section \<open>The bitmap as a list of booleans\<close>

definition bm_bools :: "bitmap \<Rightarrow> bool list" where
  "bm_bools m = (case bm_words m of
     None \<Rightarrow> replicate (bm_num_bits m) (bm_count_ones m \<noteq> 0)
   | Some ws \<Rightarrow> bits_of (bm_num_bits m) ws)"

definition bm_ok :: "bitmap \<Rightarrow> bool" where
  "bm_ok m = (bm_count_ones m = count_true (bm_bools m)
     \<and> (case bm_words m of
          None \<Rightarrow> bm_count_ones m = 0 \<or> bm_count_ones m = bm_num_bits m
        | Some ws \<Rightarrow> words_ok (bm_num_bits m) ws \<and> 0 < bm_count_ones m \<and> bm_count_ones m < bm_num_bits m))"

lemma length_bm_bools [simp]: "length (bm_bools m) = bm_num_bits m"
  by (simp add: bm_bools_def split: option.split)

lemma count_true_replicate [simp]: "count_true (replicate n b) = (if b then n else 0)"
  by (simp add: count_true_def)

lemma bm_ok_count: "bm_ok m \<Longrightarrow> bm_count_ones m = count_true (bm_bools m)"
  by (simp add: bm_ok_def)

lemma bm_zeros_ok [simp]: "bm_ok (bm_zeros n)" "bm_bools (bm_zeros n) = replicate n False"
  by (simp_all add: bm_ok_def bm_zeros_def bm_bools_def)

lemma bm_bools_ones [simp]: "bm_bools (bm_ones n) = replicate n True"
  by (simp add: bm_ones_def bm_bools_def)

lemma bm_ones_ok [simp]: "bm_ok (bm_ones n)"
  by (simp add: bm_ok_def) (simp add: bm_ones_def)

lemma bits_of_inject:
  assumes "words_ok n ws" and "words_ok n vs" and "bits_of n ws = bits_of n vs"
  shows "ws = vs"
proof (rule wbit_ext)
  show "length ws = length vs" using assms(1,2) by (simp add: words_ok_def)
  show "wbit ws i = wbit vs i" for i
    using assms nth_bits_of [of i n ws] nth_bits_of [of i n vs] by (cases "i < n") (auto simp: words_ok_def)
qed

lemma bm_ok_inject:
  assumes "bm_ok a" and "bm_ok b" and "bm_bools a = bm_bools b"
  shows "a = b"
proof -
  have n: "bm_num_bits a = bm_num_bits b" using assms(3) length_bm_bools by metis
  have c: "bm_count_ones a = bm_count_ones b" using assms by (simp add: bm_ok_def)
  have "bm_words a = bm_words b"
    using assms n c bits_of_inject [of "bm_num_bits a"]
    by (auto simp: bm_ok_def bm_bools_def split: option.splits)
  with n c show ?thesis by simp
qed

lemma from_vec_with_len_ok:
  assumes "words_ok n ws" and "n < 2 ^ 32"
  shows "bm_ok (from_vec_with_len ws n)" and "bm_bools (from_vec_with_len ws n) = bits_of n ws"
    and "bm_num_bits (from_vec_with_len ws n) = n"
proof -
  let ?c = "count_true (bits_of n ws)"
  have c: "words_count_ones ws = ?c" by (rule words_count_ones_exact [OF assms])
  have all: "?c = 0 \<Longrightarrow> bits_of n ws = replicate n False" "?c = n \<Longrightarrow> bits_of n ws = replicate n True"
    using count_true_0_iff [of "bits_of n ws"] count_true_all_iff [of "bits_of n ws"] by simp_all
  have fv: "from_vec_with_len ws n = \<lparr>bm_num_bits = n, bm_count_ones = ?c,
      bm_words = (if ?c \<noteq> 0 \<and> ?c \<noteq> n then Some ws else None)\<rparr>"
    by (simp add: from_vec_with_len_def c)
  show bools: "bm_bools (from_vec_with_len ws n) = bits_of n ws"
  proof (cases "?c = 0")
    case True
    then show ?thesis using all(1) by (simp add: fv bm_bools_def)
  next
    case False
    then show ?thesis using all(2) by (cases "?c = n") (simp_all add: fv bm_bools_def)
  qed
  show "bm_ok (from_vec_with_len ws n)"
    using assms(1) count_true_le [of "bits_of n ws"] unfolding bm_ok_def bools by (simp add: fv)
  show "bm_num_bits (from_vec_with_len ws n) = n" by (simp add: from_vec_with_len_def Let_def)
qed

lemma is_set_unchecked_bools: "bm_ok m \<Longrightarrow> i < bm_num_bits m \<Longrightarrow> is_set_unchecked m i = bm_bools m ! i"
proof -
  assume m: "bm_ok m" and i: "i < bm_num_bits m"
  have "i div 64 < length ws" if "words_ok (bm_num_bits m) ws" for ws
  proof -
    have "i < 64 * length ws" using that i vec_len_bounds(1) [of "bm_num_bits m"] by (simp add: words_ok_def)
    then show ?thesis by auto
  qed
  then show ?thesis
    using m i by (auto simp: is_set_unchecked_def bm_bools_def bm_ok_def and_bit_mask wbit_def split: option.splits)
qed

lemma bm_is_set_bools: "bm_ok m \<Longrightarrow> bm_is_set m i = (if i < bm_num_bits m then Some (bm_bools m ! i) else None)"
  by (simp add: bm_is_set_def is_set_unchecked_bools)

section \<open>Bitwise operators\<close>

lemma bm_words_bools: "bm_words m = Some ws \<Longrightarrow> bm_bools m = bits_of (bm_num_bits m) ws"
  by (simp add: bm_bools_def)

lemma bm_no_words: "bm_ok m \<Longrightarrow> bm_words m = None \<Longrightarrow>
    bm_bools m = replicate (bm_num_bits m) (bm_count_ones m \<noteq> 0) \<and> (bm_count_ones m = 0 \<or> bm_count_ones m = bm_num_bits m)"
  by (simp add: bm_bools_def bm_ok_def)

lemma bits_of_map2:
  assumes "words_ok n a" and "words_ok n b" and "\<And>x y k. k < 64 \<Longrightarrow> bit (f x y) k = g (bit x k) (bit y k)"
    and "\<not> g False False"
  shows "words_ok n (map2 f a b)" and "bits_of n (map2 f a b) = map2 g (bits_of n a) (bits_of n b)"
proof -
  have w: "wbit (map2 f a b) i = g (wbit a i) (wbit b i)" for i
    by (rule wbit_map2) (use assms in \<open>simp_all add: words_ok_def\<close>)
  show "words_ok n (map2 f a b)" using assms(1,2,4) by (simp add: words_ok_def w)
  show "bits_of n (map2 f a b) = map2 g (bits_of n a) (bits_of n b)"
    by (rule nth_equalityI) (simp_all add: w)
qed

lemma map2_replicate_left: "length ys = n \<Longrightarrow> map2 f (replicate n x) ys = map (f x) ys"
  by (rule nth_equalityI) simp_all

lemma map2_replicate_right: "length xs = n \<Longrightarrow> map2 f xs (replicate n y) = map (\<lambda>x. f x y) xs"
  by (rule nth_equalityI) simp_all

lemma bools_zero: "bm_ok m \<Longrightarrow> bm_count_ones m = 0 \<Longrightarrow> bm_bools m = replicate (bm_num_bits m) False"
  using count_true_0_iff [of "bm_bools m"] by (simp add: bm_ok_count)

lemma bools_ones: "bm_ok m \<Longrightarrow> bm_count_ones m = bm_num_bits m \<Longrightarrow> bm_bools m = replicate (bm_num_bits m) True"
  using count_true_all_iff [of "bm_bools m"] by (simp add: bm_ok_count)

lemma bm_words_ok: "bm_ok m \<Longrightarrow> bm_words m = Some ws \<Longrightarrow> words_ok (bm_num_bits m) ws"
  by (simp add: bm_ok_def)

lemma bm_and_correct:
  assumes "bm_ok l" and "bm_ok r" and "bm_num_bits l = bm_num_bits r" and "bm_num_bits l < 2 ^ 32"
  shows "\<exists>m. bm_and l r = Some m \<and> bm_ok m \<and> bm_bools m = map2 (\<and>) (bm_bools l) (bm_bools r)"
proof (cases "bm_count_ones l = 0 \<or> bm_count_ones r = 0")
  case True
  then show ?thesis
    using assms bools_zero [OF assms(1)] bools_zero [OF assms(2)]
    by (auto simp: bm_and_def intro!: nth_equalityI)
next
  case False
  show ?thesis
  proof (cases "bm_words l"; cases "bm_words r")
    fix a b assume ab: "bm_words l = Some a" "bm_words r = Some b"
    have ok: "words_ok (bm_num_bits l) a" "words_ok (bm_num_bits l) b"
      using bm_words_ok [OF assms(1) ab(1)] bm_words_ok [OF assms(2) ab(2)] assms(3) by simp_all
    note r = bits_of_map2 [OF ok, of "(AND)" "(\<and>)"]
    show ?thesis
      using False ab assms(3) from_vec_with_len_ok [OF r(1) assms(4)] r(2)
      by (simp add: bm_and_def bm_words_bools bit_and_iff)
  qed (use False assms bools_ones [OF assms(1)] bools_ones [OF assms(2)] bm_no_words [OF assms(1)] bm_no_words [OF assms(2)]
      in \<open>auto simp: bm_and_def intro!: nth_equalityI\<close>)
qed


lemma bm_or_correct:
  assumes "bm_ok l" and "bm_ok r" and "bm_num_bits l = bm_num_bits r" and "bm_num_bits l < 2 ^ 32"
  shows "\<exists>m. bm_or l r = Some m \<and> bm_ok m \<and> bm_bools m = map2 (\<or>) (bm_bools l) (bm_bools r)"
proof (cases "bm_count_ones l = bm_num_bits l \<or> bm_count_ones r = bm_num_bits l")
  case True
  then show ?thesis
    using assms bools_ones [OF assms(1)] bools_ones [OF assms(2)]
    by (auto simp: bm_or_def intro!: nth_equalityI)
next
  case False
  show ?thesis
  proof (cases "bm_words l"; cases "bm_words r")
    fix a b assume ab: "bm_words l = Some a" "bm_words r = Some b"
    have ok: "words_ok (bm_num_bits l) a" "words_ok (bm_num_bits l) b"
      using bm_words_ok [OF assms(1) ab(1)] bm_words_ok [OF assms(2) ab(2)] assms(3) by simp_all
    note r = bits_of_map2 [OF ok, of "(OR)" "(\<or>)"]
    show ?thesis
      using False ab assms(3) from_vec_with_len_ok [OF r(1) assms(4)] r(2)
      by (simp add: bm_or_def bm_words_bools bit_or_iff)
  qed (use False assms bools_zero [OF assms(1)] bools_zero [OF assms(2)] bm_no_words [OF assms(1)] bm_no_words [OF assms(2)]
      in \<open>auto simp: bm_or_def intro!: nth_equalityI\<close>)
qed

lemma bm_not_correct:
  assumes "bm_ok m"
  shows "\<exists>m'. bm_not m = Some m' \<and> bm_ok m' \<and> bm_bools m' = map Not (bm_bools m)"
proof (cases "bm_words m")
  case None
  then show ?thesis using bm_no_words [OF assms None] by (auto simp: bm_not_def)
next
  case (Some ws)
  let ?n = "bm_num_bits m"
  have ok: "words_ok ?n ws" by (rule bm_words_ok [OF assms Some])
  have inv: "wbit (map NOT ws) i \<longleftrightarrow> i < 64 * vec_len ?n \<and> \<not> wbit ws i" for i
    using ok by (auto simp: wbit_def words_ok_def bit_not_iff possible_bit_word div_less_iff_less_mult mult.commute)
  have "\<exists>vs. (if ?n mod 64 \<noteq> 0 then and_at (?n div 64) (low_mask (?n mod 64)) (map NOT ws) else Some (map NOT ws)) = Some vs
      \<and> length vs = vec_len ?n \<and> (\<forall>i. wbit vs i \<longleftrightarrow> i < ?n \<and> \<not> wbit ws i)"
  proof (cases "?n mod 64 = 0")
    case True
    then have "64 * vec_len ?n = ?n" by (rule vec_len_aligned_bits)
    then show ?thesis using True ok inv by (simp add: words_ok_def)
  next
    case False
    then have "?n div 64 < length ws" using ok vec_len_unaligned [OF False] by (simp add: words_ok_def)
    then obtain vs where vs: "and_at (?n div 64) (low_mask (?n mod 64)) (map NOT ws) = Some vs" "length vs = length ws"
      by (simp add: and_at_def)
    then show ?thesis
      using False ok wbit_and_at [OF vs(1)] below_unaligned [OF False] by (auto simp: inv words_ok_def)
  qed
  then obtain vs where vs: "bm_not m = Some \<lparr>bm_num_bits = ?n, bm_count_ones = ?n - bm_count_ones m, bm_words = Some vs\<rparr>"
    "length vs = vec_len ?n" "\<And>i. wbit vs i \<longleftrightarrow> i < ?n \<and> \<not> wbit ws i"
    using Some by (auto simp: bm_not_def Let_def)
  have bools: "bits_of ?n vs = map Not (bm_bools m)"
    by (rule nth_equalityI) (simp_all add: vs(3) bm_words_bools [OF Some])
  have "bm_ok \<lparr>bm_num_bits = ?n, bm_count_ones = ?n - bm_count_ones m, bm_words = Some vs\<rparr>"
    using assms Some vs(2,3) by (auto simp: bm_ok_def bm_bools_def [of "\<lparr>bm_num_bits = _, bm_count_ones = _, bm_words = _\<rparr>"]
        bools count_true_not words_ok_def)
  then show ?thesis using vs(1) bools by (simp add: bm_bools_def)
qed

lemma bm_xor_correct:
  assumes "bm_ok l" and "bm_ok r" and "bm_num_bits l = bm_num_bits r" and "bm_num_bits l < 2 ^ 32"
  shows "\<exists>m. bm_xor l r = Some m \<and> bm_ok m \<and> bm_bools m = map2 (\<noteq>) (bm_bools l) (bm_bools r)"
proof (cases "bm_words r")
  case None
  have "bm_bools r = replicate (bm_num_bits l) (bm_count_ones r \<noteq> 0)"
    using bm_no_words [OF assms(2) None] assms(3) by simp
  then have "map2 (\<noteq>) (bm_bools l) (bm_bools r) = (if bm_count_ones r = 0 then bm_bools l else map Not (bm_bools l))"
    by (auto intro!: nth_equalityI)
  then show ?thesis
    using None assms bm_not_correct [OF assms(1)] by (cases "bm_words l") (auto simp: bm_xor_def)
next
  case (Some b)
  show ?thesis
  proof (cases "bm_words l")
    case None
    have "bm_bools l = replicate (bm_num_bits r) (bm_count_ones l \<noteq> 0)"
      using bm_no_words [OF assms(1) None] assms(3) by simp
    then have "map2 (\<noteq>) (bm_bools l) (bm_bools r) = (if bm_count_ones l = 0 then bm_bools r else map Not (bm_bools r))"
      by (auto intro!: nth_equalityI)
    then show ?thesis
      using None Some assms bm_not_correct [OF assms(2)] by (auto simp: bm_xor_def)
  next
    case (Some a)
    have ok: "words_ok (bm_num_bits l) a" "words_ok (bm_num_bits l) b"
      using bm_words_ok [OF assms(1) Some] bm_words_ok [OF assms(2) \<open>bm_words r = Some b\<close>] assms(3) by simp_all
    note r = bits_of_map2 [OF ok, of "(XOR)" "(\<noteq>)"]
    show ?thesis
      using Some \<open>bm_words r = Some b\<close> assms(3) from_vec_with_len_ok [OF r(1) assms(4)] r(2)
      by (simp add: bm_xor_def bm_words_bools bit_xor_iff)
  qed
qed

section \<open>Iterators\<close>

definition iter_ok :: "bitmap_iter \<Rightarrow> bitmap \<Rightarrow> bool" where
  "iter_ok it m = (bi_bits it = bm_words m \<and> bi_num_bits it = bm_num_bits m
     \<and> bi_all_ones it = (bm_count_ones m = bm_num_bits m)
     \<and> (\<forall>ws. bm_words m = Some ws \<longrightarrow> bi_idx it mod 64 \<noteq> 0 \<longrightarrow> bi_idx it < bm_num_bits m
          \<longrightarrow> bi_current_usize it = ws ! (bi_idx it div 64)))"

lemma Suc_div_64: "Suc n mod 64 \<noteq> 0 \<Longrightarrow> Suc n div 64 = n div 64" for n :: nat
  by (metis div_Suc)

lemma bm_iter_ok: "iter_ok (bm_iter m) m"
  by (simp add: iter_ok_def bm_iter_def)

lemma bi_next_correct:
  assumes "bm_ok m" and "iter_ok it m"
  shows "bi_next it = (if bi_idx it < bm_num_bits m
    then Some (bm_bools m ! bi_idx it, it\<lparr>bi_current_usize := (case bm_words m of None \<Rightarrow> bi_current_usize it | Some ws \<Rightarrow> ws ! (bi_idx it div 64)),
           bi_idx := bi_idx it + 1\<rparr>) else None)"
proof (cases "bi_idx it < bm_num_bits m")
  case True
  show ?thesis
  proof (cases "bm_words m")
    case None
    then show ?thesis
      using True assms bm_no_words [OF assms(1) None] by (auto simp: bi_next_def iter_ok_def)
  next
    case (Some ws)
    have cur: "(if bi_idx it mod 64 = 0 then ws ! (bi_idx it div 64) else bi_current_usize it) = ws ! (bi_idx it div 64)"
      using True Some assms(2) by (simp add: iter_ok_def)
    have "bm_bools m ! bi_idx it \<longleftrightarrow> ws ! (bi_idx it div 64) AND bit_mask (bi_idx it mod 64) \<noteq> 0"
      using is_set_unchecked_bools [OF assms(1) True] Some by (simp add: is_set_unchecked_def)
    then show ?thesis
      using True Some assms(2) by (simp add: bi_next_def iter_ok_def Let_def cur)
  qed
qed (use assms in \<open>simp add: bi_next_def iter_ok_def\<close>)

lemma iter_ok_step:
  assumes "iter_ok it m"
  shows "iter_ok (it\<lparr>bi_current_usize := (case bm_words m of None \<Rightarrow> bi_current_usize it | Some ws \<Rightarrow> ws ! (bi_idx it div 64)),
           bi_idx := bi_idx it + 1\<rparr>) m"
  using assms by (auto simp: iter_ok_def Suc_div_64)

lemma bi_collect_correct:
  assumes "bm_ok m" and "iter_ok it m"
  shows "bi_collect it = drop (bi_idx it) (bm_bools m)"
  using assms(2)
proof (induction it rule: bi_collect.induct)
  case (1 it)
  show ?case
  proof (cases "bi_idx it < bm_num_bits m")
    case True
    then have "bi_collect it = bm_bools m ! bi_idx it # drop (Suc (bi_idx it)) (bm_bools m)"
      using 1 bi_next_correct [OF assms(1) 1(2)] iter_ok_step [OF 1(2)] by (subst bi_collect.simps) simp
    then show ?thesis using True by (simp add: Cons_nth_drop_Suc)
  next
    case False
    then show ?thesis using bi_next_correct [OF assms(1) 1(2)] by (subst bi_collect.simps) simp
  qed
qed

lemma bi_collect_iter: "bm_ok m \<Longrightarrow> bi_collect (bm_iter m) = bm_bools m"
  using bi_collect_correct [OF _ bm_iter_ok] by (simp add: bm_iter_def)

lemma bi_nth_correct:
  assumes "bm_ok m" and "iter_ok it m"
  shows "bi_nth it n = (let i = bi_idx it + n; it' = snd (bi_nth it n) in
     if i < bm_num_bits m then (Some (bm_bools m ! i, it'), it') else (None, it\<lparr>bi_idx := i\<rparr>))"
    and "iter_ok (snd (bi_nth it n)) m"
    and "bi_idx (snd (bi_nth it n)) = (let i = bi_idx it + n in if i < bm_num_bits m then i + 1 else i)"
proof -
  let ?i = "bi_idx it + n"
  have "bm_bools m ! ?i \<longleftrightarrow> ws ! (?i div 64) AND bit_mask (?i mod 64) \<noteq> 0"
    if "bm_words m = Some ws" and "?i < bm_num_bits m" for ws
    using is_set_unchecked_bools [OF assms(1) that(2)] that(1) by (simp add: is_set_unchecked_def)
  moreover have "bm_bools m ! ?i \<longleftrightarrow> bm_count_ones m = bm_num_bits m" if "bm_words m = None" and "?i < bm_num_bits m"
    using bm_no_words [OF assms(1) that(1)] that(2) by auto
  ultimately show "bi_nth it n = (let i = bi_idx it + n; it' = snd (bi_nth it n) in
     if i < bm_num_bits m then (Some (bm_bools m ! i, it'), it') else (None, it\<lparr>bi_idx := i\<rparr>))"
    and "iter_ok (snd (bi_nth it n)) m"
    and "bi_idx (snd (bi_nth it n)) = (let i = bi_idx it + n in if i < bm_num_bits m then i + 1 else i)"
    using assms(2)
    by (auto simp: bi_nth_def bi_next_always_load_usize_def iter_ok_def Let_def Suc_div_64 split: option.splits)
qed

section \<open>The positions of the ones\<close>

lemma takeWhile_shorter: "\<exists>x \<in> set xs. \<not> p x \<Longrightarrow> length (takeWhile p xs) < length xs"
  by (induction xs) auto

lemma trailing_zeros_least:
  assumes "w \<noteq> 0"
  shows "bit w (trailing_zeros w)" and "k < trailing_zeros w \<Longrightarrow> \<not> bit w k" and "trailing_zeros w < 64"
proof -
  obtain k where k: "bit w k" using assms bit_eqI [of w 0] by auto
  then have k64: "k < 64" by (rule bit_u64)
  have ex: "\<exists>x \<in> set [0..<64]. \<not> \<not> bit w x" using k k64 by auto
  show lt: "trailing_zeros w < 64"
    using takeWhile_shorter [OF ex] by (simp add: trailing_zeros_def)
  have nth: "[0..<64] ! i = i" if "i < 64" for i :: nat using that by simp
  show "bit w (trailing_zeros w)"
    using nth_length_takeWhile [of "\<lambda>k. \<not> bit w k" "[0..<64]"] lt nth [OF lt]
    by (simp add: trailing_zeros_def)
  show "\<not> bit w k" if "k < trailing_zeros w" for k
    using nth_mem [of k "takeWhile (\<lambda>k. \<not> bit w k) [0..<64]"] that lt nth [of k] 
      takeWhile_nth [of k "\<lambda>k. \<not> bit w k" "[0..<64]"]
    by (auto simp: trailing_zeros_def dest: set_takeWhileD)
qed

lemma lowest_bit: 
  assumes "w \<noteq> 0"
  shows "bit (w AND - w) k \<longleftrightarrow> k = trailing_zeros w"
proof -
  let ?t = "trailing_zeros w"
  note t = trailing_zeros_least [OF assms]
  have "w = push_bit (Suc ?t) (drop_bit (Suc ?t) w) OR bit_mask ?t"
  proof (rule bit_eqI)
    fix n assume "possible_bit TYPE(64 word) n"
    then have "n < 64" by (simp add: possible_bit_word)
    then show "bit w n = bit (push_bit (Suc ?t) (drop_bit (Suc ?t) w) OR bit_mask ?t) n"
      using t by (cases n ?t rule: linorder_cases) (auto simp: bit_or_iff bit_push_bit_iff bit_drop_bit_eq possible_bit_word simp del: push_bit_Suc)
  qed
  also have "\<dots> = push_bit (Suc ?t) (drop_bit (Suc ?t) w) + bit_mask ?t"
    by (rule disjunctive_add [symmetric]) (auto simp: bit_push_bit_iff simp del: push_bit_Suc)
  finally have "w - 1 = push_bit (Suc ?t) (drop_bit (Suc ?t) w) + (bit_mask ?t - 1)" by simp
  also have "\<dots> = push_bit (Suc ?t) (drop_bit (Suc ?t) w) OR low_mask ?t"
    unfolding bit_mask_def low_mask_def [symmetric] by (rule disjunctive_add) (auto simp: bit_push_bit_iff simp del: push_bit_Suc)
  finally have "bit (w - 1) k \<longleftrightarrow> k < 64 \<and> (?t < k \<and> bit w k \<or> k < ?t)"
    by (auto simp: bit_or_iff bit_push_bit_iff bit_drop_bit_eq possible_bit_word simp del: push_bit_Suc dest: bit_u64)
  then show ?thesis
    using t by (cases k ?t rule: linorder_cases) (auto simp: bit_and_iff bit_minus_iff possible_bit_word dest: bit_u64)
qed

fun ones_pending :: "ones_iter \<Rightarrow> nat list" where
  "ones_pending (OnesRange s e) = [s..<e]"
| "ones_pending (OnesBuffer bits i cur) = (case cur of None \<Rightarrow> []
     | Some w \<Rightarrow> map (\<lambda>k. i * 64 + k) (filter (bit w) [0..<64])
         @ concat (map (\<lambda>j. map (\<lambda>k. j * 64 + k) (filter (bit (bits ! j)) [0..<64])) [Suc i..<length bits]))"

lemma filter_bit_lowest:
  assumes "w \<noteq> (0 :: u64)"
  shows "filter (bit w) [0..<64] = trailing_zeros w # filter (bit (w XOR (w AND - w))) [0..<64]"
proof -
  let ?t = "trailing_zeros w" and ?v = "w XOR (w AND - w)"
  note t = trailing_zeros_least [OF assms]
  have v: "bit ?v k \<longleftrightarrow> bit w k \<and> k \<noteq> ?t" for k
    using t(1) by (auto simp: bit_xor_iff lowest_bit [OF assms])
  have split: "[0..<64] = [0..<?t] @ ?t # [Suc ?t..<64]"
    using t(3) upt_add_eq_append [of 0 ?t "64 - ?t"] upt_conv_Cons [OF t(3)] by simp
  have none: "filter (bit w) [0..<?t] = []" "filter (bit ?v) [0..<?t] = []"
    using t(2) by (auto simp: filter_empty_conv v)
  have rest: "filter (bit ?v) [Suc ?t..<64] = filter (bit w) [Suc ?t..<64]"
    by (rule filter_cong) (auto simp: v)
  have "filter (bit w) [0..<64] = ?t # filter (bit w) [Suc ?t..<64]"
    by (subst split) (simp add: none t(1))
  moreover have "filter (bit ?v) [0..<64] = filter (bit w) [Suc ?t..<64]"
    by (subst split) (simp add: none rest v)
  ultimately show ?thesis by simp
qed

lemma skip_zero_words_pending:
  "skip_zero_words bits i cur = (i', cur') \<Longrightarrow>
     ones_pending (OnesBuffer bits i' cur') = ones_pending (OnesBuffer bits i cur) \<and> cur' \<noteq> Some 0"
proof (induction bits i cur rule: skip_zero_words.induct)
  case (1 bits i cur)
  show ?case
  proof (cases "cur = Some 0")
    case True
    let ?c = "if i + 1 \<ge> length bits then None else Some (bits ! (i + 1))"
    have "ones_pending (OnesBuffer bits (i + 1) ?c) = ones_pending (OnesBuffer bits i cur)"
      using True by (simp add: upt_conv_Cons del: upt_Suc)
    then show ?thesis using 1 True by (subst (asm) (2) skip_zero_words.simps) simp
  qed (use "1.prems" in \<open>subst (asm) skip_zero_words.simps, simp\<close>)
qed

lemma ones_next_pending:
  "ones_next it = None \<and> ones_pending it = []
   \<or> (\<exists>x it'. ones_next it = Some (x, it') \<and> ones_pending it = x # ones_pending it')"
proof (cases it)
  case (OnesRange s e)
  then show ?thesis by (cases "s < e") (auto simp: upt_conv_Cons)
next
  case (OnesBuffer bits i cur)
  obtain i' cur' where skip: "skip_zero_words bits i cur = (i', cur')" by fastforce
  note p = skip_zero_words_pending [OF skip]
  show ?thesis
  proof (cases cur')
    case None
    then show ?thesis using OnesBuffer skip p by simp
  next
    case (Some w)
    then have "w \<noteq> 0" using p by simp
    then show ?thesis
      using OnesBuffer skip p Some filter_bit_lowest [of w] by (auto simp: Let_def)
  qed
qed

text \<open>Running the iterator to its end.\<close>

function ones_collect :: "ones_iter \<Rightarrow> nat list" where
  "ones_collect it = (case ones_next it of None \<Rightarrow> [] | Some (x, it') \<Rightarrow> x # ones_collect it')"
  by auto
termination
proof (relation "measure (\<lambda>it. length (ones_pending it))")
  fix it :: ones_iter and y x it'
  assume "ones_next it = Some y" and "(x, it') = y"
  then show "(it', it) \<in> measure (\<lambda>it. length (ones_pending it))"
    using ones_next_pending [of it] by auto
qed simp

declare ones_collect.simps [simp del]

lemma ones_collect_pending: "ones_collect it = ones_pending it"
proof (induction it rule: ones_collect.induct)
  case (1 it)
  then show ?case using ones_next_pending [of it] by (subst ones_collect.simps) auto
qed

lemma filter_wbit_concat:
  "n \<le> length ws \<Longrightarrow> filter (wbit ws) [0..<64 * n] =
     concat (map (\<lambda>j. map (\<lambda>k. j * 64 + k) (filter (bit (ws ! j)) [0..<64])) [0..<n])"
proof (induction n)
  case (Suc n)
  have "[0..<64 * Suc n] = [0..<64 * n] @ map (\<lambda>k. n * 64 + k) [0..<64]"
    using upt_add_eq_append [of 0 "64 * n" 64] map_add_upt [of "64 * n" 64] by (simp add: algebra_simps)
  moreover have "filter (wbit ws \<circ> (\<lambda>k. n * 64 + k)) [0..<64] = filter (bit (ws ! n)) [0..<64]"
    by (rule filter_cong) (use Suc.prems in \<open>auto simp: wbit_def\<close>)
  ultimately show ?case using Suc by (simp add: filter_map)
qed simp

lemma iter_ones_correct:
  assumes "bm_ok m"
  shows "ones_collect (iter_ones m) = filter (\<lambda>i. bm_bools m ! i) [0..<bm_num_bits m]"
proof (cases "bm_words m")
  case None
  have "filter (\<lambda>i. bm_bools m ! i) [0..<bm_num_bits m] = filter (\<lambda>i. bm_count_ones m \<noteq> 0) [0..<bm_num_bits m]"
    by (rule filter_cong) (use bm_no_words [OF assms None] in auto)
  then show ?thesis using bm_no_words [OF assms None] None by (auto simp: ones_collect_pending iter_ones_def)
next
  case (Some ws)
  let ?n = "bm_num_bits m"
  have ok: "words_ok ?n ws" by (rule bm_words_ok [OF assms Some])
  have len: "?n \<le> 64 * length ws" using ok vec_len_bounds(1) by (simp add: words_ok_def)
  have "0 < ?n" using assms Some by (simp add: bm_ok_def)
  then obtain w ws' where ws: "ws = w # ws'" using len by (cases ws) auto
  have "ones_collect (iter_ones m) = concat (map (\<lambda>j. map (\<lambda>k. j * 64 + k) (filter (bit (ws ! j)) [0..<64])) [0..<length ws])"
    by (simp add: ones_collect_pending iter_ones_def Some ws upt_conv_Cons del: upt_Suc)
  also have "\<dots> = filter (wbit ws) [0..<64 * length ws]" by (simp add: filter_wbit_concat)
  also have "\<dots> = filter (wbit ws) [0..<?n] @ filter (wbit ws) [?n..<64 * length ws]"
    using upt_add_eq_append [of 0 ?n "64 * length ws - ?n"] len by (simp flip: filter_append)
  also have "filter (wbit ws) [?n..<64 * length ws] = []"
    using ok by (auto simp: words_ok_def filter_empty_conv)
  also have "filter (wbit ws) [0..<?n] = filter (\<lambda>i. bm_bools m ! i) [0..<?n]"
    by (rule filter_cong) (auto simp: bm_words_bools [OF Some])
  finally show ?thesis by simp
qed

lemma next_set_bit_correct:
  assumes "bm_ok m"
  shows "next_set_bit m a = find (\<lambda>i. bm_bools m ! i) [a..<bm_num_bits m]"
  unfolding next_set_bit_def by (rule find_cong) (auto simp: is_set_unchecked_bools [OF assms])

section \<open>Runs of ones\<close>

definition ones_from :: "nat \<Rightarrow> bool list \<Rightarrow> nat list" where
  "ones_from i bs = map fst (filter snd (enumerate i bs))"

definition run_positions :: "(nat \<times> nat) list \<Rightarrow> nat list" where
  "run_positions rs = concat (map (\<lambda>(s, e). [s..<Suc e]) rs)"

fun runs_apart :: "nat \<Rightarrow> (nat \<times> nat) list \<Rightarrow> bool" where
  "runs_apart lo [] = True"
| "runs_apart lo ((s, e) # rs) = (lo \<le> s \<and> s \<le> e \<and> runs_apart (e + 2) rs)"

lemma runs_apart_mono: "runs_apart lo rs \<Longrightarrow> lo' \<le> lo \<Longrightarrow> runs_apart lo' rs"
  by (cases rs) auto

lemma high_ranges_from_positions:
  "run_positions (high_ranges_from i None (bs @ [False])) = ones_from i bs"
  "s < i \<Longrightarrow> run_positions (high_ranges_from i (Some s) (bs @ [False])) = [s..<i] @ ones_from i bs"
proof (induction bs arbitrary: i s)
  case (Cons b bs)
  {
    case 1
    have "[i..<Suc i] = [i]" by simp
    then show ?case using Cons by (cases b) (simp_all add: ones_from_def)
  next
    case 2
    have "[s..<Suc i] = [s..<i] @ [i]" "[s..<Suc (i - Suc 0)] = [s..<i]" using 2 by simp_all
    then show ?case using Cons 2 by (cases b) (simp_all add: ones_from_def run_positions_def del: upt_Suc)
  }
qed (simp_all add: run_positions_def ones_from_def del: upt_Suc)

lemma high_ranges_from_apart:
  "runs_apart i (high_ranges_from i None (bs @ [False]))"
  "s < i \<Longrightarrow> runs_apart s (high_ranges_from i (Some s) (bs @ [False]))"
proof (induction bs arbitrary: i s)
  case (Cons b bs)
  {
    case 1
    show ?case using Cons(1) [of "Suc i"] Cons(2) [of i "Suc i"] by (cases b) (auto intro: runs_apart_mono)
  next
    case 2
    then show ?case using Cons(1) [of "Suc i"] Cons(2) [of s "Suc i"] by (cases b) auto
  }
qed auto

lemma ones_from_0: "ones_from 0 bs = filter (\<lambda>i. bs ! i) [0..<length bs]"
proof -
  have "enumerate 0 bs = map (\<lambda>i. (i, bs ! i)) [0..<length bs]"
    by (rule nth_equalityI) (simp_all add: nth_enumerate_eq)
  then show ?thesis by (simp add: ones_from_def filter_map comp_def)
qed

lemma high_ranges_correct:
  assumes "bm_ok m"
  shows "run_positions (high_ranges m) = filter (\<lambda>i. bm_bools m ! i) [0..<bm_num_bits m]"
    and "runs_apart 0 (high_ranges m)"
  by (simp_all add: high_ranges_def bi_collect_iter [OF assms] high_ranges_from_positions ones_from_0
      high_ranges_from_apart)

section \<open>The builder as a list of booleans\<close>

definition bb_ok :: "bitmap_builder \<Rightarrow> bool" where
  "bb_ok b = words_ok (bb_len b) (bb_data b)"

definition bb_bools :: "bitmap_builder \<Rightarrow> bool list" where
  "bb_bools b = bits_of (bb_len b) (bb_data b)"

lemma length_bb_bools [simp]: "length (bb_bools b) = bb_len b"
  by (simp add: bb_bools_def)

lemma words_okI:
  assumes "length ws = vec_len n" and "\<And>i. wbit ws i \<longleftrightarrow> i < n \<and> f i"
  shows "words_ok n ws" and "bits_of n ws = map f [0..<n]"
proof -
  show "words_ok n ws" using assms by (simp add: words_ok_def)
  show "bits_of n ws = map f [0..<n]" by (rule nth_equalityI) (simp_all add: assms(2))
qed

lemma builderI:
  assumes "length (bb_data b) = vec_len (bb_len b)" and "\<And>i. wbit (bb_data b) i \<longleftrightarrow> i < bb_len b \<and> f i"
  shows "bb_ok b" and "bb_bools b = map f [0..<bb_len b]"
  using words_okI [OF assms] by (simp_all add: bb_ok_def bb_bools_def)

lemma builderD:
  assumes "bb_ok b"
  shows "length (bb_data b) = vec_len (bb_len b)" and "wbit (bb_data b) i \<longleftrightarrow> i < bb_len b \<and> bb_bools b ! i"
  using assms by (simp add: bb_ok_def words_ok_def)
    (cases "i < bb_len b"; use assms in \<open>simp add: bb_ok_def bb_bools_def words_ok_def\<close>)

lemma word_in_bounds: "i < n \<Longrightarrow> i div 64 < vec_len n"
  using vec_len_bounds(1) [of n] by (auto simp: div_less_iff_less_mult)

lemma div_mod_64_eq: "i div 64 = n div 64 \<Longrightarrow> i mod 64 = n mod 64 \<longleftrightarrow> i = n" for i n :: nat
  by (metis div_mult_mod_eq)

lemma bb_zeroed_correct: "bb_ok (bb_zeroed n)" "bb_bools (bb_zeroed n) = replicate n False"
  using builderI [of "bb_zeroed n" "\<lambda>_. False"] by (simp_all add: bb_zeroed_def map_replicate_const)

lemma bb_filled_correct: "bb_ok (bb_filled n)" "bb_bools (bb_filled n) = replicate n True"
proof -
  have w: "wbit (bb_data (bb_filled n)) i \<longleftrightarrow> i < n \<and> True" for i
  proof (cases "n mod 64 = 0")
    case True
    then have "64 * vec_len n = n" by (rule vec_len_aligned_bits)
    then show ?thesis using True by (simp add: bb_filled_def Let_def wbit_replicate_max)
  next
    case False
    have v: "vec_len n \<ge> 1" "vec_len n - 1 = n div 64" "n div 64 < vec_len n"
      using vec_len_unaligned [OF False] by simp_all
    have "bb_data (bb_filled n) = (replicate (vec_len n) (- 1))[n div 64 := low_mask (n mod 64)]"
      using False v by (simp add: bb_filled_def Let_def)
    then show ?thesis
      using v(3) below_unaligned [OF False, of i] by (auto simp: wbit_update wbit_replicate_max)
  qed
  have l: "length (bb_data (bb_filled n)) = vec_len (bb_len (bb_filled n))" "bb_len (bb_filled n) = n"
    by (simp_all add: bb_filled_def Let_def)
  show "bb_ok (bb_filled n)" "bb_bools (bb_filled n) = replicate n True"
    using builderI [of "bb_filled n" "\<lambda>_. True"] w l by (simp_all add: map_replicate_const)
qed

lemma bb_from_bitmap_correct:
  assumes "bm_ok m"
  shows "bb_ok (bb_from_bitmap m)" and "bb_bools (bb_from_bitmap m) = bm_bools m"
proof -
  have "bb_ok (bb_from_bitmap m) \<and> bb_bools (bb_from_bitmap m) = bm_bools m"
  proof (cases "bm_words m")
    case None
    then show ?thesis
      using bm_no_words [OF assms None] by (auto simp: bb_from_bitmap_def bb_zeroed_correct bb_filled_correct)
  next
    case (Some ws)
    then show ?thesis
      using bm_words_ok [OF assms Some] by (simp add: bb_from_bitmap_def bm_words_bools bb_ok_def bb_bools_def)
  qed
  then show "bb_ok (bb_from_bitmap m)" and "bb_bools (bb_from_bitmap m) = bm_bools m" by simp_all
qed

lemma bb_is_set_correct:
  "bb_ok b \<Longrightarrow> bb_is_set b n = (if n < bb_len b then Some (bb_bools b ! n) else None)"
  using builderD(1) [of b] builderD(2) [of b n] word_in_bounds [of n "bb_len b"]
  by (auto simp: bb_is_set_def and_bit_mask wbit_def)

lemma bb_set_correct:
  assumes "bb_ok b"
  shows "case bb_set b n v of None \<Rightarrow> \<not> n < bb_len b
    | Some b' \<Rightarrow> n < bb_len b \<and> bb_ok b' \<and> bb_bools b' = (bb_bools b)[n := v]"
proof (cases "n < bb_len b")
  case True
  have idx: "n div 64 < length (bb_data b)" using word_in_bounds [OF True] builderD(1) [OF assms] by simp
  let ?w = "bb_data b ! (n div 64)"
  let ?b = "b\<lparr>bb_data := (bb_data b)[n div 64 := if v then ?w OR bit_mask (n mod 64) else ?w AND NOT (bit_mask (n mod 64))]\<rparr>"
  have set: "bb_set b n v = Some ?b" using True idx by (simp add: bb_set_def Let_def)
  have bits: "wbit (bb_data ?b) i \<longleftrightarrow> i < bb_len b \<and> (if i = n then v else bb_bools b ! i)" for i
    using builderD(2) [OF assms, of i] idx True
    by (cases "i div 64 = n div 64")
      (auto simp: wbit_update wbit_def bit_or_iff bit_and_iff bit_not_iff possible_bit_word div_mod_64_eq)
  have "bb_ok ?b" and "bb_bools ?b = map (\<lambda>i. if i = n then v else bb_bools b ! i) [0..<bb_len b]"
    using builderI [of ?b "\<lambda>i. if i = n then v else bb_bools b ! i"] bits builderD(1) [OF assms] by simp_all
  moreover have "map (\<lambda>i. if i = n then v else bb_bools b ! i) [0..<bb_len b] = (bb_bools b)[n := v]"
    by (rule nth_equalityI) (auto simp: nth_list_update)
  ultimately show ?thesis using set True by simp
qed (simp add: bb_set_def)

lemma bb_append_correct:
  assumes "bb_ok b"
  shows "\<exists>b'. bb_append b v = Some b' \<and> bb_ok b' \<and> bb_bools b' = bb_bools b @ [v]"
proof -
  let ?n = "bb_len b" let ?i = "?n div 64"
  define dd where "dd = (if ?n mod 64 = 0 then bb_data b @ [0] else bb_data b)"
  have len: "length dd = Suc ?i"
    using builderD(1) [OF assms] vec_len_aligned [of ?n] vec_len_unaligned [of ?n] by (auto simp: dd_def)
  have vl: "vec_len (Suc ?n) = Suc ?i"
  proof -
    have "64 * ?i + ?n mod 64 = ?n" "?n mod 64 < 64" by simp_all
    then show ?thesis using vec_len_bounds [of "Suc ?n"] by linarith
  qed
  have "\<not> wbit [0] j" for j using wbit_replicate_0 [of 1 j] by simp
  then have d: "wbit dd i \<longleftrightarrow> i < ?n \<and> bb_bools b ! i" for i
    using builderD(2) [OF assms, of i] wbit_imp_less [of "bb_data b" i] by (simp add: dd_def wbit_append) blast
  let ?b = "\<lparr>bb_len = ?n + 1, bb_data = dd[?i := dd ! ?i OR push_bit (?n mod 64) (of_bool v)]\<rparr>"
  have ap: "bb_append b v = Some ?b" using len by (simp add: bb_append_def Let_def flip: dd_def)
  have pb: "bit (push_bit (?n mod 64) (of_bool v) :: u64) k \<longleftrightarrow> v \<and> k = ?n mod 64" for k
    using bit_bit_mask [of "?n mod 64" k] by (cases v) (simp_all add: bit_mask_def)
  have bits: "wbit (bb_data ?b) i \<longleftrightarrow> i < Suc ?n \<and> (bb_bools b @ [v]) ! i" for i
  proof (cases "i div 64 = ?i")
    case True
    then have "wbit (bb_data ?b) i \<longleftrightarrow> wbit dd i \<or> v \<and> i = ?n"
      using len div_mod_64_eq [OF True] True by (simp add: wbit_update bit_or_iff pb) (simp add: wbit_def)
    then show ?thesis by (auto simp: d nth_append)
  next
    case False
    then have "wbit (bb_data ?b) i \<longleftrightarrow> wbit dd i" "i \<noteq> ?n" using len by (auto simp: wbit_update)
    then show ?thesis by (auto simp: d nth_append)
  qed
  have "bb_ok ?b" and "bb_bools ?b = map (\<lambda>i. (bb_bools b @ [v]) ! i) [0..<Suc ?n]"
    using builderI [of ?b "\<lambda>i. (bb_bools b @ [v]) ! i"] bits len vl by simp_all
  moreover have "map (\<lambda>i. (bb_bools b @ [v]) ! i) [0..<Suc ?n] = bb_bools b @ [v]"
    using map_nth [of "bb_bools b @ [v]"] by simp
  ultimately show ?thesis using ap by simp
qed

lemma append_until_aligned_correct:
  assumes "bb_ok b"
  shows "\<exists>b' n'. append_until_aligned b n v = Some (b', n') \<and> bb_ok b' \<and> n' \<le> n
    \<and> bb_bools b' = bb_bools b @ replicate (n - n') v \<and> (n' = 0 \<or> bb_len b' mod 64 = 0)"
  using assms
proof (induction n arbitrary: b)
  case (Suc n)
  show ?case
  proof (cases "bb_len b mod 64 = 0")
    case False
    obtain b1 where b1: "bb_append b v = Some b1" "bb_ok b1" "bb_bools b1 = bb_bools b @ [v]"
      using bb_append_correct [OF Suc.prems] by blast
    obtain b' n' where "append_until_aligned b1 n v = Some (b', n')" "bb_ok b'" "n' \<le> n"
      "bb_bools b' = bb_bools b1 @ replicate (n - n') v" "n' = 0 \<or> bb_len b' mod 64 = 0"
      using Suc.IH [OF b1(2)] by (elim exE conjE)
    then show ?thesis using False b1 by (simp add: Suc_diff_le)
  qed (use Suc.prems in simp)
qed simp

lemma length_vec_resize [simp]: "length (vec_resize n x xs) = n"
  by (simp add: vec_resize_def)

text \<open>Masking the last word of a buffer that is long enough for \<open>n\<close> bits.\<close>

lemma masked_tail:
  assumes "length ws = vec_len n"
  shows "\<exists>vs. (if n mod 64 \<noteq> 0 then and_last (low_mask (n mod 64)) ws else Some ws) = Some vs
    \<and> length vs = vec_len n \<and> (\<forall>i. wbit vs i \<longleftrightarrow> i < n \<and> wbit ws i)"
proof (cases "n mod 64 = 0")
  case True
  then show ?thesis using assms vec_len_aligned_bits [OF True] wbit_imp_less [of ws] by auto
next
  case False
  have len: "length ws - 1 = n div 64" "n div 64 < length ws" "ws \<noteq> []"
    using assms vec_len_unaligned [OF False] by auto
  then obtain vs where vs: "and_last (low_mask (n mod 64)) ws = Some vs" "and_at (n div 64) (low_mask (n mod 64)) ws = Some vs"
    "length vs = vec_len n"
    using assms by (simp add: and_last_def and_at_def)
  have "wbit vs i \<longleftrightarrow> i < n \<and> wbit ws i" for i
    using wbit_and_at [OF vs(2), of i] below_unaligned [OF False, of i] wbit_imp_less [of ws i] assms by auto
  then show ?thesis using vs False by simp
qed

lemma wbit_resize:
  assumes "length ws \<le> n"
  shows "wbit (vec_resize n x ws) i \<longleftrightarrow> wbit ws i \<or> 64 * length ws \<le> i \<and> i < 64 * n \<and> bit x (i mod 64)"
proof (cases "i < 64 * length ws")
  case False
  then obtain d where d: "i = 64 * length ws + d" using le_Suc_ex not_less by blast
  have "d div 64 < n - length ws \<longleftrightarrow> d < 64 * (n - length ws)"
    using div_less_iff_less_mult [of 64 d "n - length ws"] by (simp add: mult.commute)
  also have "\<dots> \<longleftrightarrow> i < 64 * n" using d assms by (simp add: diff_mult_distrib2) linarith
  finally have "wbit (replicate (n - length ws) x) d \<longleftrightarrow> i < 64 * n \<and> bit x (d mod 64)"
    by (auto simp: wbit_def)
  moreover have "i mod 64 = d mod 64" using d by simp
  ultimately show ?thesis
    using False assms wbit_imp_less [of ws i] d by (auto simp: vec_resize_def wbit_append)
qed (use assms in \<open>simp add: vec_resize_def wbit_append\<close>)

lemma vec_len_mono: "m \<le> n \<Longrightarrow> vec_len m \<le> vec_len n"
  unfolding vec_len_def by (rule div_le_mono) simp

lemma bb_append_n_correct:
  assumes "bb_ok b"
  shows "\<exists>b'. bb_append_n b n v = Some b' \<and> bb_ok b' \<and> bb_bools b' = bb_bools b @ replicate n v"
proof -
  obtain b1 n1 where b1: "append_until_aligned b n v = Some (b1, n1)" "bb_ok b1" "n1 \<le> n"
    "bb_bools b1 = bb_bools b @ replicate (n - n1) v" "n1 = 0 \<or> bb_len b1 mod 64 = 0"
    using append_until_aligned_correct [OF assms, of n v] by (elim exE conjE)
  let ?l = "bb_len b1 + n1" and ?x = "if v then - 1 else 0 :: u64"
  let ?d = "vec_resize (vec_len ?l) ?x (bb_data b1)"
  have old: "wbit (bb_data b1) i \<longleftrightarrow> i < bb_len b1 \<and> bb_bools b1 ! i" for i by (rule builderD(2) [OF b1(2)])
  have len: "length (bb_data b1) = vec_len (bb_len b1)" by (rule builderD(1) [OF b1(2)])
  have tail: "i < ?l \<and> 64 * length (bb_data b1) \<le> i \<longleftrightarrow> i < ?l \<and> bb_len b1 \<le> i" for i
    using b1(5) vec_len_bounds(1) [of "bb_len b1"] vec_len_aligned_bits [of "bb_len b1"] len by auto
  have d: "i < ?l \<Longrightarrow> wbit ?d i \<longleftrightarrow> (if i < bb_len b1 then bb_bools b1 ! i else v)" for i
    using tail [of i] vec_len_bounds(1) [of ?l] bit_u64 len
    by (subst wbit_resize) (auto simp: old vec_len_mono)
  have "\<exists>vs. (if v \<and> ?l mod 64 \<noteq> 0 then and_last (low_mask (?l mod 64)) ?d else Some ?d) = Some vs
      \<and> length vs = vec_len ?l \<and> (\<forall>i. wbit vs i \<longleftrightarrow> i < ?l \<and> wbit ?d i)"
  proof (cases v)
    case True
    then show ?thesis using masked_tail [of ?d ?l] by simp
  next
    case False
    have "wbit ?d i \<Longrightarrow> i < ?l" for i
      using False len by (subst (asm) wbit_resize) (auto simp: old vec_len_mono)
    then show ?thesis using False by auto
  qed
  then obtain vs where vs: "bb_append_n b n v = Some \<lparr>bb_len = ?l, bb_data = vs\<rparr>"
    "length vs = vec_len ?l" "\<And>i. wbit vs i \<longleftrightarrow> i < ?l \<and> wbit ?d i"
    using b1(1) by (auto simp: bb_append_n_def)
  let ?f = "\<lambda>i. (bb_bools b1 @ replicate n1 v) ! i"
  have "wbit vs i \<longleftrightarrow> i < ?l \<and> ?f i" for i
    using vs(3) [of i] d [of i] by (auto simp: nth_append)
  then have "bb_ok \<lparr>bb_len = ?l, bb_data = vs\<rparr>" "bb_bools \<lparr>bb_len = ?l, bb_data = vs\<rparr> = map ?f [0..<?l]"
    using builderI [of "\<lparr>bb_len = ?l, bb_data = vs\<rparr>" ?f] vs(2) by simp_all
  moreover have "map ?f [0..<?l] = bb_bools b1 @ replicate n1 v"
    using map_nth [of "bb_bools b1 @ replicate n1 v"] by simp
  moreover have "replicate (n - n1) v @ replicate n1 v = replicate n v"
    using b1(3) by (simp flip: replicate_add)
  ultimately show ?thesis using vs(1) b1(4) by simp
qed

lemma bb_pop_correct:
  assumes "bb_ok b"
  shows "\<exists>r. bb_pop b = Some r \<and> (case r of None \<Rightarrow> bb_bools b = []
    | Some b' \<Rightarrow> bb_ok b' \<and> bb_bools b \<noteq> [] \<and> bb_bools b' = butlast (bb_bools b))"
proof (cases "bb_len b = 0")
  case True
  then have "bb_bools b = []" using length_bb_bools [of b] by (metis length_0_conv)
  with True show ?thesis by (simp add: bb_pop_def)
next
  case False
  let ?l = "bb_len b - 1" let ?d = "take (vec_len ?l) (bb_data b)"
  have len: "length ?d = vec_len ?l"
    using builderD(1) [OF assms] vec_len_mono [of ?l "bb_len b"] by simp
  obtain vs where vs: "(if ?l mod 64 \<noteq> 0 then and_last (low_mask (?l mod 64)) ?d else Some ?d) = Some vs"
    "length vs = vec_len ?l" "\<And>i. wbit vs i \<longleftrightarrow> i < ?l \<and> wbit ?d i"
    using masked_tail [OF len] by blast
  have pop: "bb_pop b = Some (Some \<lparr>bb_len = ?l, bb_data = vs\<rparr>)"
    using False vs(1) by (auto simp: bb_pop_def Let_def)
  let ?f = "\<lambda>i. butlast (bb_bools b) ! i"
  have "wbit vs i \<longleftrightarrow> i < ?l \<and> ?f i" for i
    using vs(3) [of i] builderD(2) [OF assms, of i] vec_len_bounds(1) [of ?l]
    by (auto simp: wbit_take nth_butlast)
  then have "bb_ok \<lparr>bb_len = ?l, bb_data = vs\<rparr>" "bb_bools \<lparr>bb_len = ?l, bb_data = vs\<rparr> = map ?f [0..<?l]"
    using builderI [of "\<lparr>bb_len = ?l, bb_data = vs\<rparr>" ?f] vs(2) by simp_all
  moreover have "map ?f [0..<?l] = butlast (bb_bools b)"
    using map_nth [of "butlast (bb_bools b)"] by simp
  moreover have "bb_bools b \<noteq> []" using False length_bb_bools [of b] by (metis length_0_conv)
  ultimately show ?thesis using pop by simp
qed

lemma bb_append_all_correct:
  assumes "bb_ok b"
  shows "\<exists>b'. bb_append_all b xs = Some b' \<and> bb_ok b' \<and> bb_bools b' = bb_bools b @ xs"
  using assms
proof (induction xs arbitrary: b)
  case (Cons x xs)
  obtain b1 where "bb_append b x = Some b1" "bb_ok b1" "bb_bools b1 = bb_bools b @ [x]"
    using bb_append_correct [OF Cons.prems] by blast
  then show ?case using Cons.IH [of b1] by simp
qed simp

lemma bb_finish_correct:
  assumes "bb_ok b" and "bb_len b < 2 ^ 32"
  shows "bm_ok (bb_finish b)" and "bm_bools (bb_finish b) = bb_bools b"
proof -
  have "bb_finish b = from_vec_with_len (bb_data b) (bb_len b)"
    by (simp add: bb_finish_def from_vec_with_len_def)
  then show "bm_ok (bb_finish b)" and "bm_bools (bb_finish b) = bb_bools b"
    using from_vec_with_len_ok [of "bb_len b" "bb_data b"] assms by (simp_all add: bb_ok_def bb_bools_def)
qed

lemma vec_len_add: "m mod 64 = 0 \<Longrightarrow> vec_len (m + n) = vec_len m + vec_len n"
proof -
  assume m: "m mod 64 = 0"
  then have "64 * (m div 64) = m" using mult_div_mod_eq [of 64 m] by linarith
  then have "m + n + 63 = 64 * (m div 64) + (n + 63)" by linarith
  then have "(m + n + 63) div 64 = m div 64 + (n + 63) div 64" by simp
  then show ?thesis using m by (simp add: vec_len_aligned) (simp add: vec_len_def)
qed

lemma append_words_correct:
  assumes "bb_ok b" and "bb_len b mod 64 = 0" and "words_ok n ws"
  shows "bb_ok \<lparr>bb_len = bb_len b + n, bb_data = bb_data b @ ws\<rparr>"
    and "bb_bools \<lparr>bb_len = bb_len b + n, bb_data = bb_data b @ ws\<rparr> = bb_bools b @ bits_of n ws"
proof -
  let ?f = "\<lambda>i. (bb_bools b @ bits_of n ws) ! i"
  have len: "64 * length (bb_data b) = bb_len b"
    using builderD(1) [OF assms(1)] vec_len_aligned_bits [OF assms(2)] by simp
  have "wbit (bb_data b @ ws) i \<longleftrightarrow> i < bb_len b + n \<and> ?f i" for i
  proof (cases "i < bb_len b")
    case True
    then show ?thesis using builderD(2) [OF assms(1), of i] by (simp add: wbit_append len nth_append)
  next
    case False
    then show ?thesis
      using assms(3) by (cases "i - bb_len b < n") (auto simp: wbit_append len nth_append words_ok_def)
  qed
  moreover have "length (bb_data b @ ws) = vec_len (bb_len b + n)"
    using builderD(1) [OF assms(1)] assms(3) by (simp add: vec_len_add [OF assms(2)] words_ok_def)
  moreover have "map ?f [0..<bb_len b + n] = bb_bools b @ bits_of n ws"
    using map_nth [of "bb_bools b @ bits_of n ws"] by simp
  ultimately show "bb_ok \<lparr>bb_len = bb_len b + n, bb_data = bb_data b @ ws\<rparr>"
    and "bb_bools \<lparr>bb_len = bb_len b + n, bb_data = bb_data b @ ws\<rparr> = bb_bools b @ bits_of n ws"
    using builderI [of "\<lparr>bb_len = bb_len b + n, bb_data = bb_data b @ ws\<rparr>" ?f] by simp_all
qed

lemma resize_append: "length xs \<le> n \<Longrightarrow> vec_resize n x xs = xs @ replicate (n - length xs) x"
  by (simp add: vec_resize_def)

lemma bb_append_bitmap_correct:
  assumes "bb_ok b" and "bm_ok m"
  shows "\<exists>b'. bb_append_bitmap b m = Some b' \<and> bb_ok b' \<and> bb_bools b' = bb_bools b @ bm_bools m"
proof (cases "bb_len b mod 64 = 0")
  case True
  let ?n = "bm_num_bits m"
  have len: "length (bb_data b) = vec_len (bb_len b)" by (rule builderD(1) [OF assms(1)])
  have rs: "vec_resize (vec_len (bb_len b + ?n)) x (bb_data b) = bb_data b @ replicate (vec_len ?n) x" for x
    using len by (simp add: resize_append vec_len_add [OF True])
  have mod: "(bb_len b + ?n) mod 64 = ?n mod 64"
    using True by (metis add_0 mod_add_left_eq)
  show ?thesis
  proof (cases "bm_words m")
    case (Some ws)
    then show ?thesis
      using True append_words_correct [OF assms(1) True bm_words_ok [OF assms(2) Some]]
      by (simp add: bb_append_bitmap_def bm_words_bools)
  next
    case None
    note bools = bm_no_words [OF assms(2) None]
    show ?thesis
    proof (cases "bm_count_ones m = 0")
      case zero: True
      have "words_ok ?n (replicate (vec_len ?n) 0)" "bits_of ?n (replicate (vec_len ?n) 0) = replicate ?n False"
        using bb_zeroed_correct [of ?n] by (simp_all add: bb_ok_def bb_bools_def bb_zeroed_def)
      then show ?thesis
        using True None zero bools append_words_correct [OF assms(1) True]
        by (simp add: bb_append_bitmap_def rs)
    next
      case False
      let ?v = "vec_len ?n"
      let ?d = "bb_data (bb_filled ?n)"
      have fill: "words_ok ?n ?d" "bits_of ?n ?d = replicate ?n True"
        using bb_filled_correct [of ?n] by (simp_all add: bb_ok_def bb_bools_def bb_filled_def Let_def)
      have "bb_append_bitmap b m = Some \<lparr>bb_len = bb_len b + ?n, bb_data = bb_data b @ ?d\<rparr>"
      proof (cases "?n mod 64 = 0")
        case al: True
        then show ?thesis using True None False by (simp add: bb_append_bitmap_def rs mod bb_filled_def Let_def)
      next
        case un: False
        then have v: "?v \<ge> 1" using vec_len_unaligned [OF un] by simp
        have "\<not> length (bb_data b) + ?v - 1 < length (bb_data b)" "length (bb_data b) + ?v - 1 - length (bb_data b) = ?v - 1"
          using v by linarith+
        then have "(bb_data b @ replicate ?v (- 1))[length (bb_data b) + ?v - 1 := low_mask (?n mod 64)]
          = bb_data b @ (replicate ?v (- 1))[?v - 1 := low_mask (?n mod 64)]"
          by (simp only: list_update_append if_False)
        then show ?thesis
          using True None False un v by (simp add: bb_append_bitmap_def rs mod bb_filled_def Let_def)
      qed
      then show ?thesis
        using bools False append_words_correct [OF assms(1) True fill(1)] fill(2) by simp
    qed
  qed
next
  case False
  then show ?thesis
    using bb_append_all_correct [OF assms(1), of "bm_bools m"] by (simp add: bb_append_bitmap_def bi_collect_iter [OF assms(2)])
qed

section \<open>Ranges of ones\<close>

lemma count_true_interval:
  assumes "a \<le> b" and "b \<le> n"
  shows "count_true (map (\<lambda>i. a \<le> i \<and> i < b) [0..<n]) = b - a"
proof -
  have "[0..<n] = [0..<a] @ [a..<b] @ [b..<n]"
    using upt_add_eq_append [of 0 a "n - a"] upt_add_eq_append [of a b "n - b"] assms by simp
  moreover have "filter (\<lambda>i. a \<le> i \<and> i < b) [0..<a] = []" "filter (\<lambda>i. a \<le> i \<and> i < b) [b..<n] = []"
    by (auto simp: filter_empty_conv)
  moreover have "filter (\<lambda>i. a \<le> i \<and> i < b) [a..<b] = [a..<b]" by (rule filter_True) simp
  ultimately show ?thesis by (simp add: count_true_def filter_map comp_def)
qed

lemma bit_shifted_mask: "bit (push_bit k (2 ^ l - 1) :: u64) i \<longleftrightarrow> i < 64 \<and> k \<le> i \<and> i < k + l"
  using bit_low_mask [of l "i - k"] by (auto simp: low_mask_def push_bit_of_1 bit_push_bit_iff possible_bit_word)

lemma bit_shifted_ones: "bit (push_bit k (NOT 0) :: u64) i \<longleftrightarrow> i < 64 \<and> k \<le> i"
  by (auto simp: bit_push_bit_iff bit_not_iff bit_mask_iff possible_bit_word)

lemma le_words_iff: "a \<le> i \<longleftrightarrow> a div 64 < i div 64 \<or> i div 64 = a div 64 \<and> a mod 64 \<le> i mod 64" for a i :: nat
proof -
  have "64 * (a div 64) + a mod 64 = a" "64 * (i div 64) + i mod 64 = i" "a mod 64 < 64" "i mod 64 < 64"
    by simp_all
  then show ?thesis by (cases "a div 64" "i div 64" rule: linorder_cases) linarith+
qed

lemma div_mod_le: "i div 64 = a div 64 \<Longrightarrow> i mod 64 \<le> a mod 64 \<longleftrightarrow> i \<le> a" "i div 64 = a div 64 \<Longrightarrow> i mod 64 < a mod 64 \<longleftrightarrow> i < a"
  for i a :: nat
  using le_words_iff [of i a] le_words_iff [of a i] by auto

lemma nth_fill:
  assumes "s < e" and "e \<le> length u" and "j < length u"
  shows "(take (s + 1) u @ replicate (e - (s + 1)) y @ drop e u) ! j = (if s < j \<and> j < e then y else u ! j)"
proof -
  consider "j \<le> s" | "s < j" "j < e" | "e \<le> j" using assms(1) by linarith
  then show ?thesis
  proof cases
    case 2
    then have "\<not> j < s + 1" "j - (s + 1) < e - (s + 1)" by linarith+
    then show ?thesis using 2 assms by (simp add: nth_append)
  next
    case 3
    then have "\<not> j < s + 1" "\<not> j - (s + 1) < e - (s + 1)" "j - (s + 1) - (e - (s + 1)) = j - e"
      using assms(1) by linarith+
    then show ?thesis using 3 assms by (simp add: nth_append)
  qed (use assms in \<open>simp add: nth_append\<close>)
qed

lemma from_range_words_correct:
  assumes "a < b" and "b \<le> n"
  shows "\<exists>ws. from_range_words a b (replicate (vec_len n) 0) = Some ws \<and> length ws = vec_len n
    \<and> (\<forall>i. wbit ws i \<longleftrightarrow> a \<le> i \<and> i < b)"
proof -
  let ?s = "a div 64" and ?e = "b div 64" and ?v = "vec_len n"
  have s: "?s < ?v" using word_in_bounds [of a n] assms by simp
  have se: "?s \<le> ?e" using assms(1) by (simp add: div_le_mono)
  have ev: "?e \<le> ?v"
    using div_le_mono [OF order_trans [OF assms(2) vec_len_bounds(1)], of 64] by simp
  have ev': "?e < ?v" if "b mod 64 \<noteq> 0"
  proof -
    have "b \<noteq> 64 * ?v" using that by auto
    then have "b < 64 * ?v" using assms(2) vec_len_bounds(1) [of n] by linarith
    then show ?thesis by auto
  qed
  show ?thesis
  proof (cases "?s = ?e")
    case True
    have off: "a mod 64 < b mod 64" using div_mod_le(2) [of a b] True assms(1) by simp
    let ?ws = "(replicate ?v 0)[?s := push_bit (a mod 64) (push_bit (b mod 64 - a mod 64) 1 - 1)]"
    have "wbit ?ws i \<longleftrightarrow> a \<le> i \<and> i < b" for i
    proof (cases "i div 64 = ?s")
      case i: True
      then show ?thesis
        using s off div_mod_le [of i b] div_mod_le [of a i] True by (simp add: wbit_update bit_shifted_mask)
    next
      case False
      then have "\<not> (a \<le> i \<and> i < b)" using True div_le_mono [of a i 64] div_le_mono [of i b 64] by auto
      then show ?thesis using s False by (simp add: wbit_update)
    qed
    then show ?thesis using s True by (simp add: from_range_words_def Let_def)
  next
    case False
    then have lt: "?s < ?e" using se by simp
    let ?u = "(replicate ?v 0)[?s := push_bit (a mod 64) (NOT 0)] :: u64 list"
    define tt where "tt = take (?s + 1) ?u @ replicate (?e - (?s + 1)) (NOT 0) @ drop ?e ?u"
    have len: "length tt = ?v" using s lt ev by (simp add: tt_def)
    have nth: "tt ! j = (if j = ?s then push_bit (a mod 64) (NOT 0) else if ?s < j \<and> j < ?e then NOT 0 else 0)" if "j < ?v" for j
      using nth_fill [of ?s ?e ?u j] that s lt ev by (auto simp: tt_def nth_list_update)
    have t: "wbit tt i \<longleftrightarrow> a \<le> i \<and> i div 64 < ?e" for i
    proof -
      note le_words_iff [of a i]
      then show ?thesis
        using ev lt unfolding wbit_def len
        by (auto simp: nth bit_shifted_ones bit_not_iff bit_mask_iff possible_bit_word split: if_splits)
    qed
    have range: "from_range_words a b (replicate ?v 0) = (if b mod 64 \<noteq> 0
        then if \<not> ?e < length tt then None else Some (tt[?e := low_mask (b mod 64)]) else Some tt)"
      using s lt ev unfolding from_range_words_def Let_def tt_def [symmetric] by simp
    show ?thesis
    proof (cases "b mod 64 = 0")
      case True
      then have "i div 64 < ?e \<longleftrightarrow> i < b" for i
        using div_mult_mod_eq [of b 64] div_less_iff_less_mult [of 64 i ?e] by simp
      then show ?thesis
        using True len t s lt ev by (simp add: range)
    next
      case un: False
      let ?w = "tt[?e := low_mask (b mod 64)]"
      have "wbit ?w i \<longleftrightarrow> a \<le> i \<and> i < b" for i
      proof (cases "i div 64 = ?e")
        case True
        then have "a \<le> i" using lt le_words_iff [of a i] by simp
        then show ?thesis using ev' [OF un] len True div_mod_le(2) [OF True] by (subst wbit_update) simp_all
      next
        case False
        have "i div 64 < ?e \<longleftrightarrow> i < b"
          using False le_words_iff [of b i] by auto
        then show ?thesis using ev' [OF un] len False t by (subst wbit_update) simp_all
      qed
      then show ?thesis
        using ev' [OF un] un len by (simp add: range)
    qed
  qed
qed

lemma bm_from_range_correct:
  assumes "a \<le> b" and "b \<le> n"
  shows "\<exists>m. bm_from_range n a b = Some m \<and> bm_ok m \<and> bm_bools m = map (\<lambda>i. a \<le> i \<and> i < b) [0..<n]"
proof (cases "a = b \<or> a = 0 \<and> b = n")
  case True
  then show ?thesis using assms by (auto simp: bm_from_range_def intro!: nth_equalityI)
next
  case False
  then obtain ws where ws: "from_range_words a b (replicate (vec_len n) 0) = Some ws" "length ws = vec_len n"
    "\<And>i. wbit ws i \<longleftrightarrow> i < n \<and> a \<le> i \<and> i < b"
    using from_range_words_correct [of a b n] assms by fastforce
  note ok = words_okI [OF ws(2,3)]
  have bools: "bits_of n ws = map (\<lambda>i. a \<le> i \<and> i < b) [0..<n]" using ok(2) by simp
  let ?m = "\<lparr>bm_num_bits = n, bm_count_ones = b - a, bm_words = Some ws\<rparr>"
  have "bm_bools ?m = map (\<lambda>i. a \<le> i \<and> i < b) [0..<n]" by (simp add: bm_bools_def bools)
  moreover have "bm_ok ?m"
    using False assms ok(1) unfolding bm_ok_def \<open>bm_bools ?m = _\<close> by (auto simp: count_true_interval)
  ultimately show ?thesis using False assms ws(1) by (auto simp: bm_from_range_def)
qed

section \<open>Booleans and bytes\<close>

lemma wbit_Cons: "wbit (w # ws) i = (if i < 64 then bit w i else wbit ws (i - 64))"
  using wbit_append [of "[w]" ws i] by (auto simp: wbit_def [of "[w]"])

lemma bools_word_fold:
  "bit (fold (\<lambda>(i, b) w. w OR push_bit i (of_bool b)) (enumerate n bs) w) k
     \<longleftrightarrow> bit w k \<or> k < 64 \<and> n \<le> k \<and> k < n + length bs \<and> bs ! (k - n)" for w :: u64
proof (induction bs arbitrary: n w)
  case (Cons b bs)
  have "bit (push_bit n (of_bool b) :: u64) k \<longleftrightarrow> b \<and> k = n \<and> n < 64"
    using bit_bit_mask [of n k] by (cases b) (simp_all add: bit_mask_def)
  then have "bit (fold (\<lambda>(i, b) w. w OR push_bit i (of_bool b)) (enumerate n (b # bs)) w) k \<longleftrightarrow>
      (bit w k \<or> b \<and> k = n \<and> n < 64) \<or> k < 64 \<and> Suc n \<le> k \<and> k < Suc n + length bs \<and> bs ! (k - Suc n)"
    using Cons.IH [of "Suc n" "w OR push_bit n (of_bool b)"] by (simp only: enumerate_simps fold_simps prod.case bit_or_iff)
  then show ?case by (cases "k = n") (auto simp: nth_Cons' Suc_le_eq)
qed auto

lemma bools_word_bit: "length bs \<le> 64 \<Longrightarrow> bit (bools_word bs) k \<longleftrightarrow> k < length bs \<and> bs ! k"
  by (auto simp: bools_word_def bools_word_fold)

lemma vec_len_step: "0 < n \<Longrightarrow> vec_len n = Suc (vec_len (n - 64))"
proof (cases "n < 64")
  case True
  assume "0 < n"
  then have "(n + 63) div 64 = 1" using True by (intro div_nat_eqI) simp_all
  then show ?thesis using True by (simp add: vec_len_def)
next
  case False
  then show ?thesis using vec_len_add [of 64 "n - 64"] by (simp add: vec_len_def)
qed

lemma bools_words_Nil [simp]: "bools_words [] = []"
  by (subst bools_words.simps) simp

lemma bools_words_step: "bs \<noteq> [] \<Longrightarrow> bools_words bs = bools_word (take 64 bs) # bools_words (drop 64 bs)"
  by (subst bools_words.simps) simp

lemma bools_words_correct:
  "length (bools_words bs) = vec_len (length bs)" "wbit (bools_words bs) i \<longleftrightarrow> i < length bs \<and> bs ! i"
proof (induction bs arbitrary: i rule: bools_words.induct)
  case (1 bs)
  {
    case 1
    show ?case
      using "1.IH"(1) vec_len_step [of "length bs"] by (cases "bs = []") (simp_all add: bools_words_step vec_len_def [of 0])
  next
    case 2
    show ?case
      using "1.IH"(2) [of "i - 64"] by (cases "bs = []") (auto simp: bools_words_step wbit_Cons bools_word_bit)
  }
qed

lemma from_bool_slice_correct:
  assumes "length bs < 2 ^ 32"
  shows "bm_ok (from_bool_slice bs)" and "bm_bools (from_bool_slice bs) = bs"
proof -
  note ok = words_okI [OF bools_words_correct(1) bools_words_correct(2)]
  show "bm_ok (from_bool_slice bs)" and "bm_bools (from_bool_slice bs) = bs"
    using from_vec_with_len_ok [OF ok(1) assms] ok(2) by (simp_all add: from_bool_slice_def map_nth)
qed

definition bbit :: "bytes \<Rightarrow> nat \<Rightarrow> bool" where
  "bbit bs i = (i div 8 < length bs \<and> bit (bs ! (i div 8)) (i mod 8))"

lemma bbit_Cons: "bbit (b # bs) i = (if i < 8 then bit b i else bbit bs (i - 8))"
proof (cases "i < 8")
  case False
  then obtain d where "i = 8 + d" using le_Suc_ex not_less by blast
  moreover have "(8 + d) div 8 = Suc (d div 8)" by (simp add: div_add_self1)
  ultimately show ?thesis by (simp add: bbit_def)
qed (simp add: bbit_def)

lemma bit_u8: "bit (b :: u8) k \<Longrightarrow> k < 8"
  by (auto dest: bit_imp_le_length)

lemma le_word_bit: "bit (le_word bs) i \<longleftrightarrow> i < 64 \<and> bbit bs i"
proof (induction bs arbitrary: i)
  case (Cons b bs)
  have "le_word (b # bs) = ucast b OR push_bit 8 (le_word bs)" by (simp add: le_word_def)
  then show ?case
    by (auto simp: bit_or_iff bit_push_bit_iff bit_ucast_iff possible_bit_word Cons.IH bbit_Cons dest: bit_u8)
qed (simp add: le_word_def bbit_def)

lemma le_words_correct: "length (le_words n bs) = n" "wbit (le_words n bs) i \<longleftrightarrow> i < 64 * n \<and> bbit bs i"
proof -
  show "length (le_words n bs) = n" by (simp add: le_words_def)
  let ?j = "i div 64" and ?k = "i mod 64"
  have idx: "8 * ?j + ?k div 8 = i div 8" "?k mod 8 = i mod 8"
  proof -
    have "i = 8 * (8 * ?j) + ?k" by simp
    then show "8 * ?j + ?k div 8 = i div 8" by (metis div_mult_self4 zero_neq_numeral)
    show "?k mod 8 = i mod 8" by (simp add: mod_mod_cancel)
  qed
  have "?k div 8 < 8" using div_less_iff_less_mult [of 8 ?k 8] by simp
  then have "bbit (take 8 (drop (8 * ?j) bs)) ?k \<longleftrightarrow> bbit bs i"
    unfolding bbit_def idx(2) by (auto simp: nth_append idx(1) less_diff_conv add.commute)
  moreover have "?j < n \<longleftrightarrow> i < 64 * n" using div_less_iff_less_mult [of 64 i n] by (simp add: mult.commute)
  ultimately show "wbit (le_words n bs) i \<longleftrightarrow> i < 64 * n \<and> bbit bs i"
    by (auto simp: le_words_def wbit_def le_word_bit)
qed

lemma bbit_word_bytes: "bbit (word_bytes w) i \<longleftrightarrow> bit w i"
proof -
  have "8 * (i div 8) + i mod 8 = i" by simp
  then have "bit (ucast (drop_bit (8 * (i div 8)) w) :: u8) (i mod 8) \<longleftrightarrow> bit w i"
    by (simp add: bit_ucast_iff bit_drop_bit_eq possible_bit_word)
  moreover have "i div 8 < 8" if "bit w i"
    using bit_u64 [OF that] by auto
  ultimately show ?thesis by (auto simp: bbit_def word_bytes_def)
qed

lemma length_word_bytes [simp]: "length (word_bytes w) = 8"
  by (simp add: word_bytes_def)

lemma bbit_append: "bbit (as @ bs) i = (if i < 8 * length as then bbit as i else bbit bs (i - 8 * length as))"
proof (cases "i < 8 * length as")
  case True
  then have "i div 8 < length as" by auto
  then show ?thesis using True by (simp add: bbit_def nth_append)
next
  case False
  then obtain d where d: "i = 8 * length as + d" using le_Suc_ex not_less by blast
  then show ?thesis using False by (simp add: bbit_def nth_append)
qed

lemma bbit_words: "bbit (concat (map word_bytes ws)) i \<longleftrightarrow> wbit ws i"
proof (induction ws arbitrary: i)
  case (Cons w ws)
  then show ?case by (simp add: bbit_append bbit_word_bytes wbit_Cons)
qed (simp add: bbit_def)

lemma bbit_take: "bbit (take n bs) i \<longleftrightarrow> i < 8 * n \<and> bbit bs i"
  by (auto simp: bbit_def div_less_iff_less_mult)

lemma bbit_replicate_0 [simp]: "\<not> bbit (replicate n 0) i"
  by (simp add: bbit_def)

lemma from_bytes_with_len_correct:
  assumes "length buf \<le> 8 * vec_len n" and "\<And>i. bbit buf i \<longleftrightarrow> i < n \<and> f i" and "n < 2 ^ 32"
  shows "\<exists>m. from_bytes_with_len buf n = Some m \<and> bm_ok m \<and> bm_bools m = map f [0..<n] \<and> bm_num_bits m = n"
proof -
  let ?ws = "le_words (vec_len n) (buf @ replicate (vec_len n * 8 - length buf) 0)"
  have "wbit ?ws i \<longleftrightarrow> i < n \<and> f i" for i
    using assms(2) [of i] vec_len_bounds(1) [of n] by (auto simp: le_words_correct bbit_append bbit_def [of buf])
  note ok = words_okI [OF le_words_correct(1) this]
  show ?thesis
    using assms(1) from_vec_with_len_ok [OF ok(1) assms(3)] ok(2)
    by (auto simp: from_bytes_with_len_def Let_def mult.commute)
qed

section \<open>Protobuf\<close>

definition byte_len :: "nat \<Rightarrow> nat" where
  "byte_len n = (n + 7) div 8"

lemma byte_len_bounds: "n \<le> 8 * byte_len n" "8 * byte_len n < n + 8"
proof -
  have "8 * byte_len n + (n + 7) mod 8 = n + 7" unfolding byte_len_def by (rule mult_div_mod_eq)
  moreover have "(n + 7) mod 8 < 8" by simp
  ultimately show "n \<le> 8 * byte_len n" "8 * byte_len n < n + 8" by linarith+
qed

lemma byte_len_vec_len: "byte_len n \<le> 8 * vec_len n"
  using byte_len_bounds(2) [of n] vec_len_bounds(1) [of n] by linarith

lemma byte_len_unaligned: "n mod 8 \<noteq> 0 \<Longrightarrow> byte_len n = Suc (n div 8)"
proof -
  assume "n mod 8 \<noteq> 0"
  moreover have "8 * (n div 8) + n mod 8 = n" "n mod 8 < 8" by simp_all
  ultimately show ?thesis using byte_len_bounds [of n] by linarith
qed

lemma byte_len_aligned_bits: "n mod 8 = 0 \<Longrightarrow> 8 * byte_len n = n"
proof -
  assume "n mod 8 = 0"
  then have n: "8 * (n div 8) = n" using mult_div_mod_eq [of 8 n] by linarith
  then have "byte_len n = n div 8" using byte_len_bounds [of n] by linarith
  with n show ?thesis by simp
qed

lemma below_unaligned_bytes:
  assumes "n mod 8 \<noteq> 0"
  shows "i < n \<longleftrightarrow> i < 8 * byte_len n \<and> (i div 8 = n div 8 \<longrightarrow> i mod 8 < n mod 8)"
proof -
  have n: "8 * (n div 8) + n mod 8 = n" and i: "8 * (i div 8) + i mod 8 = i" "i mod 8 < 8"
    by simp_all
  show ?thesis
  proof (cases "i div 8 = n div 8")
    case True
    then have "i < n \<longleftrightarrow> i mod 8 < n mod 8" using n i by linarith
    then show ?thesis using True byte_len_bounds(1) [of n] by auto
  next
    case False
    then show ?thesis using n i by (auto simp: byte_len_unaligned [OF assms] dest: div_le_mono [of i n 8])
  qed
qed

lemma unused_bits: "unat ((8 - word_of_nat (n mod 8) :: u8) mod 8) = 8 * byte_len n - n"
proof -
  have "unat (8 - word_of_nat k :: u8) = 8 - k" if "k < 8" for k
    using that by (subst unat_sub) (simp_all add: word_le_nat_alt)
  then have "unat ((8 - word_of_nat (n mod 8) :: u8) mod 8) = (8 - n mod 8) mod 8"
    by (simp add: unat_mod_distrib)
  moreover have "8 * byte_len n - n = (8 - n mod 8) mod 8"
  proof (cases "n mod 8 = 0")
    case False
    have n: "8 * (n div 8) + n mod 8 = n" "n mod 8 < 8" by simp_all
    then have "8 * byte_len n - n = 8 - n mod 8" using byte_len_unaligned [OF False] by linarith
    then show ?thesis using False by simp
  qed (simp add: byte_len_aligned_bits)
  ultimately show ?thesis by simp
qed

lemma bbit_update:
  "j < length bs \<Longrightarrow> bbit (bs[j := b]) i = (if i div 8 = j then bit b (i mod 8) else bbit bs i)"
  by (auto simp: bbit_def nth_list_update)

lemma bbit_replicate_max: "bbit (replicate n (- 1)) i \<longleftrightarrow> i < 8 * n"
  by (auto simp: bbit_def div_less_iff_less_mult)

lemma bit_low_byte: "bit (push_bit k 1 - 1 :: u8) i \<longleftrightarrow> i < k \<and> i < 8"
proof -
  have "push_bit k 1 - 1 = (mask k :: u8)" by (simp add: mask_eq_exp_minus_1 push_bit_eq_mult)
  then show ?thesis by (auto simp: bit_mask_iff possible_bit_word)
qed

lemma to_protobuf_body:
  assumes "bm_ok m"
  obtains rest where "pb_body (bm_to_protobuf m) = word_of_nat (bm_num_bits m mod 8) # rest"
    and "length rest = byte_len (bm_num_bits m)" and "\<And>i. bbit rest i \<longleftrightarrow> i < bm_num_bits m \<and> bm_bools m ! i"
proof -
  let ?n = "bm_num_bits m" let ?h = "word_of_nat (?n mod 8) :: u8"
  have res: "vec_resize (byte_len ?n + 1) x [?h] = ?h # replicate (byte_len ?n) x" for x by (simp add: vec_resize_def)
  show thesis
  proof (cases "bm_words m")
    case (Some ws)
    let ?r = "take (byte_len ?n) (concat (map word_bytes ws))"
    have ok: "words_ok ?n ws" by (rule bm_words_ok [OF assms Some])
    have len: "length (concat (map word_bytes ws)) = 8 * length ws" by (induction ws) simp_all
    show thesis
    proof (rule that)
      show "pb_body (bm_to_protobuf m) = ?h # ?r" by (simp add: bm_to_protobuf_def Let_def Some byte_len_def)
      show "length ?r = byte_len ?n" using ok byte_len_vec_len [of ?n] by (simp only: length_take len) (simp add: words_ok_def)
      show "bbit ?r i \<longleftrightarrow> i < ?n \<and> bm_bools m ! i" for i
        using ok byte_len_bounds(1) [of ?n] by (cases "i < ?n") (auto simp: bbit_take bbit_words bm_words_bools [OF Some] words_ok_def)
    qed
  next
    case None
    note bools = bm_no_words [OF assms None]
    show thesis
    proof (cases "bm_count_ones m = 0")
      case True
      show thesis
        by (rule that [of "replicate (byte_len ?n) 0"])
          (use None True bools res [of 0] in \<open>simp_all add: bm_to_protobuf_def Let_def byte_len_def\<close>)
    next
      case False
      have "\<exists>r. pb_body (bm_to_protobuf m) = ?h # r \<and> length r = byte_len ?n \<and> (\<forall>i. bbit r i \<longleftrightarrow> i < ?n)"
      proof (cases "?n mod 8 = 0")
        case True
        then show ?thesis
          using None False res [of "- 1"] byte_len_aligned_bits [OF True]
          by (simp add: bm_to_protobuf_def Let_def bbit_replicate_max flip: byte_len_def)
      next
        case un: False
        let ?r = "(replicate (byte_len ?n) (- 1))[?n div 8 := push_bit (?n mod 8) 1 - 1] :: bytes"
        have l: "?n div 8 < byte_len ?n" using byte_len_unaligned [OF un] by simp
        have "bbit ?r i \<longleftrightarrow> i < ?n" for i
          using l below_unaligned_bytes [OF un, of i] bit_low_byte [of "?n mod 8" "i mod 8"]
          by (subst bbit_update) (auto simp: bbit_replicate_max)
        moreover have "pb_body (bm_to_protobuf m) = ?h # ?r"
          using None False un res [of "- 1"]
          by (simp add: bm_to_protobuf_def Let_def byte_len_unaligned [OF un] flip: byte_len_def)
        ultimately show ?thesis by (intro exI [of _ ?r]) simp
      qed
      then obtain r where r: "pb_body (bm_to_protobuf m) = ?h # r" "length r = byte_len ?n" "\<And>i. bbit r i \<longleftrightarrow> i < ?n"
        by blast
      have "bm_bools m = replicate ?n True" using bools False by simp
      then have "bbit r i \<longleftrightarrow> i < ?n \<and> bm_bools m ! i" for i using r(3) by (cases "i < ?n") simp_all
      with r(1,2) show thesis by (rule that)
    qed
  qed
qed


lemma bitmap_protobuf_round_trip:
  assumes "bm_ok m" and "bm_num_bits m < 2 ^ 32"
  shows "bm_from_protobuf (bm_to_protobuf m) = Some m"
proof -
  obtain r where r: "pb_body (bm_to_protobuf m) = word_of_nat (bm_num_bits m mod 8) # r"
    "length r = byte_len (bm_num_bits m)" "\<And>i. bbit r i \<longleftrightarrow> i < bm_num_bits m \<and> bm_bools m ! i"
    using to_protobuf_body [OF assms(1)] by blast
  have bits: "byte_len (bm_num_bits m) * 8 - (8 * byte_len (bm_num_bits m) - bm_num_bits m) = bm_num_bits m"
    using byte_len_bounds(1) [of "bm_num_bits m"] by simp
  obtain m' where m': "from_bytes_with_len r (bm_num_bits m) = Some m'" "bm_ok m'"
    "bm_bools m' = map (\<lambda>i. bm_bools m ! i) [0..<bm_num_bits m]"
    using from_bytes_with_len_correct [of r "bm_num_bits m" "\<lambda>i. bm_bools m ! i"] r(2,3) assms(2) byte_len_vec_len
    by auto
  have "bm_bools m' = bm_bools m" using m'(3) map_nth [of "bm_bools m"] by simp
  then have "m' = m" by (rule bm_ok_inject [OF m'(2) assms(1)])
  then show ?thesis using m'(1) by (simp add: bm_from_protobuf_def r(1,2) unused_bits bits Let_def)
qed

section \<open>Bit sequences\<close>

text \<open>What the builder and the bitmap both promise: a length and a bounds-checked test of a bit.\<close>

locale bit_sequence =
  fixes ok :: "'b \<Rightarrow> bool" and len :: "'b \<Rightarrow> nat" and is_set :: "'b \<Rightarrow> nat \<Rightarrow> bool option"
    and bools :: "'b \<Rightarrow> bool list"
  assumes length_bools: "length (bools b) = len b"
    and is_set_bools: "ok b \<Longrightarrow> is_set b i = (if i < len b then Some (bools b ! i) else None)"
begin

lemma is_set_panics_iff: "ok b \<Longrightarrow> is_set b i = None \<longleftrightarrow> \<not> i < len b"
  by (simp add: is_set_bools)

lemma bools_of_queries:
  assumes "ok a" and "ok b" and "\<And>i. is_set a i = is_set b i"
  shows "bools a = bools b"
proof (rule nth_equalityI)
  have "i < len a \<longleftrightarrow> i < len b" for i
    using is_set_panics_iff [OF assms(1)] is_set_panics_iff [OF assms(2)] assms(3) by metis
  then have "len a = len b" by (metis linorder_neq_iff)
  then show "length (bools a) = length (bools b)" by (simp add: length_bools)
  show "bools a ! i = bools b ! i" if "i < length (bools a)" for i
    using that assms \<open>len a = len b\<close> by (metis is_set_bools length_bools option.inject)
qed

end

interpretation builder_bits: bit_sequence bb_ok bb_len bb_is_set bb_bools
  by unfold_locales (simp_all add: bb_is_set_correct)

interpretation bitmap_bits: bit_sequence bm_ok bm_num_bits bm_is_set bm_bools
  by unfold_locales (simp_all add: bm_is_set_bools)

section \<open>Building\<close>

text \<open>
  The builders that sequences of calls produce, with the list of booleans each stands for. A
  builder starts out empty, zeroed, filled or from a finished bitmap.
\<close>

inductive builds :: "bitmap_builder \<Rightarrow> bool list \<Rightarrow> bool" where
  empty: "builds \<lparr>bb_len = 0, bb_data = []\<rparr> []"
| zeroed: "builds (bb_zeroed n) (replicate n False)"
| filled: "builds (bb_filled n) (replicate n True)"
| from_bitmap: "bm_ok m \<Longrightarrow> builds (bb_from_bitmap m) (bm_bools m)"
| set: "builds b xs \<Longrightarrow> bb_set b n v = Some b' \<Longrightarrow> builds b' (xs[n := v])"
| append: "builds b xs \<Longrightarrow> bb_append b v = Some b' \<Longrightarrow> builds b' (xs @ [v])"
| append_n: "builds b xs \<Longrightarrow> bb_append_n b n v = Some b' \<Longrightarrow> builds b' (xs @ replicate n v)"
| append_bitmap: "builds b xs \<Longrightarrow> bm_ok m \<Longrightarrow> bb_append_bitmap b m = Some b' \<Longrightarrow> builds b' (xs @ bm_bools m)"
| pop: "builds b xs \<Longrightarrow> bb_pop b = Some (Some b') \<Longrightarrow> builds b' (butlast xs)"

lemma builds_ok: "builds b xs \<Longrightarrow> bb_ok b \<and> bb_bools b = xs"
proof (induction rule: builds.induct)
  case empty
  show ?case by (simp add: bb_ok_def bb_bools_def words_ok_def vec_len_def bits_of_def)
next
  case (set b xs n v b')
  then show ?case using bb_set_correct [of b n v] by simp
next
  case (append b xs v b')
  then show ?case using bb_append_correct [of b v] by auto
next
  case (append_n b xs n v b')
  then show ?case using bb_append_n_correct [of b n v] by auto
next
  case (append_bitmap b xs m b')
  then show ?case using bb_append_bitmap_correct [of b m] by auto
next
  case (pop b xs b')
  then show ?case using bb_pop_correct [of b] by auto
qed (simp_all add: bb_zeroed_correct bb_filled_correct bb_from_bitmap_correct)

lemma builds_total:
  assumes "builds b xs"
  shows "bb_set b n v = None \<longleftrightarrow> \<not> n < length xs" and "bb_append b v \<noteq> None" and "bb_append_n b n v \<noteq> None"
    and "bm_ok m \<Longrightarrow> bb_append_bitmap b m \<noteq> None" and "bb_pop b \<noteq> None"
proof -
  have b: "bb_ok b" "bb_bools b = xs" using builds_ok [OF assms] by simp_all
  have len: "bb_len b = length xs" using b(2) length_bb_bools by metis
  show "bb_set b n v = None \<longleftrightarrow> \<not> n < length xs"
    using bb_set_correct [OF b(1), of n v] len by (auto split: option.splits)
  show "bb_append b v \<noteq> None" using bb_append_correct [OF b(1)] by auto
  show "bb_append_n b n v \<noteq> None" using bb_append_n_correct [OF b(1)] by auto
  show "bb_append_bitmap b m \<noteq> None" if "bm_ok m" using bb_append_bitmap_correct [OF b(1) that] by auto
  show "bb_pop b \<noteq> None" using bb_pop_correct [OF b(1)] by auto
qed

text \<open>
  The bitmaps that the constructors, the operators, the protobuf conversion and the builder produce,
  each with the bits it stands for; a bitmap used on the way has to be one of these as well.
\<close>

inductive made :: "bitmap \<Rightarrow> bool list \<Rightarrow> bool" and making :: "bitmap_builder \<Rightarrow> bool list \<Rightarrow> bool" where
  zeros: "made (bm_zeros n) (replicate n False)"
| ones: "made (bm_ones n) (replicate n True)"
| slice: "length xs < 2 ^ 32 \<Longrightarrow> made (from_bool_slice xs) xs"
| bytes: "length buf * 8 < 2 ^ 32 \<Longrightarrow> bm_from_bytes buf = Some m \<Longrightarrow> made m (map (bbit buf) [0..<length buf * 8])"
| span: "bm_from_range n i j = Some m \<Longrightarrow> made m (map (\<lambda>k. i \<le> k \<and> k < j) [0..<n])"
| conj: "made l xs \<Longrightarrow> made r ys \<Longrightarrow> length xs < 2 ^ 32 \<Longrightarrow> bm_and l r = Some m \<Longrightarrow> made m (map2 (\<and>) xs ys)"
| disj: "made l xs \<Longrightarrow> made r ys \<Longrightarrow> length xs < 2 ^ 32 \<Longrightarrow> bm_or l r = Some m \<Longrightarrow> made m (map2 (\<or>) xs ys)"
| xor: "made l xs \<Longrightarrow> made r ys \<Longrightarrow> length xs < 2 ^ 32 \<Longrightarrow> bm_xor l r = Some m \<Longrightarrow> made m (map2 (\<noteq>) xs ys)"
| neg: "made l xs \<Longrightarrow> bm_not l = Some m \<Longrightarrow> made m (map Not xs)"
| protobuf: "made l xs \<Longrightarrow> length xs < 2 ^ 32 \<Longrightarrow> bm_from_protobuf (bm_to_protobuf l) = Some m \<Longrightarrow> made m xs"
| finish: "making b xs \<Longrightarrow> length xs < 2 ^ 32 \<Longrightarrow> made (bb_finish b) xs"
| empty: "making \<lparr>bb_len = 0, bb_data = []\<rparr> []"
| zeroed: "making (bb_zeroed n) (replicate n False)"
| filled: "making (bb_filled n) (replicate n True)"
| from_bitmap: "made m xs \<Longrightarrow> making (bb_from_bitmap m) xs"
| set: "making b xs \<Longrightarrow> bb_set b n v = Some b' \<Longrightarrow> making b' (xs[n := v])"
| append: "making b xs \<Longrightarrow> bb_append b v = Some b' \<Longrightarrow> making b' (xs @ [v])"
| append_n: "making b xs \<Longrightarrow> bb_append_n b n v = Some b' \<Longrightarrow> making b' (xs @ replicate n v)"
| append_bitmap: "making b xs \<Longrightarrow> made m ys \<Longrightarrow> bb_append_bitmap b m = Some b' \<Longrightarrow> making b' (xs @ ys)"
| pop: "making b xs \<Longrightarrow> bb_pop b = Some (Some b') \<Longrightarrow> making b' (butlast xs)"

lemma bm_from_bytes_correct:
  assumes "bm_from_bytes buf = Some m" and "length buf * 8 < 2 ^ 32"
  shows "bm_ok m \<and> bm_bools m = map (bbit buf) [0..<length buf * 8]"
proof -
  have "bbit buf i \<longleftrightarrow> i < length buf * 8 \<and> bbit buf i" for i by (auto simp: bbit_def div_less_iff_less_mult)
  moreover have "length buf \<le> 8 * vec_len (length buf * 8)" using vec_len_bounds(1) [of "length buf * 8"] by simp
  ultimately show ?thesis
    using from_bytes_with_len_correct [of buf "length buf * 8" "bbit buf"] assms by (auto simp: bm_from_bytes_def)
qed

lemma bm_bin_lengths:
  "bm_and l r = Some m \<Longrightarrow> bm_num_bits l = bm_num_bits r"
  "bm_or l r = Some m \<Longrightarrow> bm_num_bits l = bm_num_bits r"
  "bm_xor l r = Some m \<Longrightarrow> bm_num_bits l = bm_num_bits r"
  by (simp_all add: bm_and_def bm_or_def bm_xor_def split: if_splits)

lemma made_ok:
  shows "made m xs \<Longrightarrow> bm_ok m \<and> bm_bools m = xs" and "making b ys \<Longrightarrow> builds b ys"
proof (induction rule: made_making.inducts)
  case (slice xs)
  then show ?case by (simp add: from_bool_slice_correct)
next
  case (bytes buf m)
  then show ?case by (simp add: bm_from_bytes_correct)
next
  case (span n i j m)
  then have "i \<le> j" "j \<le> n" by (auto simp: bm_from_range_def split: if_splits)
  with bm_from_range_correct [OF this] span show ?case by auto
next
  case (conj l xs r ys m)
  then have "bm_num_bits l < 2 ^ 32" using length_bm_bools [of l] by simp
  with bm_and_correct [of l r] bm_bin_lengths(1) conj show ?case by auto
next
  case (disj l xs r ys m)
  then have "bm_num_bits l < 2 ^ 32" using length_bm_bools [of l] by simp
  with bm_or_correct [of l r] bm_bin_lengths(2) disj show ?case by auto
next
  case (xor l xs r ys m)
  then have "bm_num_bits l < 2 ^ 32" using length_bm_bools [of l] by simp
  with bm_xor_correct [of l r] bm_bin_lengths(3) xor show ?case by auto
next
  case (neg l xs m)
  then show ?case using bm_not_correct [of l] by auto
next
  case (protobuf l xs m)
  then show ?case using bitmap_protobuf_round_trip [of l] length_bm_bools [of l] by simp
next
  case (finish b xs)
  then have "bb_len b < 2 ^ 32" "bb_ok b" "bb_bools b = xs" using builds_ok [of b xs] length_bb_bools [of b] by auto
  then show ?case using bb_finish_correct [of b] by simp
qed (auto intro: builds.intros dest: builds.from_bitmap builds.append_bitmap)

lemma bb_len_filled [simp]: "bb_len (bb_filled n) = n"
  by (simp add: bb_filled_def Let_def)

lemma filled_count: "words_count_ones (bb_data (bb_filled n)) = n mod 2 ^ 32"
  using words_count_ones_mod [of n "bb_data (bb_filled n)"] bb_filled_correct [of n]
  by (simp add: bb_ok_def bb_bools_def)

declare upt_rec_numeral [simp]

section \<open>Properties\<close>

text \<open>
  C22. The packed builder refines a list of booleans. Whatever sequence of calls produced a builder,
  no further call panics except setting a bit out of range, and the finished bitmap answers
  exactly the bits of the list, for every length below the 32-bit range of its counter of ones.
\<close>

theorem builder_refines_list:
  assumes "builds b xs"
  shows "bb_append b v \<noteq> None \<and> bb_append_n b n v \<noteq> None \<and> bb_pop b \<noteq> None
    \<and> (bm_ok m \<longrightarrow> bb_append_bitmap b m \<noteq> None)
    \<and> (bb_set b n v = None \<longleftrightarrow> \<not> n < length xs)
    \<and> (length xs < 2 ^ 32 \<longrightarrow> bm_ok (bb_finish b)
         \<and> bm_is_set (bb_finish b) i = (if i < length xs then Some (xs ! i) else None)
         \<and> bm_count_ones (bb_finish b) = length (filter id xs))"
proof -
  have b: "bb_ok b" "bb_bools b = xs" using builds_ok [OF assms] by simp_all
  have len: "bb_len b = length xs" using b(2) length_bb_bools by metis
  note fin = bb_finish_correct [OF b(1), unfolded len b(2)]
  have "bm_is_set (bb_finish b) i = (if i < length xs then Some (xs ! i) else None)" if "length xs < 2 ^ 32"
    using bm_is_set_bools [OF fin(1) [OF that], of i] fin(2) [OF that] length_bm_bools [of "bb_finish b"] by simp
  moreover have "bm_count_ones (bb_finish b) = length (filter id xs)" if "length xs < 2 ^ 32"
    using bm_ok_count [OF fin(1) [OF that]] fin(2) [OF that] by (simp add: count_true_def)
  ultimately show ?thesis using fin(1) builds_total [OF assms] by blast
qed

theorem builder_refines_list_witness:
  "bm_is_set (bb_finish (the (bb_append (bb_filled 64) False))) 64 = Some False
   \<and> bm_is_set (bb_finish (the (bb_append (bb_filled 64) False))) 63 = Some True"
proof -
  obtain b where b: "bb_append (bb_filled 64) False = Some b"
    using bb_append_correct [OF bb_filled_correct(1)] by blast
  have "builds b (replicate 64 True @ [False])" by (rule builds.append [OF builds.filled b])
  from builder_refines_list [OF this, of False 0 "bm_zeros 0" 64] builder_refines_list [OF this, of False 0 "bm_zeros 0" 63]
  show ?thesis using b by (simp add: nth_append)
qed

text \<open>
  C23. The operators on bitmaps are the pointwise operators on their bits, for bitmaps of equal
  length; on different lengths they panic. Their results again keep the counter of ones exact and
  drop the words exactly when all bits are equal.
\<close>

theorem bitmap_operators_exact:
  assumes "bm_ok l" and "bm_ok r" and "bm_num_bits l < 2 ^ 32"
  shows "(case bm_and l r of None \<Rightarrow> bm_num_bits l \<noteq> bm_num_bits r
      | Some m \<Rightarrow> bm_num_bits l = bm_num_bits r \<and> bm_ok m \<and> bm_bools m = map2 (\<and>) (bm_bools l) (bm_bools r))
    \<and> (case bm_or l r of None \<Rightarrow> bm_num_bits l \<noteq> bm_num_bits r
      | Some m \<Rightarrow> bm_num_bits l = bm_num_bits r \<and> bm_ok m \<and> bm_bools m = map2 (\<or>) (bm_bools l) (bm_bools r))
    \<and> (case bm_xor l r of None \<Rightarrow> bm_num_bits l \<noteq> bm_num_bits r
      | Some m \<Rightarrow> bm_num_bits l = bm_num_bits r \<and> bm_ok m \<and> bm_bools m = map2 (\<noteq>) (bm_bools l) (bm_bools r))
    \<and> (case bm_not l of None \<Rightarrow> False | Some m \<Rightarrow> bm_ok m \<and> bm_bools m = map Not (bm_bools l))"
proof (cases "bm_num_bits l = bm_num_bits r")
  case True
  show ?thesis
    using bm_and_correct [OF assms(1,2) True assms(3)] bm_or_correct [OF assms(1,2) True assms(3)]
      bm_xor_correct [OF assms(1,2) True assms(3)] bm_not_correct [OF assms(1)] True by (elim exE) simp
next
  case False
  then show ?thesis using bm_not_correct [OF assms(1)] by (elim exE) (simp add: bm_and_def bm_or_def bm_xor_def)
qed

lemma bm_num_bits_const [simp]: "bm_num_bits (bm_ones n) = n" "bm_num_bits (bm_zeros n) = n"
  by (simp_all add: bm_ones_def bm_zeros_def)

theorem bitmap_operators_exact_witness:
  "map_option bm_bools (bm_xor (bm_ones 3) (bm_zeros 3)) = Some [True, True, True]
   \<and> bm_and (bm_ones 3) (bm_zeros 4) = None"
  using bitmap_operators_exact [of "bm_ones 3" "bm_zeros 4"] bitmap_operators_exact [of "bm_ones 3" "bm_zeros 3"]
  by (auto simp: numeral_3_eq_3 split: option.splits)

text \<open>
  C24. Enumerating the ones of a bitmap ends and yields exactly the positions of its ones in
  ascending order; the runs it reports cover the same positions and are maximal, that is, separated
  by at least one zero; iterating over all bits yields each of them in order.
\<close>

theorem bitmap_ones_exact:
  assumes "bm_ok m"
  shows "ones_collect (iter_ones m) = filter (\<lambda>i. bm_is_set m i = Some True) [0..<bm_num_bits m]
    \<and> run_positions (high_ranges m) = ones_collect (iter_ones m) \<and> runs_apart 0 (high_ranges m)
    \<and> bi_collect (bm_iter m) = map (\<lambda>i. bm_is_set m i = Some True) [0..<bm_num_bits m]"
proof -
  have "filter (\<lambda>i. bm_bools m ! i) [0..<bm_num_bits m] = filter (\<lambda>i. bm_is_set m i = Some True) [0..<bm_num_bits m]"
    by (rule filter_cong) (auto simp: bm_is_set_bools [OF assms])
  moreover have "bi_collect (bm_iter m) = map (\<lambda>i. bm_is_set m i = Some True) [0..<bm_num_bits m]"
    by (rule nth_equalityI) (simp_all add: bi_collect_iter [OF assms] bm_is_set_bools [OF assms])
  ultimately show ?thesis
    by (simp add: iter_ones_correct [OF assms] high_ranges_correct [OF assms])
qed

theorem bitmap_ones_exact_witness: "ones_collect (iter_ones (bm_ones 3)) = [0, 1, 2]"
  using bitmap_ones_exact [of "bm_ones 3"] by (simp add: bm_is_set_bools upt_rec)

text \<open>
  A bitmap survives the round trip through its protobuf form, whatever the number of bits in
  its last byte.
\<close>

lemma bitmap_protobuf_exact:
  assumes "bm_ok m" and "bm_num_bits m < 2 ^ 32"
  shows "bm_from_protobuf (bm_to_protobuf m) = Some m"
  by (rule bitmap_protobuf_round_trip [OF assms])

text \<open>
  C25. The ones are counted in 32 bits: finishing a builder filled with \<open>2 ^ 32\<close> ones wraps the
  count to zero and yields the bitmap whose bits are all zero, although the builder itself answers
  one for each of them.
\<close>

theorem finish_count_overflow:
  "bb_is_set (bb_filled (2 ^ 32)) 0 = Some True
   \<and> bb_finish (bb_filled (2 ^ 32)) = bm_zeros (2 ^ 32)
   \<and> bm_is_set (bb_finish (bb_filled (2 ^ 32))) 0 = Some False"
proof -
  have fin: "bb_finish (bb_filled n) = bm_zeros n" if "n mod 2 ^ 32 = 0" for n
    using that filled_count [of n] by (simp add: bb_finish_def Let_def bm_zeros_def)
  have "bb_finish (bb_filled (2 ^ 32)) = bm_zeros (2 ^ 32)" by (rule fin) simp
  moreover have "bb_is_set (bb_filled n) 0 = Some True" if "0 < n" for n
    using that by (simp add: bb_is_set_correct bb_filled_correct)
  ultimately show ?thesis by (simp add: bm_is_set_bools)
qed

text \<open>
  C31. The representation of a bitmap is canonical. Take two bitmaps that any constructor, operator,
  protobuf conversion or sequence of builder calls has produced, of lengths within the 32-bit range of
  the counter of ones where ones are counted. They are equal as records, which is what the
  derived comparison tests, exactly when they stand for the same bits, and exactly when every query
  answers alike; and the words are dropped exactly when all bits are equal.
\<close>

theorem bitmap_representation_canonical:
  assumes "made a xs" and "made b ys"
  shows "(a = b \<longleftrightarrow> xs = ys) \<and> (a = b \<longleftrightarrow> (\<forall>i. bm_is_set a i = bm_is_set b i))
    \<and> (bm_words a = None \<longleftrightarrow> xs = replicate (length xs) False \<or> xs = replicate (length xs) True)"
proof -
  have a: "bm_ok a" "bm_bools a = xs" and b: "bm_ok b" "bm_bools b = ys" using made_ok(1) assms by blast+
  have "a = b \<longleftrightarrow> xs = ys" using bm_ok_inject [OF a(1) b(1)] a(2) b(2) by auto
  moreover have "a = b \<longleftrightarrow> (\<forall>i. bm_is_set a i = bm_is_set b i)"
    using bm_ok_inject [OF a(1) b(1)] bitmap_bits.bools_of_queries [OF a(1) b(1)] by blast
  moreover have "bm_words a = None \<longleftrightarrow> xs = replicate (length xs) False \<or> xs = replicate (length xs) True"
  proof (cases "bm_words a")
    case None
    then show ?thesis using bm_no_words [OF a(1) None] a(2) length_bm_bools [of a] by auto
  next
    case (Some ws)
    then have "0 < count_true xs" "count_true xs < length xs" using a length_bm_bools [of a] by (auto simp: bm_ok_def)
    then show ?thesis using Some count_true_replicate [of "length xs"] by (metis less_irrefl option.distinct(1))
  qed
  ultimately show ?thesis by blast
qed

theorem bitmap_representation_canonical_witness:
  "bb_finish (bb_filled 5) = bm_ones 5 \<and> bm_words (bb_finish (bb_filled 5)) = None
   \<and> bm_from_range 3 0 2 = Some (from_bool_slice [True, True, False])"
proof -
  have "made (bb_finish (bb_filled 5)) (replicate 5 True)" by (rule made_making.finish [OF made_making.filled]) simp
  note f = bitmap_representation_canonical [OF this made_making.ones [of 5]]
  obtain m where m: "bm_from_range 3 0 2 = Some m" using bm_from_range_correct [of 0 2 3] by auto
  have "made (from_bool_slice [True, True, False]) [True, True, False]" by (rule made_making.slice) simp
  moreover have "map (\<lambda>k. 0 \<le> k \<and> k < 2) [0..<3] = [True, True, False]" by (simp add: eval_nat_numeral)
  ultimately have "m = from_bool_slice [True, True, False]"
    using bitmap_representation_canonical [OF made_making.span [OF m]] by metis
  with f m show ?thesis by (simp add: bm_ones_def)
qed

end
