(* ===== verification/Table_Watermark.thy ===== *)
theory Table_Watermark
  imports Hummock_Key Bitmap
begin

text \<open>
  Watermarks of state tables, \<^verbatim>\<open>storage/hummock_sdk/src/table_watermark.rs\<close>: per epoch, sets of
  virtual nodes with the key below (or above) which their rows are dropped; the index that answers
  reads from staging and committed watermarks, and the operations that extend, merge, filter and
  truncate them. Sets of virtual nodes are bitmaps. A hash set of virtual nodes is the list of its
  elements in insertion order. The checks compiled only with debug assertions are left out.
\<close>

section \<open>Virtual nodes with a watermark\<close>

datatype watermark_direction = Ascending | Descending

definition filter_by_watermark :: "watermark_direction \<Rightarrow> bytes \<Rightarrow> bytes \<Rightarrow> bool" where
  "filter_by_watermark dir key watermark =
     (case dir of Ascending \<Rightarrow> key < watermark | Descending \<Rightarrow> key > watermark)"

record vnode_watermark =
  vw_bitmap :: bitmap
  vw_watermark :: bytes

definition vw_vnode_count :: "vnode_watermark \<Rightarrow> nat" where
  "vw_vnode_count w = bm_num_bits (vw_bitmap w)"

definition iter_vnodes :: "bitmap \<Rightarrow> vnode list" where
  "iter_vnodes m = map vnode_from_index (ones_collect (iter_ones m))"

type_synonym epoch_watermarks = "hummock_epoch \<times> vnode_watermark list"

record table_watermarks =
  tw_watermarks :: "epoch_watermarks list"
  tw_direction :: watermark_direction

definition tw_vnode_count :: "table_watermarks \<Rightarrow> nat option" where
  "tw_vnode_count t =
     (case concat (map snd (tw_watermarks t)) of [] \<Rightarrow> None | w # _ \<Rightarrow> Some (vw_vnode_count w))"

definition add_new_epoch_watermarks ::
    "table_watermarks \<Rightarrow> hummock_epoch \<Rightarrow> vnode_watermark list \<Rightarrow> watermark_direction \<Rightarrow> table_watermarks option" where
  "add_new_epoch_watermarks t epoch ws direction =
     (if tw_direction t \<noteq> direction then None
      else if tw_watermarks t \<noteq> [] \<and> \<not> fst (last (tw_watermarks t)) < epoch then None
      else if ws \<noteq> [] \<and>
          ((\<exists>w \<in> set ws. vw_vnode_count w \<noteq> vw_vnode_count (hd ws))
           \<or> (case tw_vnode_count t of None \<Rightarrow> False | Some c \<Rightarrow> c \<noteq> vw_vnode_count (hd ws))) then None
      else Some (t\<lparr>tw_watermarks := tw_watermarks t @ [(epoch, ws)]\<rparr>))"

definition single_epoch ::
    "hummock_epoch \<Rightarrow> vnode_watermark list \<Rightarrow> watermark_direction \<Rightarrow> table_watermarks option" where
  "single_epoch epoch ws direction =
     add_new_epoch_watermarks \<lparr>tw_watermarks = [], tw_direction = direction\<rparr> epoch ws direction"

definition apply_new_table_watermarks :: "table_watermarks \<Rightarrow> table_watermarks \<Rightarrow> table_watermarks option" where
  "apply_new_table_watermarks t new =
     (if tw_direction t \<noteq> tw_direction new then None
      else if \<not> sorted (map fst (tw_watermarks t)) then None
      else if \<not> sorted (map fst (tw_watermarks new)) then None
      else if tw_watermarks t \<noteq> [] \<and> tw_watermarks new \<noteq> []
          \<and> \<not> fst (last (tw_watermarks t)) < fst (hd (tw_watermarks new)) then None
      else Some (t\<lparr>tw_watermarks := tw_watermarks t @ tw_watermarks new\<rparr>))"

section \<open>Clearing stale epochs\<close>

fun collect_vnodes :: "vnode_watermark list \<Rightarrow> vnode list \<Rightarrow> nat option \<Rightarrow> vnode list \<times> nat option" where
  "collect_vnodes [] set_vnode vnode_count = (set_vnode, vnode_count)"
| "collect_vnodes (w # ws) set_vnode vnode_count =
     collect_vnodes ws (fold List.insert (iter_vnodes (vw_bitmap w)) set_vnode)
       (Some (case vnode_count of None \<Rightarrow> vw_vnode_count w | Some n \<Rightarrow> n))"

text \<open>The first loop: epochs are popped from the back, so the list is the reversed field.\<close>

fun pop_recent ::
    "u64 \<Rightarrow> epoch_watermarks list \<Rightarrow> epoch_watermarks list \<Rightarrow> vnode list \<Rightarrow> nat option \<Rightarrow>
       epoch_watermarks list \<times> epoch_watermarks list \<times> vnode list \<times> nat option" where
  "pop_recent safe_epoch [] result set_vnode vnode_count = ([], result, set_vnode, vnode_count)"
| "pop_recent safe_epoch ((epoch, ws) # rest) result set_vnode vnode_count =
     (if epoch \<ge> safe_epoch then
        (let (set_vnode', vnode_count') = collect_vnodes ws set_vnode vnode_count in
         pop_recent safe_epoch rest (result @ [(epoch, ws)]) set_vnode' vnode_count')
      else ((epoch, ws) # rest, result, set_vnode, vnode_count))"

fun insert_new_vnodes :: "vnode list \<Rightarrow> vnode list \<Rightarrow> vnode list \<Rightarrow> vnode list \<times> vnode list" where
  "insert_new_vnodes [] new_set set_vnode = (new_set, set_vnode)"
| "insert_new_vnodes (v # vs) new_set set_vnode =
     (if v \<in> set set_vnode then insert_new_vnodes vs new_set set_vnode
      else insert_new_vnodes vs (new_set @ [v]) (set_vnode @ [v]))"

fun set_vnodes :: "vnode list \<Rightarrow> bitmap_builder \<Rightarrow> bitmap_builder option" where
  "set_vnodes [] b = Some b"
| "set_vnodes (v # vs) b = do { b' \<leftarrow> bb_set b (vnode_to_index v) True; set_vnodes vs b' }"

fun stale_watermarks ::
    "vnode_watermark list \<Rightarrow> vnode list \<Rightarrow> nat option \<Rightarrow> (vnode_watermark list \<times> vnode list \<times> nat option) option" where
  "stale_watermarks [] set_vnode vnode_count = Some ([], set_vnode, vnode_count)"
| "stale_watermarks (w # ws) set_vnode vnode_count =
     (let (new_set, set_vnode') = insert_new_vnodes (iter_vnodes (vw_bitmap w)) [] set_vnode;
          vnode_count' = Some (case vnode_count of None \<Rightarrow> vw_vnode_count w | Some n \<Rightarrow> n) in
      if new_set = [] then stale_watermarks ws set_vnode' vnode_count'
      else do { b \<leftarrow> set_vnodes new_set (bb_zeroed (vw_vnode_count w));
                (news, set_vnode'', vnode_count'') \<leftarrow> stale_watermarks ws set_vnode' vnode_count';
                Some (\<lparr>vw_bitmap = bb_finish b, vw_watermark = vw_watermark w\<rparr> # news,
                      set_vnode'', vnode_count'') })"

definition push_stale :: "u64 \<Rightarrow> vnode_watermark list \<Rightarrow> epoch_watermarks list \<Rightarrow> epoch_watermarks list" where
  "push_stale safe_epoch news result =
     (if news = [] then result
      else if result \<noteq> [] \<and> fst (last result) = safe_epoch
        then butlast result @ [(safe_epoch, snd (last result) @ news)]
      else result @ [(safe_epoch, news)])"

text \<open>The second loop: it ends early once every virtual node has a watermark.\<close>

fun pop_stale ::
    "u64 \<Rightarrow> epoch_watermarks list \<Rightarrow> epoch_watermarks list \<Rightarrow> vnode list \<Rightarrow> nat option \<Rightarrow> epoch_watermarks list option" where
  "pop_stale safe_epoch [] result set_vnode vnode_count = Some result"
| "pop_stale safe_epoch ((epoch, ws) # rest) result set_vnode vnode_count =
     (if (case vnode_count of None \<Rightarrow> True | Some n \<Rightarrow> length set_vnode \<noteq> n) then
        do { (news, set_vnode', vnode_count') \<leftarrow> stale_watermarks ws set_vnode vnode_count;
             pop_stale safe_epoch rest (push_stale safe_epoch news result) set_vnode' vnode_count' }
      else Some result)"

definition clear_stale_epoch_watermark :: "table_watermarks \<Rightarrow> u64 \<Rightarrow> table_watermarks option" where
  "clear_stale_epoch_watermark t safe_epoch =
     (if tw_watermarks t = [] then Some t
      else if fst (hd (tw_watermarks t)) \<ge> safe_epoch then Some t
      else let (rest, result, set_vnode, vnode_count) = pop_recent safe_epoch (rev (tw_watermarks t)) [] [] None in
        do { result \<leftarrow> pop_stale safe_epoch rest result set_vnode vnode_count;
             if \<not> sorted_wrt (<) (map fst (rev result)) then None
             else Some \<lparr>tw_watermarks = rev result, tw_direction = tw_direction t\<rparr> })"

section \<open>Merging new watermarks of many tables\<close>

fun extend_epochs ::
    "epoch_watermarks list \<Rightarrow> (hummock_epoch, vnode_watermark list) btree \<Rightarrow> (hummock_epoch, vnode_watermark list) btree" where
  "extend_epochs [] m = m"
| "extend_epochs ((epoch, ws) # rest) m =
     extend_epochs rest (bt_insert epoch ((case bt_get m epoch of None \<Rightarrow> [] | Some old \<Rightarrow> old) @ ws) m)"

type_synonym merged_watermarks =
  "(table_id, watermark_direction \<times> (hummock_epoch, vnode_watermark list) btree) btree"

fun merge_new_table_watermarks ::
    "(table_id \<times> table_watermarks) list \<Rightarrow> merged_watermarks \<Rightarrow> merged_watermarks option" where
  "merge_new_table_watermarks [] ret = Some ret"
| "merge_new_table_watermarks ((table_id, new) # rest) ret =
     (case bt_get ret table_id of
        Some (direction, m) \<Rightarrow>
          if tw_direction new \<noteq> direction then None
          else merge_new_table_watermarks rest
                 (bt_insert table_id (direction, extend_epochs (tw_watermarks new) m) ret)
      | None \<Rightarrow>
          merge_new_table_watermarks rest
            (bt_insert table_id (tw_direction new, extend_epochs (tw_watermarks new) []) ret))"

definition merge_multiple_new_table_watermarks ::
    "(table_id \<times> table_watermarks) list list \<Rightarrow> (table_id, table_watermarks) btree option" where
  "merge_multiple_new_table_watermarks table_watermarks_list =
     do { ret \<leftarrow> merge_new_table_watermarks (concat table_watermarks_list) [];
          Some (map (\<lambda>(table_id, direction, m). (table_id, \<lparr>tw_watermarks = m, tw_direction = direction\<rparr>)) ret) }"

section \<open>The index of a table\<close>

record table_watermarks_index =
  twi_direction :: watermark_direction
  twi_staging :: "epoch_watermarks list"
  twi_committed :: "table_watermarks option"
  twi_latest_epoch :: hummock_epoch
  twi_committed_epoch :: "hummock_epoch option"

definition twi_new ::
    "watermark_direction \<Rightarrow> hummock_epoch \<Rightarrow> vnode_watermark list \<Rightarrow> hummock_epoch option \<Rightarrow> table_watermarks_index option" where
  "twi_new direction first_epoch first_vnode_watermark committed_epoch =
     (if (case committed_epoch of None \<Rightarrow> False | Some c \<Rightarrow> \<not> first_epoch > c) then None
      else Some \<lparr>twi_direction = direction, twi_staging = [(first_epoch, first_vnode_watermark)],
                 twi_committed = None, twi_latest_epoch = first_epoch, twi_committed_epoch = committed_epoch\<rparr>)"

definition twi_new_committed :: "table_watermarks \<Rightarrow> hummock_epoch \<Rightarrow> table_watermarks_index" where
  "twi_new_committed committed_watermarks committed_epoch =
     \<lparr>twi_direction = tw_direction committed_watermarks, twi_staging = [],
      twi_committed = Some committed_watermarks, twi_latest_epoch = committed_epoch,
      twi_committed_epoch = Some committed_epoch\<rparr>"

fun find_vnode_watermark :: "vnode \<Rightarrow> vnode_watermark list \<Rightarrow> bytes option option" where
  "find_vnode_watermark v [] = Some None"
| "find_vnode_watermark v (w # ws) =
     do { b \<leftarrow> bm_is_set (vw_bitmap w) (vnode_to_index v);
          if b then Some (Some (vw_watermark w)) else find_vnode_watermark v ws }"

fun read_epochs :: "vnode \<Rightarrow> hummock_epoch \<Rightarrow> epoch_watermarks list \<Rightarrow> bytes option option" where
  "read_epochs v epoch [] = Some None"
| "read_epochs v epoch ((watermark_epoch, ws) # rest) =
     (if watermark_epoch > epoch then read_epochs v epoch rest
      else do { r \<leftarrow> find_vnode_watermark v ws;
                case r of Some x \<Rightarrow> Some (Some x) | None \<Rightarrow> read_epochs v epoch rest })"

definition newest_first :: "table_watermarks_index \<Rightarrow> epoch_watermarks list" where
  "newest_first i = rev (twi_staging i) @ (case twi_committed i of None \<Rightarrow> [] | Some t \<Rightarrow> rev (tw_watermarks t))"

definition read_watermark :: "table_watermarks_index \<Rightarrow> vnode \<Rightarrow> hummock_epoch \<Rightarrow> bytes option option" where
  "read_watermark i v epoch = read_epochs v epoch (newest_first i)"

definition latest_watermark :: "table_watermarks_index \<Rightarrow> vnode \<Rightarrow> bytes option option" where
  "latest_watermark i v = read_watermark i v (- 1)"

definition rewrite_ascending :: "vnode \<Rightarrow> bytes \<Rightarrow> table_key_range \<Rightarrow> table_key_range option" where
  "rewrite_ascending v watermark key_range =
     do { overwrite_start_key \<leftarrow> (case fst key_range of
              Included k \<Rightarrow> map_option (\<lambda>p. p < watermark) (key_part k)
            | Excluded k \<Rightarrow> map_option (\<lambda>p. p < watermark) (key_part k)
            | Unbounded \<Rightarrow> Some True);
          if overwrite_start_key then
            (let watermark_key = prefix_slice_with_vnode v watermark;
                 fully_filtered = (case snd key_range of
                     Included end_key \<Rightarrow> end_key < watermark_key
                   | Excluded end_key \<Rightarrow> end_key \<le> watermark_key
                   | Unbounded \<Rightarrow> False) in
             Some (Included watermark_key, if fully_filtered then Excluded watermark_key else snd key_range))
          else Some key_range }"

definition rewrite_descending :: "vnode \<Rightarrow> bytes \<Rightarrow> table_key_range \<Rightarrow> table_key_range option" where
  "rewrite_descending v watermark key_range =
     do { overwrite_end_key \<leftarrow> (case snd key_range of
              Included k \<Rightarrow> map_option (\<lambda>p. p > watermark) (key_part k)
            | Excluded k \<Rightarrow> map_option (\<lambda>p. p > watermark) (key_part k)
            | Unbounded \<Rightarrow> Some True);
          if overwrite_end_key then
            (let watermark_key = prefix_slice_with_vnode v watermark;
                 fully_filtered = (case fst key_range of
                     Included start_key \<Rightarrow> start_key > watermark_key
                   | Excluded start_key \<Rightarrow> start_key \<ge> watermark_key
                   | Unbounded \<Rightarrow> False) in
             Some (if fully_filtered then (Included watermark_key, Excluded watermark_key)
                   else (fst key_range, Included watermark_key)))
          else Some key_range }"

definition rewrite_range_with_table_watermark ::
    "table_watermarks_index \<Rightarrow> hummock_epoch \<Rightarrow> table_key_range \<Rightarrow> table_key_range option" where
  "rewrite_range_with_table_watermark i epoch key_range =
     do { v \<leftarrow> vnode_of_range key_range;
          watermark \<leftarrow> read_watermark i v epoch;
          case watermark of
            None \<Rightarrow> Some key_range
          | Some w \<Rightarrow> (case twi_direction i of
                Ascending \<Rightarrow> rewrite_ascending v w key_range
              | Descending \<Rightarrow> rewrite_descending v w key_range) }"

definition is_regress :: "table_watermarks_index \<Rightarrow> vnode_watermark \<Rightarrow> vnode \<Rightarrow> bool option" where
  "is_regress i w v =
     do { old \<leftarrow> latest_watermark i v;
          Some (case old of
                  None \<Rightarrow> False
                | Some p \<Rightarrow> (case twi_direction i of
                      Ascending \<Rightarrow> p > vw_watermark w
                    | Descending \<Rightarrow> p < vw_watermark w)) }"

fun mark_regress ::
    "table_watermarks_index \<Rightarrow> vnode_watermark \<Rightarrow> vnode list \<Rightarrow> bitmap_builder option \<Rightarrow> bitmap_builder option option" where
  "mark_regress i w [] regress_vnodes = Some regress_vnodes"
| "mark_regress i w (v # vs) regress_vnodes =
     do { r \<leftarrow> is_regress i w v;
          if r then do { b \<leftarrow> bb_set (case regress_vnodes of None \<Rightarrow> bb_zeroed (vw_vnode_count w) | Some b \<Rightarrow> b)
                            (vnode_to_index v) True;
                         mark_regress i w vs (Some b) }
          else mark_regress i w vs regress_vnodes }"

fun keep_vnodes ::
    "nat \<Rightarrow> bitmap_builder \<Rightarrow> vnode list \<Rightarrow> bitmap_builder option \<Rightarrow> bitmap_builder option option" where
  "keep_vnodes vnode_count regress_vnodes [] builder = Some builder"
| "keep_vnodes vnode_count regress_vnodes (v # vs) builder =
     do { s \<leftarrow> bb_is_set regress_vnodes (vnode_to_index v);
          if \<not> s then do { b \<leftarrow> bb_set (case builder of None \<Rightarrow> bb_zeroed vnode_count | Some b \<Rightarrow> b)
                              (vnode_to_index v) True;
                           keep_vnodes vnode_count regress_vnodes vs (Some b) }
          else keep_vnodes vnode_count regress_vnodes vs builder }"

definition filter_regress_one :: "table_watermarks_index \<Rightarrow> vnode_watermark \<Rightarrow> vnode_watermark list option" where
  "filter_regress_one i w =
     do { regress_vnodes \<leftarrow> mark_regress i w (iter_vnodes (vw_bitmap w)) None;
          case regress_vnodes of
            None \<Rightarrow> Some [w]
          | Some r \<Rightarrow>
              do { builder \<leftarrow> keep_vnodes (vw_vnode_count w) r (iter_vnodes (vw_bitmap w)) None;
                   Some (case builder of
                           None \<Rightarrow> []
                         | Some b \<Rightarrow> [\<lparr>vw_bitmap = bb_finish b, vw_watermark = vw_watermark w\<rparr>]) } }"

fun filter_regress_watermarks ::
    "table_watermarks_index \<Rightarrow> vnode_watermark list \<Rightarrow> vnode_watermark list option" where
  "filter_regress_watermarks i [] = Some []"
| "filter_regress_watermarks i (w # ws) =
     do { a \<leftarrow> filter_regress_one i w; b \<leftarrow> filter_regress_watermarks i ws; Some (a @ b) }"

definition add_epoch_watermark ::
    "table_watermarks_index \<Rightarrow> hummock_epoch \<Rightarrow> vnode_watermark list \<Rightarrow> watermark_direction \<Rightarrow> table_watermarks_index option" where
  "add_epoch_watermark i epoch vnode_watermark_list direction =
     (if \<not> epoch > twi_latest_epoch i then None
      else if twi_direction i \<noteq> direction then None
      else Some (i\<lparr>twi_latest_epoch := epoch, twi_staging := twi_staging i @ [(epoch, vnode_watermark_list)]\<rparr>))"

definition apply_committed_watermarks ::
    "table_watermarks_index \<Rightarrow> table_watermarks \<Rightarrow> hummock_epoch \<Rightarrow> table_watermarks_index option" where
  "apply_committed_watermarks i committed_watermark committed_epoch =
     (if twi_direction i \<noteq> tw_direction committed_watermark then None
      else if (case twi_committed_epoch i of None \<Rightarrow> False | Some p \<Rightarrow> \<not> p \<le> committed_epoch) then None
      else if twi_committed_epoch i = Some committed_epoch then Some i
      else Some (i\<lparr>twi_latest_epoch :=
                     (if twi_latest_epoch i < committed_epoch then committed_epoch else twi_latest_epoch i),
                   twi_committed_epoch := Some committed_epoch,
                   twi_committed := Some committed_watermark,
                   twi_staging := dropWhile (\<lambda>x. fst x \<le> committed_epoch) (twi_staging i)\<rparr>))"

section \<open>Protobuf\<close>

record pb_vnode_watermark =
  pvw_watermark :: bytes
  pvw_vnode_bitmap :: "pb_buffer option"

record pb_table_watermarks =
  ptw_epoch_watermarks :: "(hummock_epoch \<times> pb_vnode_watermark list) list"
  ptw_is_ascending :: bool

definition vw_to_protobuf :: "vnode_watermark \<Rightarrow> pb_vnode_watermark" where
  "vw_to_protobuf w = \<lparr>pvw_watermark = vw_watermark w, pvw_vnode_bitmap = Some (bm_to_protobuf (vw_bitmap w))\<rparr>"

definition vw_from_protobuf :: "pb_vnode_watermark \<Rightarrow> vnode_watermark option" where
  "vw_from_protobuf pb =
     do { buf \<leftarrow> pvw_vnode_bitmap pb; m \<leftarrow> bm_from_protobuf buf;
          Some \<lparr>vw_bitmap = m, vw_watermark = pvw_watermark pb\<rparr> }"

fun vws_from_protobuf :: "pb_vnode_watermark list \<Rightarrow> vnode_watermark list option" where
  "vws_from_protobuf [] = Some []"
| "vws_from_protobuf (p # ps) = do { w \<leftarrow> vw_from_protobuf p; ws \<leftarrow> vws_from_protobuf ps; Some (w # ws) }"

fun epochs_from_protobuf :: "(hummock_epoch \<times> pb_vnode_watermark list) list \<Rightarrow> epoch_watermarks list option" where
  "epochs_from_protobuf [] = Some []"
| "epochs_from_protobuf ((epoch, ps) # rest) =
     do { ws \<leftarrow> vws_from_protobuf ps; es \<leftarrow> epochs_from_protobuf rest; Some ((epoch, ws) # es) }"

definition tw_to_protobuf :: "table_watermarks \<Rightarrow> pb_table_watermarks" where
  "tw_to_protobuf t =
     \<lparr>ptw_epoch_watermarks = map (\<lambda>(epoch, ws). (epoch, map vw_to_protobuf ws)) (tw_watermarks t),
      ptw_is_ascending = (case tw_direction t of Ascending \<Rightarrow> True | Descending \<Rightarrow> False)\<rparr>"

definition tw_from_protobuf :: "pb_table_watermarks \<Rightarrow> table_watermarks option" where
  "tw_from_protobuf pb =
     do { es \<leftarrow> epochs_from_protobuf (ptw_epoch_watermarks pb);
          Some \<lparr>tw_watermarks = es, tw_direction = (if ptw_is_ascending pb then Ascending else Descending)\<rparr> }"

section \<open>Reading watermarks\<close>

definition has_vnode :: "vnode \<Rightarrow> vnode_watermark \<Rightarrow> bool" where
  "has_vnode v w = (bm_bools (vw_bitmap w) ! vnode_to_index v)"

definition vw_ok :: "nat \<Rightarrow> vnode_watermark \<Rightarrow> bool" where
  "vw_ok n w = (bm_ok (vw_bitmap w) \<and> bm_num_bits (vw_bitmap w) = n)"

definition epochs_ok :: "nat \<Rightarrow> epoch_watermarks list \<Rightarrow> bool" where
  "epochs_ok n es = list_all (\<lambda>e. list_all (vw_ok n) (snd e)) es"

definition tw_ok :: "nat \<Rightarrow> table_watermarks \<Rightarrow> bool" where
  "tw_ok n t = (epochs_ok n (tw_watermarks t) \<and> sorted_wrt (<) (map fst (tw_watermarks t)))"

definition wm_find :: "vnode \<Rightarrow> vnode_watermark list \<Rightarrow> bytes option" where
  "wm_find v ws = map_option vw_watermark (List.find (has_vnode v) ws)"

definition visible :: "hummock_epoch \<Rightarrow> epoch_watermarks list \<Rightarrow> vnode_watermark list" where
  "visible e es = concat (map snd (filter (\<lambda>x. fst x \<le> e) es))"

lemma epochs_ok_simps [simp]:
  "epochs_ok n []" "epochs_ok n (x # es) \<longleftrightarrow> list_all (vw_ok n) (snd x) \<and> epochs_ok n es"
  "epochs_ok n (es @ fs) \<longleftrightarrow> epochs_ok n es \<and> epochs_ok n fs" "epochs_ok n (rev es) \<longleftrightarrow> epochs_ok n es"
  by (auto simp: epochs_ok_def list_all_iff)

lemma visible_simps [simp]:
  "visible e [] = []" "visible e (x # es) = (if fst x \<le> e then snd x @ visible e es else visible e es)"
  "visible e (es @ fs) = visible e es @ visible e fs"
  by (simp_all add: visible_def)

lemma wm_find_Nil [simp]: "wm_find v [] = None"
  by (simp add: wm_find_def)

lemma wm_find_Cons: "wm_find v (w # ws) = (if has_vnode v w then Some (vw_watermark w) else wm_find v ws)"
  by (simp add: wm_find_def)

lemma wm_find_append: "wm_find v (ws @ xs) = (case wm_find v ws of Some x \<Rightarrow> Some x | None \<Rightarrow> wm_find v xs)"
  by (induction ws) (simp_all add: wm_find_Cons)

lemma wm_find_None: "wm_find v ws = None \<longleftrightarrow> (\<forall>w \<in> set ws. \<not> has_vnode v w)"
  by (induction ws) (auto simp: wm_find_Cons)

lemma is_set_has_vnode: "vw_ok n w \<Longrightarrow> vnode_to_index v < n \<Longrightarrow> bm_is_set (vw_bitmap w) (vnode_to_index v) = Some (has_vnode v w)"
  by (simp add: vw_ok_def bm_is_set_bools has_vnode_def)

lemma find_vnode_watermark_correct:
  "list_all (vw_ok n) ws \<Longrightarrow> vnode_to_index v < n \<Longrightarrow> find_vnode_watermark v ws = Some (wm_find v ws)"
  by (induction ws) (simp_all add: is_set_has_vnode [of n] wm_find_Cons)

lemma read_epochs_correct:
  "epochs_ok n es \<Longrightarrow> vnode_to_index v < n \<Longrightarrow> read_epochs v e es = Some (wm_find v (visible e es))"
proof (induction es)
  case (Cons x es)
  obtain ep ws where x: "x = (ep, ws)" by (cases x)
  have "find_vnode_watermark v ws = Some (wm_find v ws)"
    by (rule find_vnode_watermark_correct) (use Cons.prems x in simp_all)
  then show ?case using Cons x by (auto simp: wm_find_append split: option.split)
qed simp

lemma visible_all: "(\<And>x. x \<in> set es \<Longrightarrow> fst x \<le> e) \<Longrightarrow> visible e es = concat (map snd es)"
  by (induction es) auto

section \<open>The virtual nodes of a bitmap\<close>

lemma vnode_index_less: "i < 2 ^ 16 \<Longrightarrow> vnode_to_index (vnode_from_index i) = i"
  by (simp add: vnode_to_index_def vnode_from_index_def unat_of_nat)

lemma vnode_from_to [simp]: "vnode_from_index (vnode_to_index v) = v"
  by (simp add: vnode_to_index_def vnode_from_index_def)

lemma set_iter_vnodes:
  assumes "vw_ok n w" and "n \<le> 2 ^ 16"
  shows "v \<in> set (iter_vnodes (vw_bitmap w)) \<longleftrightarrow> vnode_to_index v < n \<and> has_vnode v w"
proof -
  have ok: "bm_ok (vw_bitmap w)" "bm_num_bits (vw_bitmap w) = n" using assms(1) by (simp_all add: vw_ok_def)
  have "set (iter_vnodes (vw_bitmap w)) = vnode_from_index ` {i. i < n \<and> bm_bools (vw_bitmap w) ! i}"
    using iter_ones_correct [OF ok(1)] ok(2) by (auto simp: iter_vnodes_def)
  moreover have "v \<in> vnode_from_index ` {i. i < n \<and> bm_bools (vw_bitmap w) ! i} \<longleftrightarrow>
      vnode_to_index v < n \<and> bm_bools (vw_bitmap w) ! vnode_to_index v"
  proof
    assume "v \<in> vnode_from_index ` {i. i < n \<and> bm_bools (vw_bitmap w) ! i}"
    then obtain i where i: "v = vnode_from_index i" "i < n" "bm_bools (vw_bitmap w) ! i" by auto
    then have "vnode_to_index v = i" using assms(2) vnode_index_less [of i] by simp
    then show "vnode_to_index v < n \<and> bm_bools (vw_bitmap w) ! vnode_to_index v" using i by simp
  next
    assume "vnode_to_index v < n \<and> bm_bools (vw_bitmap w) ! vnode_to_index v"
    then show "v \<in> vnode_from_index ` {i. i < n \<and> bm_bools (vw_bitmap w) ! i}"
      by (intro image_eqI [of _ _ "vnode_to_index v"]) simp_all
  qed
  ultimately show ?thesis by (simp add: has_vnode_def)
qed

text \<open>A bitmap built by setting virtual nodes in a zeroed builder.\<close>

lemma set_vnodes_correct:
  assumes "bb_ok b" and "\<And>v. v \<in> set vs \<Longrightarrow> vnode_to_index v < bb_len b"
  shows "\<exists>b'. set_vnodes vs b = Some b' \<and> bb_ok b' \<and> bb_len b' = bb_len b
    \<and> (\<forall>i < bb_len b. bb_bools b' ! i \<longleftrightarrow> bb_bools b ! i \<or> i \<in> vnode_to_index ` set vs)"
  using assms
proof (induction vs arbitrary: b)
  case (Cons v vs)
  obtain b1 where b1: "bb_set b (vnode_to_index v) True = Some b1" "bb_ok b1" "bb_bools b1 = (bb_bools b)[vnode_to_index v := True]"
    using bb_set_correct [OF Cons.prems(1), of "vnode_to_index v" True] Cons.prems(2) [of v] by (auto split: option.splits)
  have len: "bb_len b1 = bb_len b" using b1(3) length_bb_bools [of b1] length_bb_bools [of b] by simp
  obtain b' where "set_vnodes vs b1 = Some b'" "bb_ok b'" "bb_len b' = bb_len b1"
    "\<forall>i < bb_len b1. bb_bools b' ! i \<longleftrightarrow> bb_bools b1 ! i \<or> i \<in> vnode_to_index ` set vs"
    using Cons.IH [OF b1(2)] Cons.prems(2) len by auto
  moreover have "(bb_bools b)[vnode_to_index v := True] ! i \<longleftrightarrow> bb_bools b ! i \<or> i = vnode_to_index v" if "i < bb_len b" for i
    using that Cons.prems(2) [of v] by (simp add: nth_list_update)
  ultimately show ?case using b1 len by auto
qed simp

lemma built_watermark:
  assumes "\<And>v. v \<in> set vs \<Longrightarrow> vnode_to_index v < n" and "n \<le> 2 ^ 16"
  shows "\<exists>b. set_vnodes vs (bb_zeroed n) = Some b \<and> vw_ok n \<lparr>vw_bitmap = bb_finish b, vw_watermark = w\<rparr>
    \<and> (\<forall>v. vnode_to_index v < n \<longrightarrow> has_vnode v \<lparr>vw_bitmap = bb_finish b, vw_watermark = w\<rparr> = (v \<in> set vs))"
proof -
  have z: "bb_ok (bb_zeroed n)" "bb_bools (bb_zeroed n) = replicate n False" "bb_len (bb_zeroed n) = n"
    by (simp_all add: bb_zeroed_correct) (simp add: bb_zeroed_def)
  obtain b where b: "set_vnodes vs (bb_zeroed n) = Some b" "bb_ok b" "bb_len b = n"
    "\<And>i. i < n \<Longrightarrow> bb_bools b ! i \<longleftrightarrow> i \<in> vnode_to_index ` set vs"
    using set_vnodes_correct [OF z(1), of vs] assms(1) z by auto
  note fin = bb_finish_correct [OF b(2)]
  have n32: "bb_len b < 2 ^ 32" using assms(2) b(3) by simp
  have "inj vnode_to_index" by (simp add: inj_def vnode_to_index_def word_unat_eq_iff)
  then have "vnode_to_index v \<in> vnode_to_index ` set vs \<longleftrightarrow> v \<in> set vs" for v by (rule inj_image_mem_iff)
  then have "has_vnode v \<lparr>vw_bitmap = bb_finish b, vw_watermark = w\<rparr> = (v \<in> set vs)" if "vnode_to_index v < n" for v
    using that b(4) fin(2) [OF n32] by (simp add: has_vnode_def)
  moreover have "vw_ok n \<lparr>vw_bitmap = bb_finish b, vw_watermark = w\<rparr>"
    using fin(1) [OF n32] b(3) by (simp add: vw_ok_def) (simp add: bb_finish_def Let_def)
  ultimately show ?thesis using b(1) by blast
qed

section \<open>Clearing stale epochs keeps the watermarks\<close>

text \<open>The virtual nodes recorded so far are those that some list of watermarks mentions.\<close>

definition vnodes_of :: "nat \<Rightarrow> vnode_watermark list \<Rightarrow> vnode set" where
  "vnodes_of n ws = {v. vnode_to_index v < n \<and> (\<exists>w \<in> set ws. has_vnode v w)}"

lemma vnodes_of_simps [simp]:
  "vnodes_of n [] = {}" "vnodes_of n (ws @ xs) = vnodes_of n ws \<union> vnodes_of n xs"
  by (auto simp: vnodes_of_def)

lemma vnodes_of_Cons:
  "vw_ok n w \<Longrightarrow> n \<le> 2 ^ 16 \<Longrightarrow> vnodes_of n (w # ws) = set (iter_vnodes (vw_bitmap w)) \<union> vnodes_of n ws"
  by (auto simp: vnodes_of_def set_iter_vnodes)

lemma wm_find_vnodes_of: "vnode_to_index v < n \<Longrightarrow> wm_find v ws = None \<longleftrightarrow> v \<notin> vnodes_of n ws"
  by (auto simp: wm_find_None vnodes_of_def)

definition count_ok :: "nat \<Rightarrow> vnode list \<Rightarrow> nat option \<Rightarrow> bool" where
  "count_ok n s c = (distinct s \<and> (c = None \<longrightarrow> s = []) \<and> (c = None \<or> c = Some n))"

lemma set_fold_insert: "set (fold List.insert xs s) = set xs \<union> set s"
  by (induction xs arbitrary: s) auto

lemma distinct_fold_insert: "distinct s \<Longrightarrow> distinct (fold List.insert xs s)"
  by (induction xs arbitrary: s) auto

lemma collect_vnodes_correct:
  assumes "list_all (vw_ok n) ws" and "n \<le> 2 ^ 16" and "count_ok n s c" and "collect_vnodes ws s c = (s', c')"
  shows "set s' = set s \<union> vnodes_of n ws \<and> count_ok n s' c'"
  using assms
proof (induction ws arbitrary: s c)
  case (Cons w ws)
  let ?s = "fold List.insert (iter_vnodes (vw_bitmap w)) s"
  let ?c = "Some (case c of None \<Rightarrow> vw_vnode_count w | Some n \<Rightarrow> n)"
  have w: "vw_ok n w" "list_all (vw_ok n) ws" using Cons.prems(1) by simp_all
  have "count_ok n ?s ?c"
    using Cons.prems(3) w(1) by (auto simp: count_ok_def distinct_fold_insert vw_vnode_count_def vw_ok_def split: option.split)
  then have "set s' = set ?s \<union> vnodes_of n ws \<and> count_ok n s' c'"
    using Cons.IH [OF w(2) Cons.prems(2)] Cons.prems(4) by simp
  then show ?case using vnodes_of_Cons [OF w(1) Cons.prems(2)] by (auto simp: set_fold_insert)
qed simp

lemma pop_recent_correct:
  assumes "epochs_ok n es" and "n \<le> 2 ^ 16" and "count_ok n s c" and "sorted_wrt (>) (map fst es)"
    and "pop_recent safe es res s c = (rest, res', s', c')"
  shows "\<exists>recent. es = recent @ rest \<and> res' = res @ recent \<and> (\<forall>x \<in> set recent. safe \<le> fst x)
    \<and> (\<forall>x \<in> set rest. fst x < safe) \<and> set s' = set s \<union> vnodes_of n (concat (map snd recent)) \<and> count_ok n s' c'"
  using assms
proof (induction es arbitrary: res s c)
  case (Cons x es)
  obtain ep ws where x: "x = (ep, ws)" by (cases x)
  show ?case
  proof (cases "safe \<le> ep")
    case True
    obtain s1 c1 where c1: "collect_vnodes ws s c = (s1, c1)" by (cases "collect_vnodes ws s c")
    have s1: "set s1 = set s \<union> vnodes_of n ws \<and> count_ok n s1 c1"
      by (rule collect_vnodes_correct [OF _ Cons.prems(2,3) c1]) (use Cons.prems(1) x in simp)
    obtain recent where r: "es = recent @ rest" "res' = (res @ [x]) @ recent" "\<forall>x \<in> set recent. safe \<le> fst x"
      "\<forall>x \<in> set rest. fst x < safe" "set s' = set s1 \<union> vnodes_of n (concat (map snd recent))" "count_ok n s' c'"
      using Cons.IH [of s1 c1 "res @ [x]"] Cons.prems True c1 s1 x by auto
    show ?thesis by (rule exI [of _ "x # recent"]) (use r s1 x True in auto)
  next
    case False
    then have "rest = x # es" "res' = res" "s' = s" "c' = c" using Cons.prems(5) x by auto
    then show ?thesis
      using False Cons.prems(3,4) x by (intro exI [of _ "[]"]) (auto simp: not_le intro: less_trans)
  qed
qed auto

lemma insert_new_vnodes_correct:
  "insert_new_vnodes vs new s = (new', s') \<Longrightarrow> distinct s \<Longrightarrow>
     set new' = set new \<union> (set vs - set s) \<and> set s' = set s \<union> set vs \<and> distinct s'"
  by (induction vs arbitrary: new s) (auto split: if_splits)

text \<open>The watermarks that survive of a list, for the virtual nodes not recorded before.\<close>

lemma stale_watermarks_correct:
  assumes "list_all (vw_ok n) ws" and "n \<le> 2 ^ 16" and "count_ok n s c"
  shows "\<exists>news s' c'. stale_watermarks ws s c = Some (news, s', c') \<and> list_all (vw_ok n) news
    \<and> set s' = set s \<union> vnodes_of n ws \<and> count_ok n s' c'
    \<and> (\<forall>v. vnode_to_index v < n \<longrightarrow> wm_find v news = (if v \<in> set s then None else wm_find v ws))"
  using assms
proof (induction ws arbitrary: s c)
  case (Cons w ws)
  obtain new s1 where ins: "insert_new_vnodes (iter_vnodes (vw_bitmap w)) [] s = (new, s1)"
    by (cases "insert_new_vnodes (iter_vnodes (vw_bitmap w)) [] s")
  have w: "vw_ok n w" "list_all (vw_ok n) ws" using Cons.prems(1) by simp_all
  have s1: "set new = set (iter_vnodes (vw_bitmap w)) - set s" "set s1 = set s \<union> set (iter_vnodes (vw_bitmap w))" "distinct s1"
    using insert_new_vnodes_correct [OF ins] Cons.prems(3) by (simp_all add: count_ok_def)
  let ?c = "Some (case c of None \<Rightarrow> vw_vnode_count w | Some n \<Rightarrow> n)"
  have count: "vw_vnode_count w = n" using w(1) by (simp add: vw_vnode_count_def vw_ok_def)
  have "count_ok n s1 ?c"
    using Cons.prems(3) s1(3) count by (auto simp: count_ok_def split: option.split)
  then obtain news s' c' where ih: "stale_watermarks ws s1 ?c = Some (news, s', c')" "list_all (vw_ok n) news"
    "set s' = set s1 \<union> vnodes_of n ws" "count_ok n s' c'"
    "\<And>v. vnode_to_index v < n \<Longrightarrow> wm_find v news = (if v \<in> set s1 then None else wm_find v ws)"
    using Cons.IH [OF w(2) Cons.prems(2), of s1 ?c] by blast
  have s': "set s' = set s \<union> vnodes_of n (w # ws)"
    using ih(3) s1(2) vnodes_of_Cons [OF w(1) Cons.prems(2)] by auto
  have iter: "v \<in> set (iter_vnodes (vw_bitmap w)) \<longleftrightarrow> vnode_to_index v < n \<and> has_vnode v w" for v
    by (rule set_iter_vnodes [OF w(1) Cons.prems(2)])
  show ?case
  proof (cases "new = []")
    case True
    have "wm_find v news = (if v \<in> set s then None else wm_find v (w # ws))" if "vnode_to_index v < n" for v
      using ih(5) [OF that] s1(1,2) True iter [of v] that by (auto simp: wm_find_Cons)
    then show ?thesis using True ins ih(1,2,4) s' by simp
  next
    case False
    have "\<And>v. v \<in> set new \<Longrightarrow> vnode_to_index v < n" using s1(1) iter by blast
    from built_watermark [of new n "vw_watermark w", OF this Cons.prems(2)] obtain b where
      b: "set_vnodes new (bb_zeroed n) = Some b" "vw_ok n \<lparr>vw_bitmap = bb_finish b, vw_watermark = vw_watermark w\<rparr>"
      "\<And>v. vnode_to_index v < n \<Longrightarrow> has_vnode v \<lparr>vw_bitmap = bb_finish b, vw_watermark = vw_watermark w\<rparr> = (v \<in> set new)"
      by auto
    let ?w = "\<lparr>vw_bitmap = bb_finish b, vw_watermark = vw_watermark w\<rparr>"
    have "wm_find v (?w # news) = (if v \<in> set s then None else wm_find v (w # ws))" if "vnode_to_index v < n" for v
      using ih(5) [OF that] s1(1,2) b(3) [OF that] iter [of v] that by (auto simp: wm_find_Cons)
    then show ?thesis using False ins ih(1,2,4) s' b(1,2) count by simp
  qed
qed (simp add: count_ok_def)

lemma visible_push_stale: "safe \<le> e \<Longrightarrow> visible e (push_stale safe news res) = visible e res @ news"
proof -
  assume e: "safe \<le> e"
  show ?thesis
  proof (cases "res = []")
    case False
    then have "res = butlast res @ [last res]" by simp
    then have "visible e res = visible e (butlast res) @ visible e [last res]" by (metis visible_simps(3))
    then show ?thesis using False e by (auto simp: push_stale_def)
  qed (use e in \<open>simp add: push_stale_def\<close>)
qed

lemma push_stale_ok:
  assumes "epochs_ok n res" and "list_all (vw_ok n) news" and "sorted_wrt (>) (map fst res)" and "\<forall>x \<in> set res. safe \<le> fst x"
  shows "epochs_ok n (push_stale safe news res) \<and> sorted_wrt (>) (map fst (push_stale safe news res))
    \<and> (\<forall>x \<in> set (push_stale safe news res). safe \<le> fst x)"
proof (cases "res = []")
  case True
  then show ?thesis using assms by (simp add: push_stale_def)
next
  case False
  obtain ini x where res: "res = ini @ [x]" using False by (metis append_butlast_last_id)
  show ?thesis
    using assms unfolding res by (cases "fst x = safe") (auto simp: push_stale_def sorted_wrt_append order.strict_iff_order)
qed

lemma card_vnodes: "n \<le> 2 ^ 16 \<Longrightarrow> card {v. vnode_to_index v < n} = n \<and> finite {v. vnode_to_index v < n}"
proof -
  assume n: "n \<le> 2 ^ 16"
  have "bij_betw vnode_from_index {..<n} {v. vnode_to_index v < n}"
    by (rule bij_betw_byWitness [of _ vnode_to_index]) (use n in \<open>auto simp: vnode_index_less\<close>)
  then show ?thesis using bij_betw_same_card bij_betw_finite by (metis card_lessThan finite_lessThan)
qed

lemma all_vnodes_recorded:
  assumes "distinct s" and "length s = n" and "set s \<subseteq> {v. vnode_to_index v < n}" and "n \<le> 2 ^ 16"
  shows "set s = {v. vnode_to_index v < n}"
  using card_subset_eq [of "{v. vnode_to_index v < n}" "set s"] card_vnodes [OF assms(4)] assms
    distinct_card [OF assms(1)] by simp

lemma pop_stale_correct:
  assumes "epochs_ok n rest" and "n \<le> 2 ^ 16" and "count_ok n s c" and "set s \<subseteq> {v. vnode_to_index v < n}"
    and "epochs_ok n res" and "sorted_wrt (>) (map fst res)" and "\<forall>x \<in> set res. safe \<le> fst x"
  shows "\<exists>res' kept. pop_stale safe rest res s c = Some res' \<and> epochs_ok n res' \<and> sorted_wrt (>) (map fst res')
    \<and> (\<forall>x \<in> set res'. safe \<le> fst x) \<and> (\<forall>e \<ge> safe. visible e res' = visible e res @ kept)
    \<and> (\<forall>v. vnode_to_index v < n \<longrightarrow> wm_find v kept = (if v \<in> set s then None else wm_find v (concat (map snd rest))))"
  using assms
proof (induction rest arbitrary: res s c)
  case Nil
  then show ?case by (auto intro!: exI [of _ "[]"])
next
  case (Cons x rest)
  obtain ep ws where x: "x = (ep, ws)" by (cases x)
  show ?case
  proof (cases "case c of None \<Rightarrow> True | Some m \<Rightarrow> length s \<noteq> m")
    case True
    have ok: "list_all (vw_ok n) ws" "epochs_ok n rest" using Cons.prems(1) x by simp_all
    obtain news s' c' where st: "stale_watermarks ws s c = Some (news, s', c')" "list_all (vw_ok n) news"
      "set s' = set s \<union> vnodes_of n ws" "count_ok n s' c'"
      "\<And>v. vnode_to_index v < n \<Longrightarrow> wm_find v news = (if v \<in> set s then None else wm_find v ws)"
      using stale_watermarks_correct [OF ok(1) Cons.prems(2,3)] by blast
    have bound: "set s' \<subseteq> {v. vnode_to_index v < n}"
      using st(3) Cons.prems(4) by (auto simp: vnodes_of_def)
    note push = push_stale_ok [OF Cons.prems(5) st(2) Cons.prems(6,7)]
    obtain res' kept where ih: "pop_stale safe rest (push_stale safe news res) s' c' = Some res'"
      "epochs_ok n res'" "sorted_wrt (>) (map fst res')" "\<forall>x \<in> set res'. safe \<le> fst x"
      "\<And>e. safe \<le> e \<Longrightarrow> visible e res' = visible e (push_stale safe news res) @ kept"
      "\<And>v. vnode_to_index v < n \<Longrightarrow> wm_find v kept = (if v \<in> set s' then None else wm_find v (concat (map snd rest)))"
      using Cons.IH [OF ok(2) Cons.prems(2) st(4) bound] push by blast
    have "wm_find v (news @ kept) = (if v \<in> set s then None else wm_find v (concat (map snd (x # rest))))"
      if v: "vnode_to_index v < n" for v
    proof (cases "v \<in> set s")
      case True
      then show ?thesis using st(3) st(5) [OF v] ih(6) [OF v] by (simp add: wm_find_append)
    next
      case False
      show ?thesis
      proof (cases "wm_find v ws")
        case None
        then have "v \<notin> set s'" using False st(3) wm_find_vnodes_of [OF v, of ws] by simp
        then show ?thesis using False None st(5) [OF v] ih(6) [OF v] x by (simp add: wm_find_append)
      qed (use False st(5) [OF v] x in \<open>simp add: wm_find_append\<close>)
    qed
    moreover have "visible e res' = visible e res @ news @ kept" if "safe \<le> e" for e
      using ih(5) [OF that] visible_push_stale [OF that] by simp
    moreover have "pop_stale safe (x # rest) res s c = Some res'" using True st(1) ih(1) x by simp
    ultimately show ?thesis using ih(2-4) by blast
  next
    case False
    then have "set s = {v. vnode_to_index v < n}"
      using all_vnodes_recorded [of s n] Cons.prems(2-4) by (auto simp: count_ok_def split: option.splits)
    moreover have "pop_stale safe (x # rest) res s c = Some res" using False x by simp
    ultimately show ?thesis using Cons.prems by (auto intro!: exI [of _ "[]"])
  qed
qed

lemma sorted_wrt_rev_map: "sorted_wrt (<) (map fst (rev xs)) \<longleftrightarrow> sorted_wrt (>) (map fst xs)"
  by (simp add: sorted_wrt_rev flip: rev_map)

text \<open>Some watermark of these epochs is for the virtual node.\<close>

definition marked :: "vnode \<Rightarrow> epoch_watermarks list \<Rightarrow> bool" where
  "marked v es = list_ex (\<lambda>x. list_ex (has_vnode v) (snd x)) es"

lemma wm_find_marked: "wm_find v (visible e es) = None \<longleftrightarrow> \<not> marked v (filter (\<lambda>x. fst x \<le> e) es)"
  by (auto simp: wm_find_None visible_def marked_def list_ex_iff)

lemma marked_split: "marked v es \<longleftrightarrow> marked v (filter P es) \<or> marked v (filter (\<lambda>x. \<not> P x) es)"
  by (induction es) (auto simp: marked_def)

lemma wm_find_kept:
  assumes "vnode_to_index v < n" and "safe \<le> e" and "\<forall>x \<in> set rest. fst x < safe" and "\<forall>x \<in> set res. safe \<le> fst x"
    and "set s = vnodes_of n (concat (map snd res))"
    and "wm_find v kept = (if v \<in> set s then None else wm_find v (concat (map snd rest)))"
  shows "wm_find v (visible e res @ kept) =
    (if marked v (filter (\<lambda>x. e < fst x) (res @ rest)) \<and> \<not> marked v (filter (\<lambda>x. safe \<le> fst x \<and> fst x \<le> e) (res @ rest))
     then None else wm_find v (visible e (res @ rest)))"
proof -
  have old: "visible e rest = concat (map snd rest)"
    by (rule visible_all) (use assms(2,3) in \<open>auto intro: less_imp_le less_le_trans\<close>)
  have "filter (\<lambda>x. e < fst x) rest = []" "filter (\<lambda>x. safe \<le> fst x \<and> fst x \<le> e) rest = []"
    using assms(2,3) by (auto simp: filter_empty_conv)
  moreover have "filter (\<lambda>x. safe \<le> fst x \<and> fst x \<le> e) res = filter (\<lambda>x. fst x \<le> e) res"
    using assms(4) by (intro filter_cong) auto
  moreover have "v \<in> set s \<longleftrightarrow> marked v (filter (\<lambda>x. e < fst x) res) \<or> marked v (filter (\<lambda>x. fst x \<le> e) res)"
  proof -
    have "v \<in> set s \<longleftrightarrow> marked v res" using assms(1,5) by (simp add: vnodes_of_def marked_def list_ex_iff)
    then show ?thesis using marked_split [of v res "\<lambda>x. e < fst x"] by (simp add: not_less)
  qed
  ultimately show ?thesis
    using wm_find_marked [of v e res] assms(6) old
    by (auto simp: wm_find_append visible_def split: option.split)
qed

lemma marked_rev [simp]: "marked v (rev es) = marked v es"
  by (simp add: marked_def list_ex_iff)

lemma clear_stale_correct:
  assumes "tw_ok n t" and "n \<le> 2 ^ 16"
  shows "\<exists>t'. clear_stale_epoch_watermark t safe = Some t' \<and> tw_ok n t' \<and> tw_direction t' = tw_direction t
    \<and> (\<forall>x \<in> set (tw_watermarks t'). safe \<le> fst x)
    \<and> (\<forall>v e. vnode_to_index v < n \<longrightarrow> safe \<le> e \<longrightarrow>
         wm_find v (visible e (rev (tw_watermarks t'))) =
          (if marked v (filter (\<lambda>x. e < fst x) (tw_watermarks t))
              \<and> \<not> marked v (filter (\<lambda>x. safe \<le> fst x \<and> fst x \<le> e) (tw_watermarks t))
           then None else wm_find v (visible e (rev (tw_watermarks t)))))"
proof (cases "tw_watermarks t = [] \<or> safe \<le> fst (hd (tw_watermarks t))")
  case True
  have "safe \<le> fst x" if "x \<in> set (tw_watermarks t)" for x
    using True assms(1) that by (cases "tw_watermarks t") (auto simp: tw_ok_def less_imp_le intro: order_trans)
  moreover from this have "filter (\<lambda>x. safe \<le> fst x \<and> fst x \<le> e) (tw_watermarks t) = filter (\<lambda>x. fst x \<le> e) (tw_watermarks t)" for e
    by (intro filter_cong) auto
  ultimately show ?thesis using True assms(1) wm_find_marked [of _ _ "rev (tw_watermarks t)"]
    by (auto simp: clear_stale_epoch_watermark_def marked_rev simp flip: rev_filter)
next
  case False
  let ?es = "rev (tw_watermarks t)"
  obtain rest res s c where pop: "pop_recent safe ?es [] [] None = (rest, res, s, c)"
    by (cases "pop_recent safe ?es [] [] None")
  have ok: "epochs_ok n ?es" "sorted_wrt (>) (map fst ?es)"
    using assms(1) by (simp_all add: tw_ok_def sorted_wrt_rev flip: rev_map)
  have "count_ok n [] None" by (simp add: count_ok_def)
  from pop_recent_correct [OF ok(1) assms(2) this ok(2) pop]
  have r: "?es = res @ rest" "\<forall>x \<in> set res. safe \<le> fst x" "\<forall>x \<in> set rest. fst x < safe"
    "set s = vnodes_of n (concat (map snd res))" "count_ok n s c" by auto
  have ok': "epochs_ok n rest" "epochs_ok n res" "sorted_wrt (>) (map fst res)"
    using ok r(1) by (simp_all add: sorted_wrt_append)
  have "set s \<subseteq> {v. vnode_to_index v < n}" using r(4) by (auto simp: vnodes_of_def)
  from pop_stale_correct [OF ok'(1) assms(2) r(5) this ok'(2,3) r(2)]
  obtain res' kept where p: "pop_stale safe rest res s c = Some res'" "epochs_ok n res'" "sorted_wrt (>) (map fst res')"
    "\<forall>x \<in> set res'. safe \<le> fst x" "\<And>e. safe \<le> e \<Longrightarrow> visible e res' = visible e res @ kept"
    "\<And>v. vnode_to_index v < n \<Longrightarrow> wm_find v kept = (if v \<in> set s then None else wm_find v (concat (map snd rest)))"
    by blast
  let ?t = "\<lparr>tw_watermarks = rev res', tw_direction = tw_direction t\<rparr>"
  have "clear_stale_epoch_watermark t safe = Some ?t"
    using False pop p(1,3) by (auto simp: clear_stale_epoch_watermark_def sorted_wrt_rev_map)
  moreover have "tw_ok n ?t" using p(2,3) by (simp add: tw_ok_def sorted_wrt_rev_map)
  moreover have "wm_find v (visible e res') =
      (if marked v (filter (\<lambda>x. e < fst x) (tw_watermarks t))
           \<and> \<not> marked v (filter (\<lambda>x. safe \<le> fst x \<and> fst x \<le> e) (tw_watermarks t))
        then None else wm_find v (visible e ?es))"
    if v: "vnode_to_index v < n" and e: "safe \<le> e" for v e
    using wm_find_kept [OF v e r(3,2,4) p(6) [OF v]] p(5) [OF e]
    unfolding r(1) [symmetric] by (simp add: marked_rev flip: rev_filter)
  ultimately show ?thesis using p(4) by auto
qed

section \<open>Dropping regressing watermarks\<close>

definition twi_ok :: "nat \<Rightarrow> table_watermarks_index \<Rightarrow> bool" where
  "twi_ok n i = epochs_ok n (newest_first i)"

definition latest :: "table_watermarks_index \<Rightarrow> vnode \<Rightarrow> bytes option" where
  "latest i v = wm_find v (concat (map snd (newest_first i)))"

definition regresses :: "table_watermarks_index \<Rightarrow> bytes \<Rightarrow> vnode \<Rightarrow> bool" where
  "regresses i w v = (case latest i v of None \<Rightarrow> False | Some p \<Rightarrow> filter_by_watermark (twi_direction i) w p)"

lemma latest_watermark_correct: "twi_ok n i \<Longrightarrow> vnode_to_index v < n \<Longrightarrow> latest_watermark i v = Some (latest i v)"
  using visible_all [of "newest_first i" "- 1"]
  by (simp add: latest_watermark_def read_watermark_def read_epochs_correct [of n] twi_ok_def latest_def)

lemma is_regress_correct:
  "twi_ok n i \<Longrightarrow> vnode_to_index v < n \<Longrightarrow> is_regress i w v = Some (regresses i (vw_watermark w) v)"
  by (cases "twi_direction i")
    (simp_all add: is_regress_def latest_watermark_correct [of n] regresses_def filter_by_watermark_def split: option.split)

text \<open>A lazily created builder, as the set of virtual nodes it holds.\<close>

definition opt_builder_ok :: "nat \<Rightarrow> bitmap_builder option \<Rightarrow> bool" where
  "opt_builder_ok n r = (case r of None \<Rightarrow> True | Some b \<Rightarrow> bb_ok b \<and> bb_len b = n)"

definition opt_has :: "vnode \<Rightarrow> bitmap_builder option \<Rightarrow> bool" where
  "opt_has v r = (case r of None \<Rightarrow> False | Some b \<Rightarrow> bb_bools b ! vnode_to_index v)"

lemma opt_builder_set:
  assumes "opt_builder_ok n r" and "vnode_to_index v < n"
  shows "\<exists>b. bb_set (case r of None \<Rightarrow> bb_zeroed n | Some b \<Rightarrow> b) (vnode_to_index v) True = Some b
    \<and> opt_builder_ok n (Some b) \<and> (\<forall>u. vnode_to_index u < n \<longrightarrow> opt_has u (Some b) = (opt_has u r \<or> u = v))"
proof -
  let ?b = "case r of None \<Rightarrow> bb_zeroed n | Some b \<Rightarrow> b"
  have b: "bb_ok ?b" "bb_len ?b = n" "\<And>u. vnode_to_index u < n \<Longrightarrow> bb_bools ?b ! vnode_to_index u = opt_has u r"
    using assms(1) bb_zeroed_correct [of n]
    by (auto simp: opt_builder_ok_def opt_has_def bb_zeroed_def split: option.split) 
  obtain b' where b': "bb_set ?b (vnode_to_index v) True = Some b'" "bb_ok b'" "bb_bools b' = (bb_bools ?b)[vnode_to_index v := True]"
    using bb_set_correct [OF b(1), of "vnode_to_index v" True] b(2) assms(2) by (auto split: option.splits)
  have "bb_len b' = n" using b'(3) b(2) length_bb_bools [of b'] length_bb_bools [of ?b] by simp
  moreover have "opt_has u (Some b') = (opt_has u r \<or> u = v)" if "vnode_to_index u < n" for u
    using that b(2,3) b'(3) assms(2) by (auto simp: opt_has_def [of _ "Some b'"] nth_list_update vnode_to_index_def word_unat_eq_iff)
  ultimately show ?thesis using b'(1,2) by (auto simp: opt_builder_ok_def)
qed

lemma mark_regress_correct:
  assumes "twi_ok n i" and "vw_ok n w" and "\<forall>v \<in> set vs. vnode_to_index v < n" and "opt_builder_ok n r"
  shows "\<exists>r'. mark_regress i w vs r = Some r' \<and> opt_builder_ok n r'
    \<and> (r' = None \<longleftrightarrow> r = None \<and> (\<forall>v \<in> set vs. \<not> regresses i (vw_watermark w) v))
    \<and> (\<forall>u. vnode_to_index u < n \<longrightarrow> opt_has u r' = (opt_has u r \<or> u \<in> set vs \<and> regresses i (vw_watermark w) u))"
  using assms(3,4)
proof (induction vs arbitrary: r)
  case (Cons v vs)
  have count: "vw_vnode_count w = n" using assms(2) by (simp add: vw_ok_def vw_vnode_count_def)
  have v: "vnode_to_index v < n" using Cons.prems(1) by simp
  have rg: "is_regress i w v = Some (regresses i (vw_watermark w) v)" by (rule is_regress_correct [OF assms(1) v])
  show ?case
  proof (cases "regresses i (vw_watermark w) v")
    case True
    obtain b where b: "bb_set (case r of None \<Rightarrow> bb_zeroed n | Some b \<Rightarrow> b) (vnode_to_index v) True = Some b"
      "opt_builder_ok n (Some b)" "\<And>u. vnode_to_index u < n \<Longrightarrow> opt_has u (Some b) = (opt_has u r \<or> u = v)"
      using opt_builder_set [OF Cons.prems(2) v] by blast
    obtain r' where "mark_regress i w vs (Some b) = Some r'" "opt_builder_ok n r'" "r' \<noteq> None"
      "\<And>u. vnode_to_index u < n \<Longrightarrow> opt_has u r' = (opt_has u (Some b) \<or> u \<in> set vs \<and> regresses i (vw_watermark w) u)"
      using Cons.IH [OF _ b(2)] Cons.prems(1) by auto
    then show ?thesis using True rg b count by auto
  next
    case False
    then show ?thesis using rg Cons.IH [OF _ Cons.prems(2)] Cons.prems(1) by auto
  qed
qed simp

lemma keep_vnodes_correct:
  assumes "bb_ok g" and "bb_len g = n" and "\<forall>v \<in> set vs. vnode_to_index v < n" and "opt_builder_ok n r"
  shows "\<exists>r'. keep_vnodes n g vs r = Some r' \<and> opt_builder_ok n r'
    \<and> (r' = None \<longleftrightarrow> r = None \<and> (\<forall>v \<in> set vs. bb_bools g ! vnode_to_index v))
    \<and> (\<forall>u. vnode_to_index u < n \<longrightarrow> opt_has u r' = (opt_has u r \<or> u \<in> set vs \<and> \<not> bb_bools g ! vnode_to_index u))"
  using assms(3,4)
proof (induction vs arbitrary: r)
  case (Cons v vs)
  have v: "vnode_to_index v < n" using Cons.prems(1) by simp
  have gs: "bb_is_set g (vnode_to_index v) = Some (bb_bools g ! vnode_to_index v)"
    using bb_is_set_correct [OF assms(1)] assms(2) v by simp
  show ?case
  proof (cases "bb_bools g ! vnode_to_index v")
    case False
    obtain b where b: "bb_set (case r of None \<Rightarrow> bb_zeroed n | Some b \<Rightarrow> b) (vnode_to_index v) True = Some b"
      "opt_builder_ok n (Some b)" "\<And>u. vnode_to_index u < n \<Longrightarrow> opt_has u (Some b) = (opt_has u r \<or> u = v)"
      using opt_builder_set [OF Cons.prems(2) v] by blast
    obtain r' where "keep_vnodes n g vs (Some b) = Some r'" "opt_builder_ok n r'" "r' \<noteq> None"
      "\<And>u. vnode_to_index u < n \<Longrightarrow> opt_has u r' = (opt_has u (Some b) \<or> u \<in> set vs \<and> \<not> bb_bools g ! vnode_to_index u)"
      using Cons.IH [OF _ b(2)] Cons.prems(1) by auto
    then show ?thesis using False gs b by auto
  next
    case True
    then show ?thesis using gs Cons.IH [OF _ Cons.prems(2)] Cons.prems(1) by auto
  qed
qed simp

lemma filter_regress_one_correct:
  assumes "twi_ok n i" and "vw_ok n w" and "n \<le> 2 ^ 16"
  shows "\<exists>ws. filter_regress_one i w = Some ws \<and> list_all (vw_ok n) ws
    \<and> (\<forall>v. vnode_to_index v < n \<longrightarrow> map vw_watermark (filter (has_vnode v) ws) =
         (if has_vnode v w \<and> \<not> regresses i (vw_watermark w) v then [vw_watermark w] else []))"
proof -
  let ?vs = "iter_vnodes (vw_bitmap w)"
  have it: "v \<in> set ?vs \<longleftrightarrow> vnode_to_index v < n \<and> has_vnode v w" for v by (rule set_iter_vnodes [OF assms(2,3)])
  have count: "vw_vnode_count w = n" using assms(2) by (simp add: vw_ok_def vw_vnode_count_def)
  have vs: "\<forall>v \<in> set ?vs. vnode_to_index v < n" using it by simp
  obtain r where r: "mark_regress i w ?vs None = Some r" "opt_builder_ok n r"
    "r = None \<longleftrightarrow> (\<forall>v \<in> set ?vs. \<not> regresses i (vw_watermark w) v)"
    "\<And>u. vnode_to_index u < n \<Longrightarrow> opt_has u r = (u \<in> set ?vs \<and> regresses i (vw_watermark w) u)"
    using mark_regress_correct [OF assms(1,2) vs, of None] by (auto simp: opt_builder_ok_def opt_has_def)
  show ?thesis
  proof (cases r)
    case None
    then show ?thesis using r(1,3) assms(2) it by (auto simp: filter_regress_one_def)
  next
    case (Some g)
    have g: "bb_ok g" "bb_len g = n" using r(2) Some by (simp_all add: opt_builder_ok_def)
    obtain k where k: "keep_vnodes n g ?vs None = Some k" "opt_builder_ok n k"
      "k = None \<longleftrightarrow> (\<forall>v \<in> set ?vs. bb_bools g ! vnode_to_index v)"
      "\<And>u. vnode_to_index u < n \<Longrightarrow> opt_has u k = (u \<in> set ?vs \<and> \<not> bb_bools g ! vnode_to_index u)"
      using keep_vnodes_correct [OF g vs, of None] by (auto simp: opt_builder_ok_def opt_has_def)
    have gb: "bb_bools g ! vnode_to_index u = (u \<in> set ?vs \<and> regresses i (vw_watermark w) u)" if "vnode_to_index u < n" for u
      using r(4) [OF that] Some by (simp add: opt_has_def)
    show ?thesis
    proof (cases k)
      case None
      have "\<not> (has_vnode v w \<and> \<not> regresses i (vw_watermark w) v)" if "vnode_to_index v < n" for v
        using k(3) None gb [OF that] it [of v] that by auto
      then show ?thesis using r(1) Some k(1) None count by (auto simp: filter_regress_one_def)
    next
      case kb: (Some b)
      have b: "bb_ok b" "bb_len b = n" "bb_len b < 2 ^ 32" using k(2) kb assms(3) by (simp_all add: opt_builder_ok_def)
      let ?w = "\<lparr>vw_bitmap = bb_finish b, vw_watermark = vw_watermark w\<rparr>"
      note fin = bb_finish_correct [OF b(1,3)]
      have "has_vnode v ?w \<longleftrightarrow> has_vnode v w \<and> \<not> regresses i (vw_watermark w) v" if "vnode_to_index v < n" for v
        using k(4) [OF that] gb [OF that] it [of v] that kb fin(2) by (auto simp: has_vnode_def opt_has_def)
      moreover have "vw_ok n ?w" using fin(1) b(2) by (simp add: vw_ok_def) (simp add: bb_finish_def Let_def)
      ultimately show ?thesis using r(1) Some k(1) kb count by (auto simp: filter_regress_one_def)
    qed
  qed
qed

lemma filter_regress_correct:
  assumes "twi_ok n i" and "list_all (vw_ok n) ws" and "n \<le> 2 ^ 16"
  shows "\<exists>ws'. filter_regress_watermarks i ws = Some ws' \<and> list_all (vw_ok n) ws'
    \<and> (\<forall>v. vnode_to_index v < n \<longrightarrow> map vw_watermark (filter (has_vnode v) ws') =
         filter (\<lambda>w. \<not> regresses i w v) (map vw_watermark (filter (has_vnode v) ws)))"
  using assms(2)
proof (induction ws)
  case (Cons w ws)
  obtain a where a: "filter_regress_one i w = Some a" "list_all (vw_ok n) a"
    "\<And>v. vnode_to_index v < n \<Longrightarrow> map vw_watermark (filter (has_vnode v) a) =
       (if has_vnode v w \<and> \<not> regresses i (vw_watermark w) v then [vw_watermark w] else [])"
    using filter_regress_one_correct [OF assms(1) _ assms(3), of w] Cons.prems by auto
  obtain ws' where "filter_regress_watermarks i ws = Some ws'" "list_all (vw_ok n) ws'"
    "\<And>v. vnode_to_index v < n \<Longrightarrow> map vw_watermark (filter (has_vnode v) ws') =
         filter (\<lambda>w. \<not> regresses i w v) (map vw_watermark (filter (has_vnode v) ws))"
    using Cons by auto
  then show ?case using a by auto
qed simp

section \<open>Rewriting a key range\<close>

lemma split_vnode_iff: "split_vnode k = Some (v, p) \<longleftrightarrow> k = be_u16 v @ p"
proof
  assume h: "split_vnode k = Some (v, p)"
  then have "2 \<le> length k" "v = word_of_nat (be_nat (take 2 k))" "p = drop 2 k"
    by (auto simp: split_vnode_def get_u16_def split: if_splits)
  then show "k = be_u16 v @ p" using be_u16_of_bytes [of "take 2 k"] by simp
qed (simp add: split_vnode_def)

lemma key_part_be [simp]: "key_part (be_u16 v @ p) = Some p" "key_part (be_u16 v) = Some []"
  by (simp_all add: key_part_def split_vnode_def)

lemma vnode_partD: "vnode_part k = Some u \<Longrightarrow> \<exists>p. k = be_u16 u @ p"
  using split_vnode_iff by (auto simp: vnode_part_def)

lemma vnode_of_range_cases:
  assumes "vnode_of_range (s, t) = Some v"
  shows "s = Unbounded \<or> (\<exists>p. s = Included (be_u16 v @ p)) \<or> (\<exists>p. s = Excluded (be_u16 v @ p))"
    and "t = Unbounded \<or> (\<exists>p. t = Included (be_u16 v @ p)) \<or> (\<exists>p. p \<noteq> [] \<and> t = Excluded (be_u16 v @ p))
       \<or> (\<exists>u. t = Excluded (be_u16 u) \<and> vnode_to_index u = vnode_to_index v + 1)"
proof -
  obtain l where l: "vnode_range (s, t) = Some (l, l + 1)" "v = vnode_from_index l"
    using assms by (auto simp: vnode_of_range_def split: Option.bind_splits if_splits)
  have left: "(case s of Included k \<Rightarrow> map_option vnode_to_index (vnode_part k)
      | Excluded k \<Rightarrow> map_option vnode_to_index (vnode_part k) | Unbounded \<Rightarrow> Some 0) = Some l"
    using l(1) by (auto simp: vnode_range_def split: Option.bind_splits)
  have idx: "l = vnode_to_index v"
    using left l(2) by (cases s) (auto simp: vnode_index_round_trip vnode_index_less)
  have same: "vnode_to_index u = l \<longleftrightarrow> u = v" "l = vnode_to_index u \<longleftrightarrow> u = v" for u
    unfolding idx by (auto simp: vnode_to_index_def word_unat_eq_iff)
  show "s = Unbounded \<or> (\<exists>p. s = Included (be_u16 v @ p)) \<or> (\<exists>p. s = Excluded (be_u16 v @ p))"
    using left by (cases s) (auto simp: same dest!: vnode_partD)
  show "t = Unbounded \<or> (\<exists>p. t = Included (be_u16 v @ p)) \<or> (\<exists>p. p \<noteq> [] \<and> t = Excluded (be_u16 v @ p))
       \<or> (\<exists>u. t = Excluded (be_u16 u) \<and> vnode_to_index u = vnode_to_index v + 1)"
  proof (cases t)
    case (Included k)
    then have "\<exists>u. vnode_part k = Some u \<and> vnode_to_index u = l"
      using l(1) by (auto simp: vnode_range_def split: Option.bind_splits)
    then show ?thesis using Included by (auto simp: same dest!: vnode_partD)
  next
    case (Excluded k)
    then obtain u p where u: "split_vnode k = Some (u, p)" "l + 1 = (if p = [] then vnode_to_index u else vnode_to_index u + 1)"
      using l(1) by (auto simp: vnode_range_def split: Option.bind_splits)
    have k: "k = be_u16 u @ p" using u(1) by (simp add: split_vnode_iff)
    show ?thesis
    proof (cases "p = []")
      case True
      then show ?thesis using Excluded k u(2) idx by auto
    next
      case False
      then have "u = v" using u(2) same(1) [of u] by simp
      then show ?thesis using Excluded k False by auto
    qed
  qed simp
qed

lemma end_below:
  "(case t of Included e \<Rightarrow> e < x | Excluded e \<Rightarrow> e \<le> x | Unbounded \<Rightarrow> False) \<Longrightarrow> below_end t y \<Longrightarrow> y < x"
  by (cases t) auto

lemma start_above:
  "(case s of Included e \<Rightarrow> x < e | Excluded e \<Rightarrow> x \<le> e | Unbounded \<Rightarrow> False) \<Longrightarrow> above_start s y \<Longrightarrow> x < y"
  by (cases s) auto

lemma rewrite_ascending_exact:
  assumes "vnode_of_range r = Some v"
  shows "\<exists>r'. rewrite_ascending v w r = Some r'
    \<and> (\<forall>k. in_range r' (be_u16 v @ k) \<longleftrightarrow> in_range r (be_u16 v @ k) \<and> \<not> k < w)"
proof -
  obtain s t where r: "r = (s, t)" by (cases r)
  obtain b where b: "(case s of Included k \<Rightarrow> map_option (\<lambda>p. p < w) (key_part k)
      | Excluded k \<Rightarrow> map_option (\<lambda>p. p < w) (key_part k) | Unbounded \<Rightarrow> Some True) = Some b"
    and keep: "\<not> b \<Longrightarrow> above_start s (be_u16 v @ k) \<Longrightarrow> w \<le> k"
    and move: "b \<Longrightarrow> w \<le> k \<Longrightarrow> above_start s (be_u16 v @ k)" for k
    using vnode_of_range_cases(1) [OF assms [unfolded r]] by (elim disjE exE) (force simp: not_less)+
  let ?f = "case t of Included e \<Rightarrow> e < be_u16 v @ w | Excluded e \<Rightarrow> e \<le> be_u16 v @ w | Unbounded \<Rightarrow> False"
  have filtered: "?f \<Longrightarrow> below_end t (be_u16 v @ k) \<Longrightarrow> \<not> w \<le> k" for k
    using end_below [of "be_u16 v @ w" t "be_u16 v @ k"] by (simp add: not_le)
  show ?thesis
  proof (cases b)
    case True
    then have "rewrite_ascending v w r = Some (Included (be_u16 v @ w), if ?f then Excluded (be_u16 v @ w) else t)"
      using b by (simp add: rewrite_ascending_def r prefix_slice_with_vnode_def Let_def)
    moreover have "in_range (Included (be_u16 v @ w), if ?f then Excluded (be_u16 v @ w) else t) (be_u16 v @ k)
        \<longleftrightarrow> in_range r (be_u16 v @ k) \<and> \<not> k < w" for k
      using move [OF True, of k] filtered [of k] by (auto simp: in_range_def r not_less)
    ultimately show ?thesis by blast
  next
    case False
    then have "rewrite_ascending v w r = Some r" using b by (simp add: rewrite_ascending_def r)
    then show ?thesis using keep [OF False] by (auto simp: in_range_def r not_less)
  qed
qed

definition next_vnode_end :: "table_key_range \<Rightarrow> bool" where
  "next_vnode_end r = (case snd r of Excluded k \<Rightarrow> key_part k = Some [] | _ \<Rightarrow> False)"

lemma rewrite_descending_exact:
  assumes "vnode_of_range r = Some v" and "\<not> next_vnode_end r"
  shows "\<exists>r'. rewrite_descending v w r = Some r'
    \<and> (\<forall>k. in_range r' (be_u16 v @ k) \<longleftrightarrow> in_range r (be_u16 v @ k) \<and> \<not> w < k)"
proof -
  obtain s t where r: "r = (s, t)" by (cases r)
  have "t = Unbounded \<or> (\<exists>p. t = Included (be_u16 v @ p)) \<or> (\<exists>p. t = Excluded (be_u16 v @ p))"
    using vnode_of_range_cases(2) [OF assms(1) [unfolded r]] assms(2) by (auto simp: r next_vnode_end_def)
  then obtain b where b: "(case t of Included k \<Rightarrow> map_option (\<lambda>p. w < p) (key_part k)
      | Excluded k \<Rightarrow> map_option (\<lambda>p. w < p) (key_part k) | Unbounded \<Rightarrow> Some True) = Some b"
    and keep: "\<not> b \<Longrightarrow> below_end t (be_u16 v @ k) \<Longrightarrow> k \<le> w"
    and move: "b \<Longrightarrow> k \<le> w \<Longrightarrow> below_end t (be_u16 v @ k)" for k
    by (elim disjE exE) (force simp: not_less)+
  let ?f = "case s of Included e \<Rightarrow> be_u16 v @ w < e | Excluded e \<Rightarrow> be_u16 v @ w \<le> e | Unbounded \<Rightarrow> False"
  have filtered: "?f \<Longrightarrow> above_start s (be_u16 v @ k) \<Longrightarrow> \<not> k \<le> w" for k
    using start_above [of "be_u16 v @ w" s "be_u16 v @ k"] by (simp add: not_le)
  show ?thesis
  proof (cases b)
    case True
    let ?r = "if ?f then (Included (be_u16 v @ w), Excluded (be_u16 v @ w)) else (s, Included (be_u16 v @ w))"
    have "rewrite_descending v w r = Some ?r"
      using b True by (simp add: rewrite_descending_def r prefix_slice_with_vnode_def Let_def)
    moreover have "in_range ?r (be_u16 v @ k) \<longleftrightarrow> in_range r (be_u16 v @ k) \<and> \<not> w < k" for k
      using move [OF True, of k] filtered [of k] by (auto simp: in_range_def r not_less)
    ultimately show ?thesis by blast
  next
    case False
    then have "rewrite_descending v w r = Some r" using b by (simp add: rewrite_descending_def r)
    then show ?thesis using keep [OF False] by (auto simp: in_range_def r not_less)
  qed
qed

lemma rewrite_descending_next_vnode: "next_vnode_end r \<Longrightarrow> rewrite_descending v w r = Some r"
  by (auto simp: next_vnode_end_def rewrite_descending_def split: bound.splits)

section \<open>Reachable indexes\<close>

inductive twi_reach :: "table_watermarks_index \<Rightarrow> bool" where
  fresh: "twi_new direction epoch ws committed = Some i \<Longrightarrow> twi_reach i"
| committed: "sorted_wrt (<) (map fst (tw_watermarks t)) \<Longrightarrow> \<forall>x \<in> set (tw_watermarks t). fst x \<le> epoch \<Longrightarrow>
    twi_reach (twi_new_committed t epoch)"
| add: "twi_reach i \<Longrightarrow> add_epoch_watermark i epoch ws direction = Some i' \<Longrightarrow> twi_reach i'"
| commit: "twi_reach i \<Longrightarrow> sorted_wrt (<) (map fst (tw_watermarks t)) \<Longrightarrow> \<forall>x \<in> set (tw_watermarks t). fst x \<le> epoch \<Longrightarrow>
    apply_committed_watermarks i t epoch = Some i' \<Longrightarrow> twi_reach i'"

definition twi_inv :: "table_watermarks_index \<Rightarrow> bool" where
  "twi_inv i = (sorted_wrt (>) (map fst (newest_first i))
     \<and> (\<forall>x \<in> set (twi_staging i). fst x \<le> twi_latest_epoch i)
     \<and> (case twi_committed_epoch i of
          None \<Rightarrow> twi_committed i = None
        | Some c \<Rightarrow> c \<le> twi_latest_epoch i \<and> (\<forall>x \<in> set (twi_staging i). c < fst x)
            \<and> (\<forall>t. twi_committed i = Some t \<longrightarrow> (\<forall>x \<in> set (tw_watermarks t). fst x \<le> c))))"

lemma dropWhile_sorted:
  "sorted_wrt (<) (map fst xs) \<Longrightarrow> dropWhile (\<lambda>x. fst x \<le> (c :: 'a::linorder)) xs = filter (\<lambda>x. c < fst x) xs"
proof (induction xs)
  case (Cons x xs)
  then show ?case
    by (cases "fst x \<le> c") (auto simp: not_le intro!: filter_True [symmetric] intro: less_trans)
qed simp

lemma sorted_newest_first:
  "sorted_wrt (>) (map fst (newest_first i)) \<longleftrightarrow> sorted_wrt (<) (map fst (twi_staging i))
     \<and> (case twi_committed i of None \<Rightarrow> True
        | Some t \<Rightarrow> sorted_wrt (<) (map fst (tw_watermarks t))
            \<and> (\<forall>x \<in> set (twi_staging i). \<forall>y \<in> set (tw_watermarks t). fst y < fst x))"
  by (fastforce simp: newest_first_def sorted_wrt_append sorted_wrt_rev rev_map [symmetric] split: option.split)

lemma sorted_wrt_filter_map: "sorted_wrt (<) (map fst xs) \<Longrightarrow> sorted_wrt (<) (map fst (filter p xs))"
  by (simp add: sorted_wrt_map sorted_wrt_filter)

lemma twi_reach_inv: "twi_reach i \<Longrightarrow> twi_inv i"
proof (induction rule: twi_reach.induct)
  case (fresh direction epoch ws committed i)
  then show ?case
    by (auto simp: twi_new_def twi_inv_def newest_first_def split: option.splits if_splits)
next
  case (committed t epoch)
  then show ?case
    by (auto simp: twi_inv_def sorted_newest_first) (auto simp: twi_new_committed_def)
next
  case (add i epoch ws direction i')
  have e: "twi_latest_epoch i < epoch"
    and i': "i' = i\<lparr>twi_latest_epoch := epoch, twi_staging := twi_staging i @ [(epoch, ws)]\<rparr>"
    using add.hyps(2) by (auto simp: add_epoch_watermark_def split: if_splits)
  have below: "x \<in> set (twi_staging i) \<Longrightarrow> fst x < epoch" for x
    using add.IH e by (auto simp: twi_inv_def)
  have committed: "twi_committed i = Some t \<Longrightarrow> y \<in> set (tw_watermarks t) \<Longrightarrow> fst y < epoch" for t y
    using add.IH e by (auto simp: twi_inv_def split: option.splits intro: le_less_trans order_trans)
  have "sorted_wrt (>) (map fst (newest_first i'))"
    using add.IH below committed unfolding twi_inv_def sorted_newest_first
    by (fastforce simp: i' sorted_wrt_append split: option.split)
  then show ?case
    using add.IH e below by (fastforce simp: twi_inv_def i' split: option.splits)
next
  case (commit i t epoch i')
  show ?case
  proof (cases "twi_committed_epoch i = Some epoch")
    case True
    then show ?thesis using commit by (auto simp: apply_committed_watermarks_def split: if_splits)
  next
    case False
    have s: "sorted_wrt (<) (map fst (twi_staging i))" using commit by (simp add: twi_inv_def sorted_newest_first)
    have i': "i' = i\<lparr>twi_latest_epoch := (if twi_latest_epoch i < epoch then epoch else twi_latest_epoch i),
         twi_committed_epoch := Some epoch, twi_committed := Some t,
         twi_staging := filter (\<lambda>x. epoch < fst x) (twi_staging i)\<rparr>"
      using commit False by (auto simp: apply_committed_watermarks_def dropWhile_sorted [OF s] split: if_splits)
    show ?thesis
      using commit s sorted_wrt_filter_map [OF s] unfolding i' twi_inv_def sorted_newest_first
      by (auto intro: le_less_trans order_trans less_imp_le)
  qed
qed

section \<open>Protobuf\<close>

lemma vws_round_trip:
  "list_all (vw_ok n) ws \<Longrightarrow> n < 2 ^ 32 \<Longrightarrow> vws_from_protobuf (map vw_to_protobuf ws) = Some ws"
  by (induction ws) (auto simp: vw_ok_def vw_to_protobuf_def vw_from_protobuf_def bitmap_protobuf_round_trip)

lemma epochs_round_trip:
  "epochs_ok n es \<Longrightarrow> n < 2 ^ 32 \<Longrightarrow> epochs_from_protobuf (map (\<lambda>(epoch, ws). (epoch, map vw_to_protobuf ws)) es) = Some es"
  by (induction es) (auto simp: vws_round_trip)

lemma tw_protobuf_round_trip:
  assumes "tw_ok n t" and "n < 2 ^ 32"
  shows "tw_from_protobuf (tw_to_protobuf t) = Some t"
proof -
  have "epochs_from_protobuf (ptw_epoch_watermarks (tw_to_protobuf t)) = Some (tw_watermarks t)"
    using epochs_round_trip [of n "tw_watermarks t"] assms by (simp add: tw_to_protobuf_def tw_ok_def)
  then show ?thesis by (simp add: tw_from_protobuf_def) (simp add: tw_to_protobuf_def split: watermark_direction.split)
qed

section \<open>Appending\<close>

definition watermarks_follow :: "table_watermarks \<Rightarrow> table_watermarks \<Rightarrow> bool" where
  "watermarks_follow c w = (tw_direction c = tw_direction w
     \<and> (\<forall>x \<in> set (tw_watermarks c). \<forall>y \<in> set (tw_watermarks w). fst x < fst y))"

lemma apply_new_table_watermarks_exact:
  assumes "tw_ok n c" and "tw_ok n w"
  shows "apply_new_table_watermarks c w =
    (if watermarks_follow c w then Some (c\<lparr>tw_watermarks := tw_watermarks c @ tw_watermarks w\<rparr>) else None)"
proof -
  have s: "sorted_wrt (<) (map fst (tw_watermarks c))" "sorted_wrt (<) (map fst (tw_watermarks w))"
    using assms by (simp_all add: tw_ok_def)
  have "fst (last (tw_watermarks c)) < fst (hd (tw_watermarks w)) \<longleftrightarrow>
      (\<forall>x \<in> set (tw_watermarks c). \<forall>y \<in> set (tw_watermarks w). fst x < fst y)"
    if ne: "tw_watermarks c \<noteq> []" "tw_watermarks w \<noteq> []"
  proof
    assume lt: "fst (last (tw_watermarks c)) < fst (hd (tw_watermarks w))"
    have "fst x \<le> fst (last (tw_watermarks c))" if x: "x \<in> set (tw_watermarks c)" for x
      using s(1) ne(1) x by (cases "tw_watermarks c" rule: rev_cases) (auto simp: sorted_wrt_append)
    moreover have "fst (hd (tw_watermarks w)) \<le> fst y" if y: "y \<in> set (tw_watermarks w)" for y
      using s(2) ne(2) y by (cases "tw_watermarks w") auto
    ultimately show "\<forall>x \<in> set (tw_watermarks c). \<forall>y \<in> set (tw_watermarks w). fst x < fst y"
      using lt by (meson le_less_trans less_le_trans)
  qed (use ne in simp)
  then have "tw_watermarks c \<noteq> [] \<and> tw_watermarks w \<noteq> [] \<and> \<not> fst (last (tw_watermarks c)) < fst (hd (tw_watermarks w)) \<longleftrightarrow>
      \<not> (\<forall>x \<in> set (tw_watermarks c). \<forall>y \<in> set (tw_watermarks w). fst x < fst y)"
    by (cases "tw_watermarks c = []"; cases "tw_watermarks w = []") simp_all
  with s show ?thesis unfolding apply_new_table_watermarks_def watermarks_follow_def strict_sorted_iff by simp
qed

section \<open>Merging\<close>

lemma extend_epochs_ok: "bt_ok m \<Longrightarrow> bt_ok (extend_epochs es m)"
  by (induction es m rule: extend_epochs.induct) (simp_all add: bt_insert_ok)

lemma extend_epochs_get:
  "(case bt_get (extend_epochs es m) e of None \<Rightarrow> [] | Some ws \<Rightarrow> ws) =
     (case bt_get m e of None \<Rightarrow> [] | Some ws \<Rightarrow> ws) @ concat (map snd (filter (\<lambda>x. fst x = e) es))"
  by (induction es m rule: extend_epochs.induct) (auto simp: bt_get_insert split: option.splits)

section \<open>Properties\<close>

text \<open>
  C26. Clearing the epochs below a safe epoch never panics, leaves only epochs from the safe one on
  and keeps the bitmaps well formed and the epochs strictly ascending. A read at or after the safe
  epoch finds for a virtual node what it found before, with one exception, which is exact: when the
  table has a watermark for the virtual node at an epoch later than the read, and none between the
  safe epoch and the read, then a stale watermark the read saw is gone and the read finds nothing.
\<close>

theorem clear_stale_keeps_watermarks:
  assumes "tw_ok n t" and "n \<le> 2 ^ 16"
  shows "\<exists>t'. clear_stale_epoch_watermark t safe = Some t' \<and> tw_ok n t' \<and> tw_direction t' = tw_direction t
    \<and> (\<forall>x \<in> set (tw_watermarks t'). safe \<le> fst x)
    \<and> (\<forall>v e c. vnode_to_index v < n \<longrightarrow> safe \<le> e \<longrightarrow>
         read_watermark (twi_new_committed t' c) v e =
          (if marked v (filter (\<lambda>x. e < fst x) (tw_watermarks t))
              \<and> \<not> marked v (filter (\<lambda>x. safe \<le> fst x \<and> fst x \<le> e) (tw_watermarks t))
           then Some None else read_watermark (twi_new_committed t c) v e))"
proof -
  obtain t' where t': "clear_stale_epoch_watermark t safe = Some t'" "tw_ok n t'" "tw_direction t' = tw_direction t"
    "\<forall>x \<in> set (tw_watermarks t'). safe \<le> fst x"
    and find: "\<And>v e. vnode_to_index v < n \<Longrightarrow> safe \<le> e \<Longrightarrow> wm_find v (visible e (rev (tw_watermarks t'))) =
          (if marked v (filter (\<lambda>x. e < fst x) (tw_watermarks t))
              \<and> \<not> marked v (filter (\<lambda>x. safe \<le> fst x \<and> fst x \<le> e) (tw_watermarks t))
           then None else wm_find v (visible e (rev (tw_watermarks t))))"
    using clear_stale_correct [OF assms, of safe] by blast
  have read: "read_watermark (twi_new_committed x c) v e = Some (wm_find v (visible e (rev (tw_watermarks x))))"
    if "tw_ok n x" "vnode_to_index v < n" for x c v e
    using that read_epochs_correct [of n "rev (tw_watermarks x)" v e]
    by (simp add: read_watermark_def newest_first_def twi_new_committed_def tw_ok_def)
  have "read_watermark (twi_new_committed t' c) v e =
          (if marked v (filter (\<lambda>x. e < fst x) (tw_watermarks t))
              \<and> \<not> marked v (filter (\<lambda>x. safe \<le> fst x \<and> fst x \<le> e) (tw_watermarks t))
           then Some None else read_watermark (twi_new_committed t c) v e)"
    if v: "vnode_to_index v < n" and e: "safe \<le> e" for v e c
    unfolding read [OF t'(2) v] read [OF assms(1) v] find [OF v e] by simp
  with t' show ?thesis by blast
qed

definition example_vw :: "bytes \<Rightarrow> vnode_watermark" where
  "example_vw w = \<lparr>vw_bitmap = bm_ones 4, vw_watermark = w\<rparr>"

definition example_watermarks :: table_watermarks where
  "example_watermarks = \<lparr>tw_watermarks = [(1, [example_vw [1]]), (2, [example_vw [2]])], tw_direction = Descending\<rparr>"

lemma example_vw_ok [simp]: "vw_ok 4 (example_vw w)" "vw_watermark (example_vw w) = w"
  by (simp_all add: vw_ok_def example_vw_def)

lemma example_vw_has [simp]: "vnode_to_index v < 4 \<Longrightarrow> has_vnode v (example_vw w)"
  by (simp add: has_vnode_def example_vw_def)

lemma example_watermarks_ok: "tw_ok 4 example_watermarks"
  by (simp add: tw_ok_def example_watermarks_def)

text \<open>
  With the epochs 1 and 2 both are stale at 3 and the later one is read. With the epochs 2 and 4 the
  watermark of epoch 2 is no longer found by a read at the safe epoch 3, because epoch 4 has one for
  the same virtual node.
\<close>

definition example_gap :: table_watermarks where
  "example_gap = \<lparr>tw_watermarks = [(2, [example_vw [1]]), (4, [example_vw [2]])], tw_direction = Descending\<rparr>"

theorem clear_stale_keeps_watermarks_witness:
  "(\<exists>t'. clear_stale_epoch_watermark example_watermarks 3 = Some t'
     \<and> read_watermark (twi_new_committed t' 3) 1 3 = Some (Some [2]))
   \<and> (\<exists>t'. clear_stale_epoch_watermark example_gap 3 = Some t'
     \<and> read_watermark (twi_new_committed example_gap 4) 1 3 = Some (Some [1])
     \<and> read_watermark (twi_new_committed t' 4) 1 3 = Some None)"
proof
  have n: "4 \<le> (2 ^ 16 :: nat)" by simp
  have v: "vnode_to_index 1 < 4" by (simp add: vnode_to_index_def)
  have read: "read_watermark (twi_new_committed example_watermarks 3) 1 3 = Some (Some [2])"
    using v read_epochs_correct [of 4 "rev (tw_watermarks example_watermarks)" 1 3]
    by (simp add: read_watermark_def newest_first_def twi_new_committed_def example_watermarks_def wm_find_Cons visible_def)
  show "\<exists>t'. clear_stale_epoch_watermark example_watermarks 3 = Some t'
     \<and> read_watermark (twi_new_committed t' 3) 1 3 = Some (Some [2])"
    using clear_stale_keeps_watermarks [OF example_watermarks_ok n, of 3] v read
    by (elim exE conjE) (simp add: example_watermarks_def marked_def)
  have gap: "tw_ok 4 example_gap" by (simp add: tw_ok_def example_gap_def)
  have "read_watermark (twi_new_committed example_gap 4) 1 3 = Some (Some [1])"
    using v read_epochs_correct [of 4 "rev (tw_watermarks example_gap)" 1 3]
    by (simp add: read_watermark_def newest_first_def twi_new_committed_def example_gap_def wm_find_Cons visible_def)
  then show "\<exists>t'. clear_stale_epoch_watermark example_gap 3 = Some t'
     \<and> read_watermark (twi_new_committed example_gap 4) 1 3 = Some (Some [1])
     \<and> read_watermark (twi_new_committed t' 4) 1 3 = Some None"
    using clear_stale_keeps_watermarks [OF gap n, of 3] v
    by (elim exE conjE) (simp add: example_gap_def marked_def)
qed

text \<open>
  C27. Dropping regressing watermarks before they are added keeps, for every virtual node and in
  order, exactly those watermarks that do not fall behind the latest one the index knows for it, and
  never panics. So for an ascending (descending) index no virtual node is given a watermark below
  (above) the one it has.
\<close>

theorem filter_regress_exact:
  assumes "twi_ok n i" and "list_all (vw_ok n) ws" and "n \<le> 2 ^ 16"
  shows "\<exists>ws'. filter_regress_watermarks i ws = Some ws' \<and> list_all (vw_ok n) ws'
    \<and> (\<forall>v. vnode_to_index v < n \<longrightarrow>
         map vw_watermark (filter (has_vnode v) ws') =
         filter (\<lambda>w. case latest_watermark i v of
                       Some (Some p) \<Rightarrow> \<not> filter_by_watermark (twi_direction i) w p | _ \<Rightarrow> True)
           (map vw_watermark (filter (has_vnode v) ws)))"
proof -
  obtain ws' where ws': "filter_regress_watermarks i ws = Some ws'" "list_all (vw_ok n) ws'"
    "\<And>v. vnode_to_index v < n \<Longrightarrow> map vw_watermark (filter (has_vnode v) ws') =
         filter (\<lambda>w. \<not> regresses i w v) (map vw_watermark (filter (has_vnode v) ws))"
    using filter_regress_correct [OF assms] by blast
  have "(\<lambda>w. \<not> regresses i w v) = (\<lambda>w. case latest_watermark i v of
         Some (Some p) \<Rightarrow> \<not> filter_by_watermark (twi_direction i) w p | _ \<Rightarrow> True)" if "vnode_to_index v < n" for v
    using latest_watermark_correct [OF assms(1) that] by (simp add: regresses_def fun_eq_iff split: option.split)
  with ws' show ?thesis by (intro exI [of _ ws']) simp
qed

theorem filter_regress_exact_witness:
  "\<exists>ws'. filter_regress_watermarks (twi_new_committed example_watermarks 2) [example_vw [3], example_vw [1]] = Some ws'
     \<and> map vw_watermark (filter (has_vnode 1) ws') = [[1]]"
proof -
  let ?i = "twi_new_committed example_watermarks 2"
  have v: "vnode_to_index 1 < 4" by (simp add: vnode_to_index_def)
  have ok: "twi_ok 4 ?i"
    using example_watermarks_ok by (simp add: twi_ok_def newest_first_def twi_new_committed_def tw_ok_def)
  have latest: "latest_watermark ?i 1 = Some (Some [2])"
    using v latest_watermark_correct [OF ok v]
    by (simp add: latest_def newest_first_def twi_new_committed_def example_watermarks_def wm_find_Cons)
  have "twi_direction ?i = Descending" by (simp add: twi_new_committed_def example_watermarks_def)
  then show ?thesis
    using filter_regress_exact [OF ok, of "[example_vw [3], example_vw [1]]"] v latest
    by (auto simp: filter_by_watermark_def)
qed

text \<open>
  C28. Rewriting the key range of a read by the watermark of its virtual node never panics, and a key
  of the virtual node is in the new range if and only if it is in the old one and not behind the
  watermark visible at the epoch of the read. The exception is exact: with descending watermarks a
  range that ends at the start of the next virtual node, as that of a full scan does, is not cut.
\<close>

theorem watermark_rewrite_exact:
  assumes "twi_ok n i" and "vnode_of_range r = Some v" and "vnode_to_index v < n"
  shows "\<exists>r' watermark. rewrite_range_with_table_watermark i e r = Some r' \<and> read_watermark i v e = Some watermark
    \<and> (\<forall>k. in_range r' (be_u16 v @ k) \<longleftrightarrow> in_range r (be_u16 v @ k)
         \<and> (case watermark of None \<Rightarrow> True
            | Some w \<Rightarrow> if twi_direction i = Descending \<and> next_vnode_end r then True
                else \<not> filter_by_watermark (twi_direction i) k w))"
proof -
  obtain watermark where rd: "read_watermark i v e = Some watermark"
    using read_epochs_correct [of n "newest_first i" v e] assms(1,3) by (simp add: read_watermark_def twi_ok_def)
  show ?thesis
  proof (cases watermark)
    case None
    then show ?thesis using rd assms(2) by (auto simp: rewrite_range_with_table_watermark_def)
  next
    case (Some w)
    have "\<exists>r'. rewrite_range_with_table_watermark i e r = Some r'
      \<and> (\<forall>k. in_range r' (be_u16 v @ k) \<longleftrightarrow> in_range r (be_u16 v @ k)
           \<and> (if twi_direction i = Descending \<and> next_vnode_end r then True else \<not> filter_by_watermark (twi_direction i) k w))"
      using rewrite_ascending_exact [OF assms(2), of w] rewrite_descending_exact [OF assms(2), of w]
        rewrite_descending_next_vnode [of r v w] assms(2) rd Some
      by (cases "twi_direction i"; cases "next_vnode_end r") (auto simp: rewrite_range_with_table_watermark_def filter_by_watermark_def)
    then show ?thesis using rd Some by auto
  qed
qed

theorem watermark_rewrite_exact_witness:
  "\<exists>r'. rewrite_range_with_table_watermark (twi_new_committed example_watermarks 2) 2
          (Included [0, 1, 1], Included [0, 1, 9]) = Some r'
     \<and> in_range r' [0, 1, 2] \<and> \<not> in_range r' [0, 1, 3]"
proof -
  let ?i = "twi_new_committed example_watermarks 2" and ?r = "(Included [0, 1, 1], Included [0, 1, 9]) :: table_key_range"
  have be: "be_u16 1 = [0, 1]" by (simp add: be_u16_def nat_be_2)
  have v: "vnode_to_index 1 < 4" by (simp add: vnode_to_index_def)
  have ok: "twi_ok 4 ?i"
    using example_watermarks_ok by (simp add: twi_ok_def newest_first_def twi_new_committed_def tw_ok_def)
  have "vnode_of_range (Included (be_u16 1 @ [1]), Included (be_u16 1 @ [9])) = Some 1"
    by (simp add: vnode_of_range_def vnode_range_def)
  then have rng: "vnode_of_range ?r = Some 1" by (simp add: be)
  have rd: "read_watermark ?i 1 2 = Some (Some [2])"
    using v read_epochs_correct [of 4 "newest_first ?i" 1 2] ok
    by (simp add: read_watermark_def twi_ok_def)
      (simp add: newest_first_def twi_new_committed_def example_watermarks_def wm_find_Cons)
  have dir: "twi_direction ?i = Descending" by (simp add: twi_new_committed_def example_watermarks_def)
  obtain r' where r': "rewrite_range_with_table_watermark ?i 2 ?r = Some r'"
    "\<And>k. in_range r' (be_u16 1 @ k) \<longleftrightarrow> in_range ?r (be_u16 1 @ k) \<and> \<not> k > [2]"
    using watermark_rewrite_exact [OF ok rng v, of 2] rd dir
    by (auto simp: next_vnode_end_def filter_by_watermark_def)
  show ?thesis using r'(1) r'(2) [of "[2]"] r'(2) [of "[3]"] by (simp add: be in_range_def)
qed

text \<open>
  C29. A descending watermark is not applied to a read of a whole virtual node other than the last:
  the range then ends at the encoding of the next virtual node, whose key part is empty and so never
  above the watermark, and the rewritten range still has every key of the virtual node, those above
  the watermark included.
\<close>

theorem descending_watermark_misses_full_scan:
  assumes "twi_direction i = Descending" and "v < vnode_max_representable"
    and "prefixed_range_with_vnode (Unbounded, Unbounded) v = Some r"
    and "read_watermark i v e = Some (Some w)"
  shows "rewrite_range_with_table_watermark i e r = Some r \<and> in_range r (be_u16 v @ k)
    \<and> in_range r (be_u16 v @ w @ [0]) \<and> filter_by_watermark Descending (w @ [0]) w"
proof -
  have v: "v \<le> vnode_max_representable" using assms(2) by simp
  have vn: "vnode_of_range r = Some v" by (rule vnode_of_prefixed_range [OF assms(3) v])
  have r: "r = (Included (be_u16 v), Excluded (be_u16 (vnode_from_index (vnode_to_index v + 1))))"
    using assms(2,3) by (auto simp: prefixed_range_with_vnode_def end_bound_of_vnode_def)
  have "rewrite_range_with_table_watermark i e r = Some r"
    using vn assms(1,4) by (simp add: rewrite_range_with_table_watermark_def rewrite_descending_def r)
  moreover have "in_range r (be_u16 v @ x)" for x
    using prefixed_range_with_vnode_iff [OF assms(3)] v by (simp add: in_range_def)
  moreover have "filter_by_watermark Descending (w @ [0]) w"
    using append_left_less_cancel [of w "[]" "[0]"] by (simp add: filter_by_watermark_def)
  ultimately show ?thesis by blast
qed

theorem descending_watermark_misses_full_scan_witness:
  "\<exists>r. prefixed_range_with_vnode (Unbounded, Unbounded) 1 = Some r
     \<and> rewrite_range_with_table_watermark (twi_new_committed example_watermarks 2) 2 r = Some r \<and> in_range r [0, 1, 9]"
proof -
  let ?i = "twi_new_committed example_watermarks 2"
  have be: "be_u16 1 = [0, 1]" by (simp add: be_u16_def nat_be_2)
  obtain r where r: "prefixed_range_with_vnode (Unbounded, Unbounded) 1 = Some r"
    by (simp add: prefixed_range_with_vnode_def)
  have v: "vnode_to_index 1 < 4" by (simp add: vnode_to_index_def)
  have rd: "read_watermark ?i 1 2 = Some (Some [2])"
    using v read_epochs_correct [of 4 "newest_first ?i" 1 2] example_watermarks_ok
    by (simp add: read_watermark_def newest_first_def twi_new_committed_def tw_ok_def)
      (simp add: example_watermarks_def wm_find_Cons)
  have "(1 :: vnode) < vnode_max_representable"
    by (simp add: vnode_max_representable_def vnode_from_index_def vnode_max_count_def)
  then show ?thesis
    using descending_watermark_misses_full_scan [of ?i 1 r 2 "[2]" "[9]"] r rd
    by (simp add: be twi_new_committed_def example_watermarks_def)
qed

text \<open>
  C30. In every index that its operations can produce, the epochs are strictly descending from the
  newest staging one to the oldest committed one, so a read finds the newest watermark; no staging
  epoch is at or below the committed epoch, and the latest epoch bounds all. An epoch is refused
  exactly when it is not above the latest or has the wrong direction.
\<close>

theorem watermark_index_reachable:
  assumes "twi_reach i"
  shows "sorted_wrt (>) (map fst (newest_first i))
    \<and> (\<forall>x \<in> set (twi_staging i). fst x \<le> twi_latest_epoch i)
    \<and> (\<forall>c. twi_committed_epoch i = Some c \<longrightarrow> c \<le> twi_latest_epoch i \<and> (\<forall>x \<in> set (twi_staging i). c < fst x))
    \<and> (add_epoch_watermark i epoch ws direction = None \<longleftrightarrow>
         epoch \<le> twi_latest_epoch i \<or> direction \<noteq> twi_direction i)"
  using twi_reach_inv [OF assms] by (fastforce simp: twi_inv_def add_epoch_watermark_def not_less)

theorem watermark_index_reachable_witness:
  "add_epoch_watermark (twi_new_committed example_watermarks 2) 2 [] Descending = None"
proof -
  have "twi_reach (twi_new_committed example_watermarks 2)"
    by (rule twi_reach.committed) (simp_all add: example_watermarks_def)
  from watermark_index_reachable [OF this, of 2 "[]" Descending]
  show ?thesis by (simp add: twi_new_committed_def)
qed

end
