(* ===== verification/Change_Log.thy ===== *)
theory Change_Log
  imports Sst_Level State_Table_Info
begin

text \<open>
  Table change logs, \<^verbatim>\<open>storage/hummock_sdk/src/change_log.rs\<close>, and
  \<open>apply_change_log_delta\<close> of \<^verbatim>\<open>compaction_group/hummock_version_ext.rs\<close>: the batches of old and
  new values a table records per epoch, reading and truncating them, building the deltas of a
  commit and applying them to the logs of a version. The generic SSTable type is a type variable;
  hash maps are ordered association lists, and a map that is walked through is a list of its
  entries in any order.
\<close>

section \<open>Operations\<close>

record 'a epoch_new_change_log =
  cl_new_value :: "'a list"
  cl_old_value :: "'a list"
  cl_epochs :: "u64 list"

type_synonym 'a table_change_log = "'a epoch_new_change_log list"

text \<open>\<open>epochs.first().expect("non-empty")\<close> and \<open>epochs.last().expect("non-empty")\<close>.\<close>

definition first_epoch :: "'a epoch_new_change_log \<Rightarrow> u64 option" where
  "first_epoch l = (case cl_epochs l of [] \<Rightarrow> None | e # _ \<Rightarrow> Some e)"

definition last_epoch :: "'a epoch_new_change_log \<Rightarrow> u64 option" where
  "last_epoch l = (case rev (cl_epochs l) of [] \<Rightarrow> None | e # _ \<Rightarrow> Some e)"

text \<open>\<open>&self.0[start..end]\<close> panics when \<open>start > end\<close>; partition points are within the length.\<close>

definition filter_epoch :: "'a table_change_log \<Rightarrow> u64 \<times> u64 \<Rightarrow> 'a table_change_log option" where
  "filter_epoch logs r =
     (case r of (lo, hi) \<Rightarrow>
      do { start \<leftarrow> partition_point_opt (\<lambda>l. map_option (\<lambda>e. e < lo) (last_epoch l)) logs;
           end \<leftarrow> partition_point_opt (\<lambda>l. map_option (\<lambda>e. e \<le> hi) (first_epoch l)) logs;
           if start > end then None else Some (drop start (take end logs)) })"

definition get_non_empty_epochs :: "'a table_change_log \<Rightarrow> u64 \<Rightarrow> nat \<Rightarrow> u64 list option" where
  "get_non_empty_epochs logs min_epoch max_count =
     do { ls \<leftarrow> filter_epoch logs (min_epoch, - 1);
          Some (take max_count (filter (\<lambda>a. a \<ge> min_epoch)
            (concat (map cl_epochs
              (filter (\<lambda>l. cl_new_value l \<noteq> [] \<or> cl_old_value l \<noteq> []) ls))))) }"

text \<open>\<open>retain\<close> with a closure that may panic.\<close>

fun retain_opt :: "('a \<Rightarrow> bool option) \<Rightarrow> 'a list \<Rightarrow> 'a list option" where
  "retain_opt p [] = Some []"
| "retain_opt p (x # xs) =
     do { b \<leftarrow> p x; ys \<leftarrow> retain_opt p xs; Some (if b then x # ys else ys) }"

definition truncate_log :: "'a table_change_log \<Rightarrow> u64 \<Rightarrow> 'a table_change_log option" where
  "truncate_log logs truncate_epoch =
     do { ls \<leftarrow> retain_opt (\<lambda>l. map_option (\<lambda>e. e > truncate_epoch) (last_epoch l)) logs;
          Some (case ls of [] \<Rightarrow> []
                | first_log # rest \<Rightarrow>
                    first_log\<lparr>cl_epochs := filter (\<lambda>e. e > truncate_epoch) (cl_epochs first_log)\<rparr> # rest) }"

record 'a change_log_delta =
  cld_truncate_epoch :: u64
  cld_new_log :: "'a epoch_new_change_log option"

text \<open>
  The two loops of \<open>build_table_change_log_delta\<close>: each SSTable is pushed to the log of every
  table id it lists, and table ids without a log are skipped.
\<close>

definition push_old_value ::
    "sstable_info \<Rightarrow> sstable_info change_log_delta \<Rightarrow> sstable_info change_log_delta option" where
  "push_old_value s d =
     map_option (\<lambda>l. d\<lparr>cld_new_log := Some (l\<lparr>cl_old_value := cl_old_value l @ [s]\<rparr>)\<rparr>) (cld_new_log d)"

definition push_new_value ::
    "sstable_info \<Rightarrow> sstable_info change_log_delta \<Rightarrow> sstable_info change_log_delta option" where
  "push_new_value s d =
     map_option (\<lambda>l. d\<lparr>cld_new_log := Some (l\<lparr>cl_new_value := cl_new_value l @ [s]\<rparr>)\<rparr>) (cld_new_log d)"

fun push_sst ::
    "('v \<Rightarrow> 'v option) \<Rightarrow> u32 list \<Rightarrow> (u32, 'v) btree \<Rightarrow> (u32, 'v) btree option" where
  "push_sst push [] m = Some m"
| "push_sst push (t # ts) m =
     (case bt_get m t of
        None \<Rightarrow> push_sst push ts m
      | Some d \<Rightarrow> do { d' \<leftarrow> push d; push_sst push ts (bt_insert t d' m) })"

fun push_ssts ::
    "(sstable_info \<Rightarrow> 'v \<Rightarrow> 'v option) \<Rightarrow> sstable_info list \<Rightarrow> (u32, 'v) btree \<Rightarrow> (u32, 'v) btree option" where
  "push_ssts push [] m = Some m"
| "push_ssts push (s # ss) m = do { m' \<leftarrow> push_sst (push s) (sst_table_ids s) m; push_ssts push ss m' }"

definition empty_log_delta :: "u64 list \<Rightarrow> u64 \<Rightarrow> sstable_info change_log_delta" where
  "empty_log_delta epochs truncate_epoch =
     \<lparr>cld_truncate_epoch = truncate_epoch,
      cld_new_log = Some \<lparr>cl_new_value = [], cl_old_value = [], cl_epochs = epochs\<rparr>\<rparr>"

definition build_table_change_log_delta ::
    "sstable_info list \<Rightarrow> sstable_info list \<Rightarrow> u64 list \<Rightarrow> (u32 \<times> u64) list \<Rightarrow>
       (u32, sstable_info change_log_delta) btree option" where
  "build_table_change_log_delta old_value_ssts new_value_ssts epochs log_store_table_ids =
     do { let m = foldl (\<lambda>m (t, e). bt_insert t (empty_log_delta epochs e) m) [] log_store_table_ids;
          m \<leftarrow> push_ssts push_old_value old_value_ssts m;
          push_ssts push_new_value new_value_ssts m }"

text \<open>Conversions to and from protobuf; those of the SSTables may panic.\<close>

definition cl_to_pb :: "sstable_info epoch_new_change_log \<Rightarrow> pb_sstable_info epoch_new_change_log option" where
  "cl_to_pb l =
     do { new \<leftarrow> map_opt sst_to_pb (cl_new_value l);
          old \<leftarrow> map_opt sst_to_pb (cl_old_value l);
          Some \<lparr>cl_new_value = new, cl_old_value = old, cl_epochs = cl_epochs l\<rparr> }"

definition cl_from_pb :: "pb_sstable_info epoch_new_change_log \<Rightarrow> sstable_info epoch_new_change_log option" where
  "cl_from_pb l =
     do { new \<leftarrow> map_opt sst_from_pb (cl_new_value l);
          old \<leftarrow> map_opt sst_from_pb (cl_old_value l);
          Some \<lparr>cl_new_value = new, cl_old_value = old, cl_epochs = cl_epochs l\<rparr> }"

definition tcl_to_protobuf :: "sstable_info table_change_log \<Rightarrow> pb_sstable_info table_change_log option" where
  "tcl_to_protobuf logs = map_opt cl_to_pb logs"

definition tcl_from_protobuf :: "pb_sstable_info table_change_log \<Rightarrow> sstable_info table_change_log option" where
  "tcl_from_protobuf logs = map_opt cl_from_pb logs"

definition cld_to_pb :: "sstable_info change_log_delta \<Rightarrow> pb_sstable_info change_log_delta option" where
  "cld_to_pb d =
     (case cld_new_log d of
        None \<Rightarrow> Some \<lparr>cld_truncate_epoch = cld_truncate_epoch d, cld_new_log = None\<rparr>
      | Some l \<Rightarrow> do { l' \<leftarrow> cl_to_pb l;
                      Some \<lparr>cld_truncate_epoch = cld_truncate_epoch d, cld_new_log = Some l'\<rparr> })"

definition cld_from_pb :: "pb_sstable_info change_log_delta \<Rightarrow> sstable_info change_log_delta option" where
  "cld_from_pb d =
     (case cld_new_log d of
        None \<Rightarrow> Some \<lparr>cld_truncate_epoch = cld_truncate_epoch d, cld_new_log = None\<rparr>
      | Some l \<Rightarrow> do { l' \<leftarrow> cl_from_pb l;
                      Some \<lparr>cld_truncate_epoch = cld_truncate_epoch d, cld_new_log = Some l'\<rparr> })"

section \<open>Reading and truncating a log\<close>

text \<open>Every batch has epochs, and the epochs of the log ascend strictly.\<close>

definition tcl_ok :: "'a table_change_log \<Rightarrow> bool" where
  "tcl_ok logs = ((\<forall>l \<in> set logs. cl_epochs l \<noteq> []) \<and> sorted_wrt (<) (concat (map cl_epochs logs)))"

lemma tcl_ok_simps [simp]:
  "tcl_ok []"
  "tcl_ok (l # logs) \<longleftrightarrow> cl_epochs l \<noteq> [] \<and> sorted_wrt (<) (cl_epochs l) \<and> tcl_ok logs
     \<and> (\<forall>x \<in> set (cl_epochs l). \<forall>m \<in> set logs. \<forall>y \<in> set (cl_epochs m). x < y)"
  by (auto simp: tcl_ok_def sorted_wrt_append)

lemma tcl_ok_append:
  "tcl_ok (as @ bs) \<longleftrightarrow> tcl_ok as \<and> tcl_ok bs
     \<and> (\<forall>a \<in> set as. \<forall>x \<in> set (cl_epochs a). \<forall>m \<in> set bs. \<forall>y \<in> set (cl_epochs m). x < y)"
  by (auto simp: tcl_ok_def sorted_wrt_append)

lemma epochs_ends [simp]:
  assumes "cl_epochs l \<noteq> []"
  shows "first_epoch l = Some (hd (cl_epochs l))" and "last_epoch l = Some (last (cl_epochs l))"
  using assms by (cases "cl_epochs l"; simp add: first_epoch_def)
    (cases "cl_epochs l" rule: rev_cases; use assms in \<open>simp add: last_epoch_def\<close>)

lemma sorted_hd_last:
  assumes "sorted_wrt (<) (es :: u64 list)" and "e \<in> set es"
  shows "hd es \<le> e" and "e \<le> last es"
proof -
  show "hd es \<le> e" using assms by (cases es) auto
  show "e \<le> last es" using assms by (cases es rule: rev_cases) (auto simp: sorted_wrt_append)
qed

lemma tcl_ok_sorted:
  assumes "tcl_ok logs"
  shows "sorted_wrt (\<lambda>a b. last (cl_epochs a) < hd (cl_epochs b)) logs"
    and "\<And>l. l \<in> set logs \<Longrightarrow> cl_epochs l \<noteq> [] \<and> sorted_wrt (<) (cl_epochs l)"
  using assms by (induction logs) auto

lemma filter_epoch_exact:
  assumes "tcl_ok logs"
  shows "filter_epoch logs (lo, hi) =
    (if \<exists>l \<in> set logs. last (cl_epochs l) < lo \<and> hi < hd (cl_epochs l) then None
     else Some (filter (\<lambda>l. lo \<le> last (cl_epochs l) \<and> hd (cl_epochs l) \<le> hi) logs))"
proof -
  let ?p = "\<lambda>l. last (cl_epochs l) < lo" and ?q = "\<lambda>l. hd (cl_epochs l) \<le> hi"
  note ok = tcl_ok_sorted [OF assms]
  have hl: "hd (cl_epochs l) \<le> last (cl_epochs l)" if "l \<in> set logs" for l
    using ok(2) [OF that] sorted_hd_last(2) [of "cl_epochs l" "hd (cl_epochs l)"] by auto
  have s: "partition_point_opt (\<lambda>l. map_option (\<lambda>e. e < lo) (last_epoch l)) logs = Some (partition_point ?p logs)"
    by (rule partition_point_opt_total) (use ok(2) in auto)
  have e: "partition_point_opt (\<lambda>l. map_option (\<lambda>e. e \<le> hi) (first_epoch l)) logs = Some (partition_point ?q logs)"
    by (rule partition_point_opt_total) (use ok(2) in auto)
  have w: "sorted_wrt (\<lambda>a b. a \<in> set logs \<and> b \<in> set logs \<and> last (cl_epochs a) < hd (cl_epochs b)) logs"
    using ok(1) by (rule sorted_wrt_mono_rel [rotated]) simp
  have pp: "partitioned ?p logs" by (rule partitioned_sortedI [OF w]) (use hl in force)
  have pq: "partitioned ?q logs" by (rule partitioned_sortedI [OF w]) (use hl in force)
  have gap: "partition_point ?q logs < partition_point ?p logs \<longleftrightarrow> (\<exists>l \<in> set logs. ?p l \<and> \<not> ?q l)"
    (is "?b < ?a \<longleftrightarrow> _")
  proof
    assume lt: "?b < ?a"
    then have "?b < length logs" using partition_point_le_length [OF pp] by simp
    with lt show "\<exists>l \<in> set logs. ?p l \<and> \<not> ?q l"
      using partition_point_less_iff [OF pp, of ?b] partition_point_less_iff [OF pq, of ?b]
      by (intro bexI [of _ "logs ! ?b"]) auto
  next
    assume "\<exists>l \<in> set logs. ?p l \<and> \<not> ?q l"
    then obtain i where "i < length logs" "?p (logs ! i)" "\<not> ?q (logs ! i)" by (auto simp: in_set_conv_nth)
    then have "i < ?a" "\<not> i < ?b"
      using partition_point_less_iff [OF pp, of i] partition_point_less_iff [OF pq, of i] by blast+
    then show "?b < ?a" by simp
  qed
  have "filter (\<lambda>l. ?q l \<and> \<not> ?p l) logs = filter (\<lambda>l. lo \<le> last (cl_epochs l) \<and> hd (cl_epochs l) \<le> hi) logs"
    by (intro filter_cong) auto
  then show ?thesis unfolding filter_epoch_def prod.case s e Option.bind.simps gap
    by (simp add: partition_points_filter [OF pp pq] not_le)
qed

text \<open>What the log records for an epoch: the new and old values of its batch.\<close>

definition values_at :: "'a table_change_log \<Rightarrow> u64 \<Rightarrow> ('a list \<times> 'a list) option" where
  "values_at logs e =
     map_option (\<lambda>l. (cl_new_value l, cl_old_value l)) (find (\<lambda>l. e \<in> set (cl_epochs l)) logs)"

lemma values_at_simps [simp]:
  "values_at [] e = None"
  "values_at (l # logs) e =
     (if e \<in> set (cl_epochs l) then Some (cl_new_value l, cl_old_value l) else values_at logs e)"
  by (simp_all add: values_at_def)

lemma values_at_None: "values_at logs e = None \<longleftrightarrow> e \<notin> set (concat (map cl_epochs logs))"
  by (induction logs) auto

lemma retain_opt_total:
  assumes "\<And>x. x \<in> set xs \<Longrightarrow> p x = Some (q x)"
  shows "retain_opt p xs = Some (filter q xs)"
  using assms by (induction xs) auto

definition truncated :: "u64 \<Rightarrow> 'a table_change_log \<Rightarrow> 'a table_change_log" where
  "truncated e logs =
     (case filter (\<lambda>l. e < last (cl_epochs l)) logs of [] \<Rightarrow> []
      | l # rest \<Rightarrow> l\<lparr>cl_epochs := filter (\<lambda>x. e < x) (cl_epochs l)\<rparr> # rest)"

lemma truncate_log_total:
  assumes "\<forall>l \<in> set logs. cl_epochs l \<noteq> []"
  shows "truncate_log logs e = Some (truncated e logs)"
proof -
  have "retain_opt (\<lambda>l. map_option (\<lambda>x. x > e) (last_epoch l)) logs = Some (filter (\<lambda>l. e < last (cl_epochs l)) logs)"
    by (rule retain_opt_total) (use assms in simp)
  then show ?thesis by (simp add: truncate_log_def truncated_def)
qed

lemma truncated_correct:
  assumes "tcl_ok logs"
  shows "tcl_ok (truncated e logs)
    \<and> concat (map cl_epochs (truncated e logs)) = filter (\<lambda>x. e < x) (concat (map cl_epochs logs))
    \<and> (\<forall>x. values_at (truncated e logs) x = (if e < x then values_at logs x else None))"
  using assms
proof (induction logs)
  case (Cons l logs)
  have l: "cl_epochs l \<noteq> []" "sorted_wrt (<) (cl_epochs l)" "tcl_ok logs"
    "\<forall>x \<in> set (cl_epochs l). \<forall>m \<in> set logs. \<forall>y \<in> set (cl_epochs m). x < y" using Cons.prems by simp_all
  show ?case
  proof (cases "e < last (cl_epochs l)")
    case True
    have after: "e < y" if "m \<in> set logs" "y \<in> set (cl_epochs m)" for m y
      using l(1,4) that True by (metis last_in_set order.strict_trans)
    have all: "filter (\<lambda>l. e < last (cl_epochs l)) logs = logs"
      using after tcl_ok_sorted(2) [OF l(3)] by (intro filter_True) (metis last_in_set)
    have t: "truncated e (l # logs) = l\<lparr>cl_epochs := filter (\<lambda>x. e < x) (cl_epochs l)\<rparr> # logs"
      using True all by (simp add: truncated_def)
    have rest: "filter (\<lambda>x. e < x) (concat (map cl_epochs logs)) = concat (map cl_epochs logs)"
      using after by (intro filter_True) auto
    have "filter (\<lambda>x. e < x) (cl_epochs l) \<noteq> []" using True l(1) by (auto simp: filter_empty_conv)
    moreover have "values_at logs x = None" if "\<not> e < x" for x
      using after that by (auto simp: values_at_None)
    ultimately show ?thesis unfolding t using l rest by (auto intro: sorted_wrt_filter)
  next
    case False
    have low: "x \<le> e" if "x \<in> set (cl_epochs l)" for x
      using sorted_hd_last(2) [OF l(2) that] False by simp
    have t: "truncated e (l # logs) = truncated e logs" using False by (simp add: truncated_def)
    have "filter (\<lambda>x. e < x) (cl_epochs l) = []" using low by (auto simp: filter_empty_conv not_less)
    moreover have "x \<notin> set (cl_epochs l)" if "e < x" for x using low [of x] that by auto
    ultimately show ?thesis unfolding t using Cons.IH [OF l(3)] by simp
  qed
qed (simp add: truncated_def)

lemma get_non_empty_epochs_exact:
  assumes "tcl_ok logs"
  shows "get_non_empty_epochs logs lo n =
    Some (take n (filter (\<lambda>e. lo \<le> e)
      (concat (map cl_epochs (filter (\<lambda>l. cl_new_value l \<noteq> [] \<or> cl_old_value l \<noteq> []) logs)))))"
proof -
  have skip: "filter (\<lambda>e. lo \<le> e) (cl_epochs l) = []" if "l \<in> set logs" "\<not> lo \<le> last (cl_epochs l)" for l
    using tcl_ok_sorted(2) [OF assms that(1)] that(2) sorted_hd_last(2)
    by (fastforce simp: filter_empty_conv)
  have "filter (\<lambda>e. lo \<le> e) (concat (map cl_epochs (filter P (filter (\<lambda>l. lo \<le> last (cl_epochs l)) ls))))
      = filter (\<lambda>e. lo \<le> e) (concat (map cl_epochs (filter P ls)))" if "set ls \<subseteq> set logs" for P ls
    using that by (induction ls) (auto simp: skip)
  then show ?thesis
    by (simp add: get_non_empty_epochs_def filter_epoch_exact [OF assms] not_less)
qed

section \<open>Building a delta\<close>

lemma push_sst_correct:
  assumes "\<And>d. P d \<Longrightarrow> push d = Some (f d) \<and> P (f d)"
    and "bt_ok m" and "distinct ts" and "\<forall>t d. bt_get m t = Some d \<longrightarrow> P d"
  shows "\<exists>m'. push_sst push ts m = Some m' \<and> bt_ok m'
    \<and> (\<forall>t. bt_get m' t = map_option (\<lambda>d. if t \<in> set ts then f d else d) (bt_get m t))"
  using assms(2-)
proof (induction ts arbitrary: m)
  case Nil
  have "x = map_option (\<lambda>d. d) x" for x :: "'a option" by (cases x) simp_all
  with Nil show ?case by (simp add: id_def)
next
  case (Cons t ts)
  show ?case
  proof (cases "bt_get m t")
    case None
    have "distinct ts" using Cons.prems(2) by simp
    from Cons.IH [OF Cons.prems(1) this Cons.prems(3)] obtain m' where m':
      "push_sst push ts m = Some m'" "bt_ok m'"
      "\<forall>t. bt_get m' t = map_option (\<lambda>d. if t \<in> set ts then f d else d) (bt_get m t)" by blast
    then have "bt_get m' x = map_option (\<lambda>d. if x \<in> set (t # ts) then f d else d) (bt_get m x)" for x
      using None by (cases "x = t") auto
    with None m' show ?thesis by auto
  next
    case (Some d)
    have d: "push d = Some (f d)" "P (f d)" using assms(1) Cons.prems(3) Some by auto
    have "\<forall>k x. bt_get (bt_insert t (f d) m) k = Some x \<longrightarrow> P x"
      using d(2) Cons.prems(3) by (auto simp: btree_simps)
    from Cons.IH [OF bt_insert_ok [OF Cons.prems(1)] _ this] Cons.prems(2) obtain m' where m':
      "push_sst push ts (bt_insert t (f d) m) = Some m'" "bt_ok m'"
      "\<forall>x. bt_get m' x = map_option (\<lambda>d. if x \<in> set ts then f d else d) (bt_get (bt_insert t (f d) m) x)" by auto
    then have "bt_get m' x = map_option (\<lambda>d. if x \<in> set (t # ts) then f d else d) (bt_get m x)" for x
      using Some Cons.prems(2) by (cases "x = t") (auto simp: btree_simps)
    with Some d m' show ?thesis by auto
  qed
qed

lemma push_ssts_correct:
  assumes "\<And>s d. P d \<Longrightarrow> push s d = Some (f s d) \<and> P (f s d)"
    and "bt_ok m" and "\<forall>s \<in> set ss. distinct (sst_table_ids s)" and "\<forall>t d. bt_get m t = Some d \<longrightarrow> P d"
  shows "\<exists>m'. push_ssts push ss m = Some m' \<and> bt_ok m'
    \<and> (\<forall>t. bt_get m' t = map_option (fold f (filter (\<lambda>s. t \<in> set (sst_table_ids s)) ss)) (bt_get m t))"
  using assms(2-)
proof (induction ss arbitrary: m)
  case Nil
  have "x = map_option (\<lambda>d. d) x" for x :: "'a option" by (cases x) simp_all
  with Nil show ?case by (simp add: id_def)
next
  case (Cons s ss)
  obtain m1 where m1: "push_sst (push s) (sst_table_ids s) m = Some m1" "bt_ok m1"
    "\<And>t. bt_get m1 t = map_option (\<lambda>d. if t \<in> set (sst_table_ids s) then f s d else d) (bt_get m t)"
    using push_sst_correct [of P "push s" "f s" m "sst_table_ids s"] assms(1) Cons.prems by auto
  have P1: "\<forall>t d. bt_get m1 t = Some d \<longrightarrow> P d"
    using assms(1) Cons.prems(3) by (auto simp: m1(3))
  obtain m2 where m2: "push_ssts push ss m1 = Some m2" "bt_ok m2"
    "\<And>t. bt_get m2 t = map_option (fold f (filter (\<lambda>s. t \<in> set (sst_table_ids s)) ss)) (bt_get m1 t)"
    using Cons.IH [OF m1(2) _ P1] Cons.prems(2) by auto
  have "bt_get m2 t = map_option (fold f (filter (\<lambda>s. t \<in> set (sst_table_ids s)) (s # ss))) (bt_get m t)" for t
    unfolding m2(3) m1(3) by (simp add: option.map_comp comp_def)
  with m1(1) m2 show ?case by auto
qed

text \<open>The delta a table gets: its truncation epoch and the SSTables that list it.\<close>

definition log_delta_of ::
    "sstable_info list \<Rightarrow> sstable_info list \<Rightarrow> u64 list \<Rightarrow> u32 \<Rightarrow> u64 \<Rightarrow> sstable_info change_log_delta" where
  "log_delta_of old new epochs t e =
     \<lparr>cld_truncate_epoch = e,
      cld_new_log = Some \<lparr>cl_new_value = filter (\<lambda>s. t \<in> set (sst_table_ids s)) new,
        cl_old_value = filter (\<lambda>s. t \<in> set (sst_table_ids s)) old, cl_epochs = epochs\<rparr>\<rparr>"

lemma foldl_insert_deltas:
  "bt_ok m \<Longrightarrow> bt_ok (foldl (\<lambda>m (t, e). bt_insert t (g e) m) m ids)
     \<and> bt_get (foldl (\<lambda>m (t, e). bt_insert t (g e) m) m ids) t
       = (case map_of (rev ids) t of None \<Rightarrow> bt_get m t | Some e \<Rightarrow> Some (g e))"
proof (induction ids arbitrary: m)
  case (Cons x ids)
  obtain a e where "x = (a, e)" by (cases x)
  with Cons.IH [of "bt_insert a (g e) m"] Cons.prems show ?case
    by (auto simp: btree_simps map_add_def split: option.splits)
qed simp

lemma build_table_change_log_delta_exact:
  assumes "\<forall>s \<in> set old \<union> set new. distinct (sst_table_ids s)"
  shows "\<exists>m. build_table_change_log_delta old new epochs ids = Some m \<and> bt_ok m
    \<and> (\<forall>t. bt_get m t = map_option (log_delta_of old new epochs t) (map_of (rev ids) t))"
proof -
  let ?P = "\<lambda>d :: sstable_info change_log_delta. cld_new_log d \<noteq> None"
  let ?fo = "\<lambda>s d. d\<lparr>cld_new_log := map_option (cl_old_value_update (\<lambda>v. v @ [s])) (cld_new_log d)\<rparr>"
  let ?fn = "\<lambda>s d. d\<lparr>cld_new_log := map_option (cl_new_value_update (\<lambda>v. v @ [s])) (cld_new_log d)\<rparr>"
  have pold: "push_old_value s d = Some (?fo s d) \<and> ?P (?fo s d)"
    and pnew: "push_new_value s d = Some (?fn s d) \<and> ?P (?fn s d)" if "?P d" for s d
    using that by (auto simp: push_old_value_def push_new_value_def)
  define m0 where "m0 = foldl (\<lambda>m (t, e). bt_insert t (empty_log_delta epochs e) m) [] ids"
  have m0: "bt_ok m0" "\<And>t. bt_get m0 t = map_option (empty_log_delta epochs) (map_of (rev ids) t)"
    using foldl_insert_deltas [of "[] :: (u32, sstable_info change_log_delta) btree" "empty_log_delta epochs" ids]
    by (auto simp: m0_def bt_get_def split: option.splits)
  have P0: "\<forall>t d. bt_get m0 t = Some d \<longrightarrow> ?P d" by (auto simp: m0(2) empty_log_delta_def)
  obtain m1 where m1: "push_ssts push_old_value old m0 = Some m1" "bt_ok m1"
    "\<And>t. bt_get m1 t = map_option (fold ?fo (filter (\<lambda>s. t \<in> set (sst_table_ids s)) old)) (bt_get m0 t)"
    using push_ssts_correct [of ?P push_old_value ?fo m0 old, OF pold m0(1) _ P0] assms by auto
  have fold_o: "fold ?fo ss \<lparr>cld_truncate_epoch = e, cld_new_log = Some \<lparr>cl_new_value = n, cl_old_value = ol, cl_epochs = es\<rparr>\<rparr>
      = \<lparr>cld_truncate_epoch = e, cld_new_log = Some \<lparr>cl_new_value = n, cl_old_value = ol @ ss, cl_epochs = es\<rparr>\<rparr>"
    for ss e n ol es by (induction ss arbitrary: ol) simp_all
  have fold_n: "fold ?fn ss \<lparr>cld_truncate_epoch = e, cld_new_log = Some \<lparr>cl_new_value = n, cl_old_value = ol, cl_epochs = es\<rparr>\<rparr>
      = \<lparr>cld_truncate_epoch = e, cld_new_log = Some \<lparr>cl_new_value = n @ ss, cl_old_value = ol, cl_epochs = es\<rparr>\<rparr>"
    for ss e n ol es by (induction ss arbitrary: n) simp_all
  have g1: "bt_get m1 t = map_option (\<lambda>e. log_delta_of old [] epochs t e) (map_of (rev ids) t)" for t
    unfolding m1(3) m0(2) by (simp add: option.map_comp comp_def empty_log_delta_def log_delta_of_def fold_o)
  have P1: "\<forall>t d. bt_get m1 t = Some d \<longrightarrow> ?P d" by (auto simp: g1 log_delta_of_def)
  obtain m2 where m2: "push_ssts push_new_value new m1 = Some m2" "bt_ok m2"
    "\<And>t. bt_get m2 t = map_option (fold ?fn (filter (\<lambda>s. t \<in> set (sst_table_ids s)) new)) (bt_get m1 t)"
    using push_ssts_correct [of ?P push_new_value ?fn m1 new, OF pnew m1(2) _ P1] assms by auto
  have "bt_get m2 t = map_option (log_delta_of old new epochs t) (map_of (rev ids) t)" for t
    unfolding m2(3) g1 by (cases "map_of (rev ids) t") (simp_all add: log_delta_of_def fold_n)
  with m1(1) m2 show ?thesis
    by (simp add: build_table_change_log_delta_def flip: m0_def)
qed

section \<open>Applying deltas to the logs of a version\<close>

text \<open>
  The first loop of \<open>apply_change_log_delta\<close>: the new batch is appended to the table's log, and
  its first epoch must be past the last one of the log.
\<close>

definition append_new_log ::
    "'a table_change_log option \<Rightarrow> 'a epoch_new_change_log \<Rightarrow> 'a table_change_log option" where
  "append_new_log entry new_log =
     (case entry of
        Some change_log \<Rightarrow>
          (case rev change_log of
             [] \<Rightarrow> Some (change_log @ [new_log])
           | prev_log # _ \<Rightarrow>
               do { e \<leftarrow> last_epoch prev_log; f \<leftarrow> first_epoch new_log;
                    if e < f then Some (change_log @ [new_log]) else None })
      | None \<Rightarrow> Some [new_log])"

fun append_new_logs ::
    "(table_id \<times> 'a change_log_delta) list \<Rightarrow> (table_id, 'a table_change_log) btree \<Rightarrow>
       (table_id, 'a table_change_log) btree option" where
  "append_new_logs [] m = Some m"
| "append_new_logs ((t, d) # ds) m =
     do { new_log \<leftarrow> cld_new_log d;
          change_log \<leftarrow> append_new_log (bt_get m t) new_log;
          append_new_logs ds (bt_insert t change_log m) }"

text \<open>
  The closure of \<open>retain\<close>: the log of a removed table is dropped, and so is one whose table
  committed a later epoch without a new batch.
\<close>

definition retain_log ::
    "(table_id \<times> 'a change_log_delta) list \<Rightarrow> table_id list \<Rightarrow> (table_id \<times> state_table_info) list \<Rightarrow>
       changed_tables \<Rightarrow> table_id \<Rightarrow> bool" where
  "retain_log deltas removed info_deltas changed t =
     (if t \<in> set removed then False
      else case (map_of info_deltas t, bt_get changed t) of
             (Some d, Some (Some prev_info)) \<Rightarrow>
               if sti_committed_epoch d > sti_committed_epoch prev_info
               then map_of deltas t \<noteq> None else True
           | _ \<Rightarrow> True)"

fun truncate_logs ::
    "(table_id \<times> 'a change_log_delta) list \<Rightarrow> (table_id, 'a table_change_log) btree \<Rightarrow>
       (table_id, 'a table_change_log) btree option" where
  "truncate_logs [] m = Some m"
| "truncate_logs ((t, d) # ds) m =
     (case bt_get m t of
        None \<Rightarrow> truncate_logs ds m
      | Some change_log \<Rightarrow>
          do { change_log \<leftarrow> truncate_log change_log (cld_truncate_epoch d);
               truncate_logs ds (bt_insert t change_log m) })"

definition apply_change_log_delta ::
    "(table_id, 'a table_change_log) btree \<Rightarrow> (table_id \<times> 'a change_log_delta) list \<Rightarrow> table_id list \<Rightarrow>
       (table_id \<times> state_table_info) list \<Rightarrow> changed_tables \<Rightarrow> (table_id, 'a table_change_log) btree option" where
  "apply_change_log_delta logs deltas removed info_deltas changed =
     do { logs \<leftarrow> append_new_logs deltas logs;
          truncate_logs deltas
            (filter (\<lambda>e. retain_log deltas removed info_deltas changed (fst e)) logs) }"

text \<open>A batch that may follow a log, and the log a delta leaves for its table.\<close>

definition log_follows :: "'a table_change_log option \<Rightarrow> 'a epoch_new_change_log \<Rightarrow> bool" where
  "log_follows entry l = (case entry of None \<Rightarrow> True
     | Some logs \<Rightarrow> logs = [] \<or> last (cl_epochs (last logs)) < hd (cl_epochs l))"

definition logs_ok :: "(table_id, 'a table_change_log) btree \<Rightarrow> bool" where
  "logs_ok m = (bt_ok m \<and> (\<forall>t logs. bt_get m t = Some logs \<longrightarrow> tcl_ok logs))"

definition deltas_ok :: "(table_id \<times> 'a change_log_delta) list \<Rightarrow> bool" where
  "deltas_ok ds = (distinct (map fst ds) \<and> (\<forall>t d l. (t, d) \<in> set ds \<longrightarrow> cld_new_log d = Some l \<longrightarrow>
     cl_epochs l \<noteq> [] \<and> sorted_wrt (<) (cl_epochs l)))"

definition appended :: "'a table_change_log option \<Rightarrow> 'a change_log_delta option \<Rightarrow> 'a table_change_log option" where
  "appended entry d = (case d of None \<Rightarrow> entry
     | Some d \<Rightarrow> Some ((case entry of None \<Rightarrow> [] | Some logs \<Rightarrow> logs)
                  @ (case cld_new_log d of None \<Rightarrow> [] | Some l \<Rightarrow> [l])))"

lemma tcl_ok_snoc:
  assumes "tcl_ok logs" and "cl_epochs l \<noteq> []" and "sorted_wrt (<) (cl_epochs l)"
    and "logs = [] \<or> last (cl_epochs (last logs)) < hd (cl_epochs l)"
  shows "tcl_ok (logs @ [l])"
proof -
  have "x < y" if "a \<in> set logs" "x \<in> set (cl_epochs a)" "y \<in> set (cl_epochs l)" for a x y
  proof -
    have "x \<le> last (cl_epochs (last logs))" using assms(1) that(1,2)
    proof (induction logs)
      case (Cons b logs)
      show ?case
      proof (cases "logs = []")
        case True
        with Cons show ?thesis using sorted_hd_last(2) by auto
      next
        case False
        then have "last (cl_epochs (last logs)) \<in> set (cl_epochs (last logs))" "last logs \<in> set logs"
          using tcl_ok_sorted(2) [of logs "last logs"] Cons.prems(1) by auto
        moreover from this Cons.prems(1) have "x < last (cl_epochs (last logs))" if "a = b"
          using that Cons.prems(3) by simp
        ultimately show ?thesis using Cons False by (cases "a = b") auto
      qed
    qed simp
    also have "\<dots> < hd (cl_epochs l)" using assms(4) that(1) by auto
    also have "\<dots> \<le> y" using sorted_hd_last(1) [OF assms(3) that(3)] .
    finally show ?thesis .
  qed
  with assms(1-3) show ?thesis by (auto simp: tcl_ok_append)
qed

lemma append_new_log_exact:
  assumes "\<And>logs. entry = Some logs \<Longrightarrow> tcl_ok logs" and "cl_epochs l \<noteq> []"
  shows "append_new_log entry l =
    (if log_follows entry l then Some ((case entry of None \<Rightarrow> [] | Some logs \<Rightarrow> logs) @ [l]) else None)"
proof (cases entry)
  case (Some logs)
  show ?thesis
  proof (cases logs rule: rev_cases)
    case (snoc as a)
    then have "cl_epochs a \<noteq> []" using assms(1) [OF Some] by (simp add: tcl_ok_append)
    with Some snoc assms(2) show ?thesis by (simp add: append_new_log_def log_follows_def)
  qed (use Some in \<open>simp add: append_new_log_def log_follows_def\<close>)
qed (simp add: append_new_log_def log_follows_def)

lemma append_new_logs_exact:
  assumes "logs_ok m" and "deltas_ok ds"
  shows "case append_new_logs ds m of
      None \<Rightarrow> \<exists>(t, d) \<in> set ds. \<forall>l. cld_new_log d = Some l \<longrightarrow> \<not> log_follows (bt_get m t) l
    | Some m' \<Rightarrow> logs_ok m' \<and> (\<forall>(t, d) \<in> set ds. \<exists>l. cld_new_log d = Some l \<and> log_follows (bt_get m t) l)
        \<and> (\<forall>t. bt_get m' t = appended (bt_get m t) (map_of ds t))"
  using assms
proof (induction ds arbitrary: m)
  case Nil
  then show ?case by (simp add: appended_def)
next
  case (Cons x ds)
  obtain t d where x: "x = (t, d)" by (cases x)
  have ds: "deltas_ok ds" "t \<notin> fst ` set ds" using Cons.prems(2) by (auto simp: deltas_ok_def x)
  show ?case
  proof (cases "\<exists>l. cld_new_log d = Some l \<and> log_follows (bt_get m t) l")
    case False
    have "append_new_logs (x # ds) m = None"
    proof (cases "cld_new_log d")
      case (Some l)
      then have l: "cl_epochs l \<noteq> []" using Cons.prems(2) by (auto simp: deltas_ok_def x)
      have "append_new_log (bt_get m t) l = None"
        using append_new_log_exact [of "bt_get m t" l, OF _ l] False Some Cons.prems(1)
        by (auto simp: logs_ok_def)
      with Some show ?thesis by (simp add: x)
    qed (simp add: x)
    with False show ?thesis by (auto simp: x)
  next
    case True
    then obtain l where l: "cld_new_log d = Some l" "log_follows (bt_get m t) l" by blast
    have le: "cl_epochs l \<noteq> []" "sorted_wrt (<) (cl_epochs l)" using Cons.prems(2) l(1) by (auto simp: deltas_ok_def x)
    define c where "c = (case bt_get m t of None \<Rightarrow> [] | Some logs \<Rightarrow> logs) @ [l]"
    have a: "append_new_log (bt_get m t) l = Some c"
      using append_new_log_exact [of "bt_get m t" l, OF _ le(1)] l(2) Cons.prems(1) by (auto simp: logs_ok_def c_def)
    have c: "tcl_ok c" unfolding c_def
      by (rule tcl_ok_snoc) (use Cons.prems(1) l(2) le in \<open>auto simp: logs_ok_def log_follows_def split: option.splits\<close>)
    have m: "logs_ok (bt_insert t c m)" using Cons.prems(1) c by (auto simp: logs_ok_def btree_simps)
    have step: "append_new_logs (x # ds) m = append_new_logs ds (bt_insert t c m)" by (simp add: x l a)
    have other: "bt_get (bt_insert t c m) t' = bt_get m t'" if "(t', d') \<in> set ds" for t' d'
      using ds(2) that by (force simp: btree_simps)
    have mt: "map_of ds t = None" using ds(2) by (simp add: map_of_eq_None_iff)
    show ?thesis
    proof (cases "append_new_logs ds (bt_insert t c m)")
      case None
      with Cons.IH [OF m ds(1)] obtain t' d' where td: "(t', d') \<in> set ds"
        "\<forall>l. cld_new_log d' = Some l \<longrightarrow> \<not> log_follows (bt_get (bt_insert t c m) t') l" by auto
      then show ?thesis using step None other [OF td(1)] by (auto simp: x)
    next
      case (Some m')
      note IH = Cons.IH [OF m ds(1), unfolded Some option.case]
      have "\<forall>(t', d') \<in> set ds. \<exists>l. cld_new_log d' = Some l \<and> log_follows (bt_get m t') l"
        using IH other by fastforce
      moreover have "bt_get m' t' = appended (bt_get m t') (map_of (x # ds) t')" for t'
        using IH mt l(1) by (cases "t' = t") (auto simp: x btree_simps appended_def c_def)
      ultimately show ?thesis using step Some IH l by (auto simp: x)
    qed
  qed
qed

definition truncation :: "(table_id \<times> 'a change_log_delta) list \<Rightarrow> table_id \<Rightarrow> 'a table_change_log \<Rightarrow> 'a table_change_log" where
  "truncation ds t = (case map_of ds t of None \<Rightarrow> id | Some d \<Rightarrow> truncated (cld_truncate_epoch d))"

lemma truncation_simps:
  "truncation [] t = id"
  "truncation ((t', d) # ds) t = (if t = t' then truncated (cld_truncate_epoch d) else truncation ds t)"
  by (simp_all add: truncation_def)

lemma truncate_logs_correct:
  assumes "logs_ok m" and "distinct (map fst ds)"
  shows "\<exists>m'. truncate_logs ds m = Some m' \<and> logs_ok m'
    \<and> (\<forall>t. bt_get m' t = map_option (truncation ds t) (bt_get m t))"
  using assms
proof (induction ds arbitrary: m)
  case Nil
  then show ?case by (simp add: truncation_simps option.map_ident id_def)
next
  case (Cons x ds)
  obtain t d where x: "x = (t, d)" by (cases x)
  have mt: "truncation ds t = id" using Cons.prems(2)
    by (simp add: truncation_def x map_of_eq_None_iff [THEN iffD2])
  show ?case
  proof (cases "bt_get m t")
    case None
    with Cons.IH [of m] Cons.prems obtain m' where m': "truncate_logs ds m = Some m'" "logs_ok m'"
      "\<forall>t. bt_get m' t = map_option (truncation ds t) (bt_get m t)"
      by (auto simp: x simp del: split_paired_All)
    have "bt_get m' t' = map_option (truncation (x # ds) t') (bt_get m t')" for t'
      using m'(3) None by (cases "t' = t") (auto simp: x truncation_simps)
    with m' None show ?thesis by (auto simp: x)
  next
    case (Some c)
    let ?c = "truncated (cld_truncate_epoch d) c"
    have ok: "tcl_ok c" using Cons.prems(1) Some by (auto simp: logs_ok_def)
    then have tr: "truncate_log c (cld_truncate_epoch d) = Some ?c"
      using tcl_ok_sorted(2) [OF ok] by (intro truncate_log_total) auto
    have m: "logs_ok (bt_insert t ?c m)"
      using Cons.prems(1) truncated_correct [OF ok] by (auto simp: logs_ok_def btree_simps)
    with Cons.IH [of "bt_insert t ?c m"] Cons.prems obtain m' where m': "truncate_logs ds (bt_insert t ?c m) = Some m'" "logs_ok m'"
      "\<forall>t'. bt_get m' t' = map_option (truncation ds t') (bt_get (bt_insert t ?c m) t')"
      by (auto simp: x simp del: split_paired_All)
    have "bt_get m' t' = map_option (truncation (x # ds) t') (bt_get m t')" for t'
      using m'(3) Some mt by (cases "t' = t") (auto simp: x btree_simps truncation_simps)
    with m' Some tr show ?thesis by (auto simp: x)
  qed
qed

text \<open>The log a table is left with.\<close>

definition log_after ::
    "(table_id, 'a table_change_log) btree \<Rightarrow> (table_id \<times> 'a change_log_delta) list \<Rightarrow> table_id \<Rightarrow> 'a table_change_log option" where
  "log_after m ds t =
     (case map_of ds t of None \<Rightarrow> bt_get m t
      | Some d \<Rightarrow> map_option (truncated (cld_truncate_epoch d)) (appended (bt_get m t) (Some d)))"

lemma apply_change_log_delta_correct:
  assumes "logs_ok m" and "deltas_ok ds"
  shows "case apply_change_log_delta m ds removed infos changed of
      None \<Rightarrow> \<exists>(t, d) \<in> set ds. \<forall>l. cld_new_log d = Some l \<longrightarrow> \<not> log_follows (bt_get m t) l
    | Some m' \<Rightarrow> logs_ok m' \<and> (\<forall>(t, d) \<in> set ds. \<exists>l. cld_new_log d = Some l \<and> log_follows (bt_get m t) l)
        \<and> (\<forall>t. bt_get m' t = (if retain_log ds removed infos changed t then log_after m ds t else None))"
proof (cases "append_new_logs ds m")
  case None
  then show ?thesis using append_new_logs_exact [OF assms] by (simp add: apply_change_log_delta_def)
next
  case (Some m1)
  note a = append_new_logs_exact [OF assms, unfolded Some option.case]
  define m2 where "m2 = filter (\<lambda>e. retain_log ds removed infos changed (fst e)) m1"
  have g2: "bt_get m2 t = (if retain_log ds removed infos changed t then bt_get m1 t else None)" for t
    unfolding m2_def by (induction m1) (auto simp: bt_get_def)
  have "bt_ok m2" using a bt_filter_ok [of m1] by (simp add: m2_def logs_ok_def)
  moreover have "tcl_ok logs" if "bt_get m2 t = Some logs" for t logs
    using that a by (simp add: g2 logs_ok_def split: if_splits)
  ultimately have "logs_ok m2" by (simp add: logs_ok_def)
  then obtain m3 where m3: "truncate_logs ds m2 = Some m3" "logs_ok m3"
    "\<And>t. bt_get m3 t = map_option (truncation ds t) (bt_get m2 t)"
    using truncate_logs_correct [of m2 ds] assms(2) by (auto simp: deltas_ok_def)
  have "bt_get m3 t = (if retain_log ds removed infos changed t then log_after m ds t else None)" for t
    using a by (auto simp: m3(3) g2 log_after_def appended_def option.map_id truncation_def split: option.split)
  with a m3 Some show ?thesis by (auto simp: apply_change_log_delta_def m2_def)
qed

text \<open>The tables that \<open>retain\<close> drops, as a condition on the delta.\<close>

lemma log_kept:
  "(if retain_log ds removed infos changed t then x else None) =
     (if t \<in> set removed \<or> map_of ds t = None
         \<and> (\<exists>info before. map_of infos t = Some info \<and> bt_get changed t = Some (Some before)
              \<and> sti_committed_epoch before < sti_committed_epoch info)
      then None else x)"
  by (auto simp: retain_log_def split: option.splits)

lemma cl_pb_round_trip:
  assumes "cl_to_pb l = Some p"
  shows "cl_from_pb p = Some (l\<lparr>cl_new_value := map sst_canon (cl_new_value l),
    cl_old_value := map sst_canon (cl_old_value l)\<rparr>)"
  using assms
  by (auto simp: cl_to_pb_def cl_from_pb_def map_opt_round_trip [OF _ sst_pb_round_trip] split: Option.bind_splits)

section \<open>Properties\<close>

text \<open>
  C32. Reading and truncating a table's change log, where every batch has epochs and epochs ascend.
  \<open>filter_epoch\<close> returns exactly the batches whose span of epochs meets the requested range, and
  panics exactly when the range is inverted across a whole batch. \<open>get_non_empty_epochs\<close> lists the
  first epochs, at or after the given one, of batches with values. \<open>truncate\<close> keeps the
  epochs after the given one with the values recorded for them, drops every other epoch, and leaves
  the log well formed.
\<close>

theorem change_log_reads_exact:
  assumes "tcl_ok logs"
  shows "filter_epoch logs (lo, hi) =
      (if \<exists>l \<in> set logs. last (cl_epochs l) < lo \<and> hi < hd (cl_epochs l) then None
       else Some (filter (\<lambda>l. lo \<le> last (cl_epochs l) \<and> hd (cl_epochs l) \<le> hi) logs))
    \<and> get_non_empty_epochs logs lo n =
        Some (take n (filter (\<lambda>e. lo \<le> e)
          (concat (map cl_epochs (filter (\<lambda>l. cl_new_value l \<noteq> [] \<or> cl_old_value l \<noteq> []) logs)))))
    \<and> (\<exists>logs'. truncate_log logs e = Some logs' \<and> tcl_ok logs'
        \<and> concat (map cl_epochs logs') = filter (\<lambda>x. e < x) (concat (map cl_epochs logs))
        \<and> (\<forall>x. values_at logs' x = (if e < x then values_at logs x else None)))"
proof -
  have "truncate_log logs e = Some (truncated e logs)"
    using tcl_ok_sorted(2) [OF assms] by (intro truncate_log_total) blast
  with truncated_correct [OF assms, of e] show ?thesis
    using filter_epoch_exact [OF assms] get_non_empty_epochs_exact [OF assms] by blast
qed

definition example_log :: "nat table_change_log" where
  "example_log = [\<lparr>cl_new_value = [7], cl_old_value = [], cl_epochs = [2]\<rparr>,
     \<lparr>cl_new_value = [8], cl_old_value = [7], cl_epochs = [3, 4]\<rparr>,
     \<lparr>cl_new_value = [], cl_old_value = [], cl_epochs = [5]\<rparr>]"

lemma example_log_ok: "tcl_ok example_log"
  by (simp add: example_log_def)

theorem change_log_reads_exact_witness:
  "filter_epoch example_log (4, 4) = Some [example_log ! 1]
   \<and> filter_epoch example_log (6, 1) = None
   \<and> get_non_empty_epochs example_log 3 5 = Some [3, 4]
   \<and> (\<exists>logs'. truncate_log example_log 3 = Some logs' \<and> concat (map cl_epochs logs') = [4, 5]
        \<and> values_at logs' 4 = Some ([8], [7]))"
  using change_log_reads_exact [OF example_log_ok, of 4 4 0 3]
    change_log_reads_exact [OF example_log_ok, of 6 1 0 3]
    change_log_reads_exact [OF example_log_ok, of 3 0 5 3]
  by (auto simp: example_log_def)

text \<open>
  C33. Applying the change-log deltas of a version delta to well-formed logs. It panics exactly when
  some delta has no new batch or a batch does not start after the last epoch of its table's log.
  Otherwise the logs stay well formed; a table's log is dropped exactly when the table is removed or
  has committed a later epoch without a new batch, and is otherwise the old log with the new batch,
  truncated at the requested epoch.
\<close>

theorem apply_change_log_delta_exact:
  assumes "logs_ok m" and "deltas_ok ds"
  shows "case apply_change_log_delta m ds removed infos changed of
      None \<Rightarrow> \<exists>(t, d) \<in> set ds. \<forall>l. cld_new_log d = Some l \<longrightarrow> \<not> log_follows (bt_get m t) l
    | Some m' \<Rightarrow> logs_ok m' \<and> (\<forall>(t, d) \<in> set ds. \<exists>l. cld_new_log d = Some l \<and> log_follows (bt_get m t) l)
        \<and> (\<forall>t. bt_get m' t =
             (if t \<in> set removed \<or> map_of ds t = None
                 \<and> (\<exists>info before. map_of infos t = Some info \<and> bt_get changed t = Some (Some before)
                      \<and> sti_committed_epoch before < sti_committed_epoch info)
              then None else log_after m ds t))"
  using apply_change_log_delta_correct [OF assms, of removed infos changed] unfolding log_kept .

text \<open>
  Table 1 gets a new batch and is truncated, table 2 commits epoch 9 without one, table 3 is removed
  and table 4 is not mentioned.
\<close>

definition example_logs :: "(table_id, nat table_change_log) btree" where
  "example_logs = [(1, example_log), (2, example_log), (3, example_log), (4, example_log)]"

definition example_log_deltas :: "(table_id \<times> nat change_log_delta) list" where
  "example_log_deltas = [(1, \<lparr>cld_truncate_epoch = 4,
     cld_new_log = Some \<lparr>cl_new_value = [9], cl_old_value = [8], cl_epochs = [9]\<rparr>\<rparr>)]"

definition example_infos :: "(table_id \<times> state_table_info) list" where
  "example_infos = [(1, \<lparr>sti_committed_epoch = 9, sti_compaction_group_id = 2\<rparr>),
     (2, \<lparr>sti_committed_epoch = 9, sti_compaction_group_id = 2\<rparr>)]"

definition example_changed :: changed_tables where
  "example_changed = [(1, Some \<lparr>sti_committed_epoch = 5, sti_compaction_group_id = 2\<rparr>),
     (2, Some \<lparr>sti_committed_epoch = 5, sti_compaction_group_id = 2\<rparr>)]"

theorem apply_change_log_delta_exact_witness:
  "\<exists>m'. apply_change_log_delta example_logs example_log_deltas [3] example_infos example_changed = Some m'
     \<and> bt_get m' 1 = Some [example_log ! 2, \<lparr>cl_new_value = [9], cl_old_value = [8], cl_epochs = [9]\<rparr>]
     \<and> bt_get m' 2 = None \<and> bt_get m' 3 = None \<and> bt_get m' 4 = Some example_log"
proof -
  have ok: "logs_ok example_logs"
    using example_log_ok by (auto simp: logs_ok_def example_logs_def bt_get_def split: if_splits)
  have ds: "deltas_ok example_log_deltas" by (simp add: deltas_ok_def example_log_deltas_def)
  note t = apply_change_log_delta_exact [OF ok ds, of "[3]" example_infos example_changed]
  have f: "log_follows (bt_get example_logs 1) \<lparr>cl_new_value = [9], cl_old_value = [8], cl_epochs = [9]\<rparr>"
    by (simp add: log_follows_def example_logs_def bt_get_def example_log_def)
  obtain m' where m': "apply_change_log_delta example_logs example_log_deltas [3] example_infos example_changed = Some m'"
    using t f by (cases "apply_change_log_delta example_logs example_log_deltas [3] example_infos example_changed")
      (auto simp: example_log_deltas_def)
  have g: "bt_get m' x =
      (if x \<in> set [3] \<or> map_of example_log_deltas x = None
          \<and> (\<exists>info before. map_of example_infos x = Some info \<and> bt_get example_changed x = Some (Some before)
               \<and> sti_committed_epoch before < sti_committed_epoch info)
       then None else log_after example_logs example_log_deltas x)" for x
    using t unfolding m' by simp
  show ?thesis
    by (intro exI [of _ m'] conjI m'; unfold g)
      (simp_all add: log_after_def example_log_deltas_def example_infos_def example_changed_def
        example_logs_def example_log_def bt_get_def appended_def truncated_def)
qed

end
