(* ===== verification/Version_Split.thy ===== *)
theory Version_Split
  imports Group_Split
begin

text \<open>
  Splitting a compaction group in two, \<open>init_with_parent_group\<close> and \<open>init_with_parent_group_v2\<close> of
  \<^verbatim>\<open>storage/hummock_sdk/src/compaction_group/hummock_version_ext.rs\<close> on the levels of the parent
  and of the new group, and the count of the SSTable ids a split needs. The lemmas show that a split
  at a key partitions the user keys of every level, uses exactly the counted ids and, like
  compaction and merging, keeps the shape of both groups: sorted table ids, ascending sub-levels and
  concatenable levels, without SSTables of objects that were not there.
\<close>

section \<open>The tables a split moves\<close>

text \<open>
  \<open>extract_if(|sst| sst.table_ids.is_empty())\<close> on the tables of a level, whose sizes are taken
  off the level; the sizes removed are returned for the totals of level 0.
\<close>

definition drop_empty_ssts :: "level \<Rightarrow> level \<times> u64 \<times> u64" where
  "drop_empty_ssts l =
     (let gone = filter (\<lambda>s. sst_table_ids s = []) (lvl_table_infos l) in
      (l\<lparr>lvl_table_infos := filter (\<lambda>s. sst_table_ids s \<noteq> []) (lvl_table_infos l),
         lvl_total_file_size := lvl_total_file_size l - sst_sizes gone,
         lvl_uncompressed_file_size := lvl_uncompressed_file_size l - sst_uncompressed_sizes gone\<rparr>,
       sst_sizes gone, sst_uncompressed_sizes gone))"

text \<open>The older split of a level by member tables: kept tables, moved tables, next id.\<close>

primrec split_ssts_by_members ::
    "u32 list \<Rightarrow> sstable_info list \<Rightarrow> u64 \<Rightarrow> (sstable_info list \<times> sstable_info list) \<times> u64" where
  "split_ssts_by_members members [] new_sst_id = (([], []), new_sst_id)"
| "split_ssts_by_members members (s # ss) new_sst_id =
     (if filter (\<lambda>t. t \<in> set members) (sst_table_ids s) \<noteq> [] then
        (let ((modified, branch), i) =
               split_sst_with_table_ids s new_sst_id (sst_size s div 2) (sst_size s div 2) members;
             ((kept, moved), j) = split_ssts_by_members members ss i
         in ((modified # kept, branch # moved), j))
      else (let ((kept, moved), j) = split_ssts_by_members members ss new_sst_id
            in ((s # kept, moved), j)))"

definition split_sst_info_for_level :: "u32 list \<Rightarrow> level \<Rightarrow> u64 \<Rightarrow> sstable_info list \<times> level \<times> u64" where
  "split_sst_info_for_level members l new_sst_id =
     (let ((kept, moved), i) = split_ssts_by_members members (lvl_table_infos l) new_sst_id
      in (moved, l\<lparr>lvl_table_infos := kept\<rparr>, i))"

text \<open>\<open>get_sub_level_insert_hint\<close>, then the sub-level is extended or a new one inserted.\<close>

definition add_to_target :: "overlapping_level \<Rightarrow> level \<Rightarrow> sstable_info list \<Rightarrow> overlapping_level option" where
  "add_to_target target sub_level ssts =
     (case get_sub_level_insert_hint (l0_sub_levels target) sub_level of
        Inr idx \<Rightarrow> add_ssts_to_sub_level target idx ssts
      | Inl idx \<Rightarrow> insert_new_sub_level target (lvl_sub_level_id sub_level) (lvl_type sub_level) ssts (Some idx))"

definition take_off :: "overlapping_level \<Rightarrow> u64 \<Rightarrow> u64 \<Rightarrow> overlapping_level" where
  "take_off l0 sz usz =
     l0\<lparr>l0_total_file_size := l0_total_file_size l0 - sz,
        l0_uncompressed_file_size := l0_uncompressed_file_size l0 - usz\<rparr>"

text \<open>Extending a base level of the new group: sizes, sort, \<open>assert!(can_concat(..))\<close>.\<close>

definition extend_base :: "level list \<Rightarrow> nat \<Rightarrow> sstable_info list \<Rightarrow> level list option" where
  "extend_base cur idx ssts =
     (if idx < length cur then
        (let l = cur ! idx in
         do { infos \<leftarrow> sort_and_check (lvl_table_infos l @ ssts);
              Some (cur[idx := l\<lparr>lvl_total_file_size := lvl_total_file_size l + sst_sizes ssts,
                lvl_uncompressed_file_size := lvl_uncompressed_file_size l + sst_uncompressed_sizes ssts,
                lvl_table_infos := infos\<rparr>]) })
      else None)"

definition no_empty_sub_level :: "overlapping_level \<Rightarrow> bool" where
  "no_empty_sub_level l0 = list_all (\<lambda>l. lvl_table_infos l \<noteq> []) (l0_sub_levels l0)"

definition retain_sub_levels :: "overlapping_level \<Rightarrow> overlapping_level" where
  "retain_sub_levels l0 = l0\<lparr>l0_sub_levels := filter (\<lambda>l. lvl_table_infos l \<noteq> []) (l0_sub_levels l0)\<rparr>"

section \<open>Splitting a group by its member tables\<close>

text \<open>
  The loop over the sub-levels of the parent: what is left of them, the parent's level 0 (its
  totals), the level 0 of the new group, and the next id.
\<close>

primrec split_l0 ::
    "u32 list \<Rightarrow> level list \<Rightarrow> overlapping_level \<Rightarrow> overlapping_level \<Rightarrow> u64 \<Rightarrow>
       (level list \<times> overlapping_level \<times> overlapping_level \<times> u64) option" where
  "split_l0 members [] l0 target new_sst_id = Some ([], l0, target, new_sst_id)"
| "split_l0 members (s # ss) l0 target new_sst_id =
     (let (moved, s', i) = split_sst_info_for_level members s new_sst_id;
          (s'', sz, usz) = drop_empty_ssts s' in
      do { target \<leftarrow> (if moved = [] then Some target else add_to_target target s'' moved);
           (rest, l0, target, j) \<leftarrow> split_l0 members ss (take_off l0 sz usz) target i;
           Some (s'' # rest, l0, target, j) })"

primrec split_base ::
    "u32 list \<Rightarrow> nat \<Rightarrow> level list \<Rightarrow> level list \<Rightarrow> u64 \<Rightarrow> (level list \<times> level list \<times> u64) option" where
  "split_base members idx [] cur new_sst_id = Some ([], cur, new_sst_id)"
| "split_base members idx (l # ls) cur new_sst_id =
     (let (moved, l', i) = split_sst_info_for_level members l new_sst_id in
      do { cur \<leftarrow> extend_base cur idx moved;
           (rest, cur, j) \<leftarrow> split_base members (idx + 1) ls cur i;
           Some (fst (drop_empty_ssts l') # rest, cur, j) })"

definition split_levels_by_members :: "u32 list \<Rightarrow> levels \<Rightarrow> levels \<Rightarrow> u64 \<Rightarrow> (levels \<times> levels \<times> u64) option" where
  "split_levels_by_members members parent cur new_sst_id =
     do { (subs, l0, target, i) \<leftarrow>
            split_l0 members (l0_sub_levels (lvs_l0 parent)) (lvs_l0 parent) (lvs_l0 cur) new_sst_id;
          let l0 = retain_sub_levels (l0\<lparr>l0_sub_levels := subs\<rparr>);
          (base, cur_base, j) \<leftarrow> split_base members 0 (lvs_levels parent) (lvs_levels cur) i;
          if no_empty_sub_level l0 \<and> no_empty_sub_level target
          then Some (parent\<lparr>lvs_l0 := l0, lvs_levels := base\<rparr>, cur\<lparr>lvs_l0 := target, lvs_levels := cur_base\<rparr>, j)
          else None }"

section \<open>Splitting a group at a key\<close>

definition split_level_at :: "bytes option \<Rightarrow> level \<Rightarrow> u64 \<Rightarrow> (sstable_info list \<times> level \<times> u64) option" where
  "split_level_at split_key l new_sst_id =
     (case split_key of
        Some key \<Rightarrow> split_sst_info_for_level_v2 l new_sst_id key
      | None \<Rightarrow> Some ([], l, new_sst_id))"

primrec split_l0_v2 ::
    "bytes option \<Rightarrow> level list \<Rightarrow> overlapping_level \<Rightarrow> overlapping_level \<Rightarrow> u64 \<Rightarrow>
       (level list \<times> overlapping_level \<times> overlapping_level \<times> u64) option" where
  "split_l0_v2 key [] l0 target new_sst_id = Some ([], l0, target, new_sst_id)"
| "split_l0_v2 key (s # ss) l0 target new_sst_id =
     do { (moved, s', i) \<leftarrow> split_level_at key s new_sst_id;
          if moved = [] then
            do { (rest, l0, target, j) \<leftarrow> split_l0_v2 key ss l0 target i;
                 Some (s' # rest, l0, target, j) }
          else do {
            let (s'', sz, usz) = drop_empty_ssts s';
            target \<leftarrow> add_to_target target s'' moved;
            (rest, l0, target, j) \<leftarrow> split_l0_v2 key ss (take_off l0 sz usz) target i;
            Some (s'' # rest, l0, target, j) } }"

primrec split_base_v2 ::
    "bytes option \<Rightarrow> nat \<Rightarrow> level list \<Rightarrow> level list \<Rightarrow> u64 \<Rightarrow> (level list \<times> level list \<times> u64) option" where
  "split_base_v2 key idx [] cur new_sst_id = Some ([], cur, new_sst_id)"
| "split_base_v2 key idx (l # ls) cur new_sst_id =
     do { (moved, l', i) \<leftarrow> split_level_at key l new_sst_id;
          if moved = [] then
            do { (rest, cur, j) \<leftarrow> split_base_v2 key (idx + 1) ls cur i;
                 Some (l' # rest, cur, j) }
          else do {
            cur \<leftarrow> extend_base cur idx moved;
            (rest, cur, j) \<leftarrow> split_base_v2 key (idx + 1) ls cur i;
            Some (fst (drop_empty_ssts l') # rest, cur, j) } }"

definition split_levels_at :: "bytes option \<Rightarrow> levels \<Rightarrow> levels \<Rightarrow> u64 \<Rightarrow> (levels \<times> levels \<times> u64) option" where
  "split_levels_at key parent cur new_sst_id =
     do { (subs, l0, target, i) \<leftarrow>
            split_l0_v2 key (l0_sub_levels (lvs_l0 parent)) (lvs_l0 parent) (lvs_l0 cur) new_sst_id;
          let l0 = retain_sub_levels (l0\<lparr>l0_sub_levels := subs\<rparr>);
          (base, cur_base, j) \<leftarrow> split_base_v2 key 0 (lvs_levels parent) (lvs_levels cur) i;
          if no_empty_sub_level l0 \<and> no_empty_sub_level target
          then Some (parent\<lparr>lvs_l0 := l0, lvs_levels := base\<rparr>, cur\<lparr>lvs_l0 := target, lvs_levels := cur_base\<rparr>, j)
          else None }"

text \<open>\<open>count_new_ssts_in_group_split\<close> on the levels of the parent.\<close>

definition count_split :: "bytes \<Rightarrow> sstable_info \<Rightarrow> u64 option" where
  "count_split key s = map_option (\<lambda>ty. if ty = SplitBoth then 2 else 0) (need_to_split s key)"

definition count_split_at_pos :: "bytes \<Rightarrow> sstable_info list \<Rightarrow> u64 option" where
  "count_split_at_pos key ssts =
     do { pos \<leftarrow> get_split_pos ssts key;
          if pos < length ssts then count_split key (ssts ! pos) else None }"

fun sum_opt :: "u64 option list \<Rightarrow> u64 option" where
  "sum_opt [] = Some 0"
| "sum_opt (x # xs) = do { a \<leftarrow> x; b \<leftarrow> sum_opt xs; Some (a + b) }"

definition count_sub_level :: "bytes \<Rightarrow> level \<Rightarrow> u64 option" where
  "count_sub_level key l =
     (if lvl_table_infos l = [] then None
      else if lvl_type l = Overlapping then sum_opt (map (count_split key) (lvl_table_infos l))
      else count_split_at_pos key (lvl_table_infos l))"

definition count_base_level :: "bytes \<Rightarrow> level \<Rightarrow> u64 option" where
  "count_base_level key l =
     (if lvl_table_infos l = [] then Some 0 else count_split_at_pos key (lvl_table_infos l))"

definition count_new_ssts :: "levels \<Rightarrow> bytes \<Rightarrow> u64 option" where
  "count_new_ssts parent key =
     do { a \<leftarrow> sum_opt (map (count_sub_level key) (l0_sub_levels (lvs_l0 parent)));
          b \<leftarrow> sum_opt (map (count_base_level key) (lvs_levels parent));
          Some (a + b) }"

section \<open>Levels without their recorded sizes\<close>

text \<open>
  A split leaves the recorded sizes of the parent behind, so what it keeps is the shape of a group:
  the invariant of its levels without the sizes. The table ids of every SSTable are sorted, and its
  object is one of a given set \<open>X\<close>, so that the shape also tells where objects come from.
\<close>

definition sst_good :: "u64 set \<Rightarrow> sstable_info \<Rightarrow> bool" where
  "sst_good X s = (sst_ok s \<and> sorted (sst_table_ids s) \<and> sst_object_id s \<in> X)"

definition level_shape :: "u64 set \<Rightarrow> level \<Rightarrow> bool" where
  "level_shape X l = ((\<forall>s \<in> set (lvl_table_infos l). sst_good X s)
     \<and> (lvl_type l = Overlapping \<or> level_ok (lvl_table_infos l)))"

definition subs_shape :: "u64 set \<Rightarrow> level list \<Rightarrow> bool" where
  "subs_shape X subs = ((\<forall>l \<in> set subs. level_shape X l) \<and> sorted_wrt (<) (map lvl_sub_level_id subs))"

definition base_shape :: "u64 set \<Rightarrow> level list \<Rightarrow> bool" where
  "base_shape X ls = (\<forall>i < length ls. level_shape X (ls ! i) \<and> lvl_type (ls ! i) = Nonoverlapping
     \<and> lvl_idx (ls ! i) = word_of_nat (i + 1))"

definition levels_shape :: "u64 set \<Rightarrow> levels \<Rightarrow> bool" where
  "levels_shape X ls = (subs_shape X (l0_sub_levels (lvs_l0 ls)) \<and> base_shape X (lvs_levels ls))"

lemma level_inv_shape: "level_shape X l \<and> level_sizes_ok l \<Longrightarrow> level_inv l"
  by (auto simp: level_inv_def level_shape_def sst_good_def)

section \<open>One level\<close>

lemma drop_empty_ssts_fields [simp]:
  "lvl_table_infos (fst (drop_empty_ssts l)) = filter (\<lambda>s. sst_table_ids s \<noteq> []) (lvl_table_infos l)"
  "lvl_sub_level_id (fst (drop_empty_ssts l)) = lvl_sub_level_id l"
  "lvl_type (fst (drop_empty_ssts l)) = lvl_type l"
  "lvl_idx (fst (drop_empty_ssts l)) = lvl_idx l"
  by (simp_all add: drop_empty_ssts_def Let_def)

lemma ssts_have_nonempty: "ssts_have (filter (\<lambda>s. sst_table_ids s \<noteq> []) ssts) = ssts_have ssts"
  by (auto simp: ssts_have_def sst_has_def fun_eq_iff)

lemma splits_at_nonempty:
  "splits_at t ssts kept moved \<Longrightarrow> splits_at t ssts (filter (\<lambda>s. sst_table_ids s \<noteq> []) kept) moved"
  unfolding splits_at_def ssts_have_nonempty by auto

lemma split_one_count:
  assumes "split_one key s i = Some ((l, r), j)"
  shows "\<exists>c. count_split key s = Some c \<and> j = i + c"
  using assms
  by (auto simp: split_one_def count_split_def split_sst_def Let_def
      split: Option.bind_splits sst_split_type.splits if_splits)

lemma split_overlapping_count:
  assumes "split_overlapping key ssts i = Some ((l, r), j)"
  shows "\<exists>c. sum_opt (map (count_split key) ssts) = Some c \<and> j = i + c"
  using assms
proof (induction ssts arbitrary: i l r)
  case (Cons s ssts)
  from Cons.prems obtain l1 r1 k l2 r2 where "split_one key s i = Some ((l1, r1), k)"
    "split_overlapping key ssts k = Some ((l2, r2), j)"
    by (auto split: Option.bind_splits)
  with split_one_count Cons.IH show ?case by fastforce
qed simp

lemma split_nonoverlapping_count:
  assumes "split_nonoverlapping key ssts i = Some ((l, r), j)" and "ssts \<noteq> []" and "level_ok ssts"
    and "is_split_key key t"
  shows "\<exists>c. count_split_at_pos key ssts = Some c \<and> j = i + c"
  using get_split_pos_decomp [OF assms(3,2,4)]
proof cases
  case (1 A s B)
  then show ?thesis using assms(1)
    by (auto simp: split_nonoverlapping_def count_split_at_pos_def count_split_def split_sst_def Let_def nth_append
      split: Option.bind_splits sst_split_type.splits if_splits)
qed

lemma split_sst_parts:
  assumes "split_sst s i key a b = Some ((l, r), j)"
  shows "\<forall>x \<in> set (opt_list l @ opt_list r). sorted (sst_table_ids x) \<and> sst_object_id x = sst_object_id s"
  using assms
  by (auto simp: split_sst_def Let_def split_table_ids_with_split_key_def split_table_ids_with_table_id_and_vnode_def
      sorted_wrt_take sorted_wrt_drop split: Option.bind_splits if_splits)

text \<open>Sorted table ids and an object of the set, the part of \<open>sst_good\<close> every split keeps.\<close>

definition sst_ids :: "u64 set \<Rightarrow> sstable_info \<Rightarrow> bool" where
  "sst_ids X s = (sorted (sst_table_ids s) \<and> sst_object_id s \<in> X)"

lemma split_one_parts:
  assumes "split_one key s i = Some ((l, r), j)" and "sst_ids X s"
  shows "\<forall>x \<in> set (opt_list l @ opt_list r). sst_ids X x"
  using assms split_sst_parts [of s i key "sst_size s div 2" "sst_size s div 2" l r j]
  by (auto simp: sst_ids_def split_one_def split: Option.bind_splits sst_split_type.splits)

lemma split_overlapping_parts:
  assumes "split_overlapping key ssts i = Some ((l, r), j)" and "\<forall>s \<in> set ssts. sst_ids X s"
  shows "\<forall>x \<in> set (l @ r). sst_ids X x"
  using assms
proof (induction ssts arbitrary: i l r)
  case (Cons s ssts)
  from Cons.prems(1) obtain l1 r1 k l2 r2 where o: "split_one key s i = Some ((l1, r1), k)"
    "split_overlapping key ssts k = Some ((l2, r2), j)" "l = opt_list l1 @ l2" "r = opt_list r1 @ r2"
    by (auto simp: opt_list_def split: Option.bind_splits option.splits)
  from split_one_parts [OF o(1)] Cons.IH [OF o(2)] Cons.prems(2) o(3,4) show ?case by auto
qed simp

lemma split_nonoverlapping_parts:
  assumes "split_nonoverlapping key ssts i = Some ((l, r), j)" and "\<forall>s \<in> set ssts. sst_ids X s"
  shows "\<forall>x \<in> set (l @ r). sst_ids X x"
proof -
  obtain pos where pos: "get_split_pos ssts key = Some pos"
    using assms(1) by (cases "get_split_pos ssts key") (auto simp: split_nonoverlapping_def)
  have whole: ?thesis if "set (l @ r) \<subseteq> set ssts" using that assms(2) by blast
  show ?thesis
  proof (cases "length ssts \<le> pos")
    case True
    then show ?thesis using assms(1) pos by (intro whole) (auto simp: split_nonoverlapping_def)
  next
    case False
    then obtain ty where ty: "need_to_split (ssts ! pos) key = Some ty"
      using assms(1) pos by (cases "need_to_split (ssts ! pos) key") (auto simp: split_nonoverlapping_def)
    show ?thesis
    proof (cases ty)
      case SplitLeft
      with False ty pos assms(1) have "l = take (pos + 1) ssts" "r = drop (pos + 1) ssts"
        by (auto simp: split_nonoverlapping_def)
      then show ?thesis using assms(2) by (intro whole) (simp flip: set_append)
    next
      case SplitRight
      with False ty pos assms(1) have "l = []" "r = drop pos ssts"
        by (auto simp: split_nonoverlapping_def split: if_splits)
      then show ?thesis by (intro whole) (simp add: set_drop_subset)
    next
      case SplitBoth
      let ?s = "ssts ! pos"
      obtain a b k where s: "split_sst ?s i key (sst_size ?s div 2) (sst_size ?s div 2) = Some ((a, b), k)"
        "l = take pos ssts @ opt_list a" "r = opt_list b @ drop (pos + 1) ssts"
        using SplitBoth False ty pos assms(1)
        by (cases "split_sst ?s i key (sst_size ?s div 2) (sst_size ?s div 2)")
          (auto simp: split_nonoverlapping_def Let_def opt_list_def)
      have "sst_ids X ?s" using False assms(2) by simp
      with split_sst_parts [OF s(1)] have "\<forall>x \<in> set (opt_list a @ opt_list b). sst_ids X x" by (auto simp: sst_ids_def)
      then show ?thesis using assms(2) unfolding s(2,3) by (auto dest: in_set_takeD in_set_dropD)
    qed
  qed
qed

lemma split_level_good:
  assumes "split_level_at key l i = Some (moved, l', j)" and "level_shape X l"
  shows "\<forall>s \<in> set (lvl_table_infos l' @ moved). sst_ids X s"
proof (cases key)
  case (Some k)
  have "\<forall>s \<in> set (lvl_table_infos l). sst_ids X s" using assms(2) by (simp add: level_shape_def sst_good_def sst_ids_def)
  then show ?thesis
    using assms(1) Some split_overlapping_parts [of k "lvl_table_infos l" i] split_nonoverlapping_parts [of k "lvl_table_infos l" i]
    by (cases "lvl_table_infos l = []"; cases "lvl_type l = Overlapping")
      (auto simp: split_level_at_def split_sst_info_for_level_v2_def split: Option.bind_splits)
qed (use assms in \<open>auto simp: split_level_at_def level_shape_def sst_good_def sst_ids_def\<close>)

lemma split_level_correct:
  assumes "level_shape X l" and "is_split_key key t"
  shows "\<exists>moved l' i'. split_level_at (Some key) l i = Some (moved, l', i')
    \<and> splits_at t (lvl_table_infos l) (lvl_table_infos l') moved
    \<and> l' = l\<lparr>lvl_table_infos := lvl_table_infos l'\<rparr>
    \<and> (lvl_type l = Overlapping \<or> level_ok (lvl_table_infos l') \<and> level_ok moved)
    \<and> (\<forall>s \<in> set (lvl_table_infos l' @ moved). sst_good X s)
    \<and> (lvl_table_infos l \<noteq> [] \<longrightarrow> (\<exists>c. count_sub_level key l = Some c \<and> i' = i + c))
    \<and> (lvl_type l = Nonoverlapping \<longrightarrow> (\<exists>c. count_base_level key l = Some c \<and> i' = i + c))"
proof -
  have "\<forall>s \<in> set (lvl_table_infos l). sst_ok s \<and> sorted (sst_table_ids s)"
    and ty: "lvl_type l = Overlapping \<or> level_ok (lvl_table_infos l)"
    using assms(1) by (auto simp: level_shape_def sst_good_def)
  from split_level_splits [OF this assms(2), of i] obtain moved l' i' where
    s: "split_sst_info_for_level_v2 l i key = Some (moved, l', i')"
    and rest: "splits_at t (lvl_table_infos l) (lvl_table_infos l') moved"
      "l' = l\<lparr>lvl_table_infos := lvl_table_infos l'\<rparr>"
      "lvl_type l = Overlapping \<or> level_ok (lvl_table_infos l') \<and> level_ok moved" by blast
  have c1: "\<exists>c. count_sub_level key l = Some c \<and> i' = i + c" if ne: "lvl_table_infos l \<noteq> []"
  proof (cases "lvl_type l = Overlapping")
    case True
    then show ?thesis using s ne split_overlapping_count [of key "lvl_table_infos l" i]
      by (auto simp: split_sst_info_for_level_v2_def count_sub_level_def split: Option.bind_splits)
  next
    case False
    then show ?thesis using s ne ty split_nonoverlapping_count [OF _ ne _ assms(2), of i]
      by (auto simp: split_sst_info_for_level_v2_def count_sub_level_def split: Option.bind_splits)
  qed
  have "\<exists>c. count_base_level key l = Some c \<and> i' = i + c" if "lvl_type l = Nonoverlapping"
    using that s c1 by (cases "lvl_table_infos l = []")
      (auto simp: count_base_level_def count_sub_level_def split_sst_info_for_level_v2_def)
  moreover have s': "split_level_at (Some key) l i = Some (moved, l', i')" using s by (simp add: split_level_at_def)
  moreover have "\<forall>s \<in> set (lvl_table_infos l' @ moved). sst_good X s"
    using split_level_good [OF s' assms(1)] rest(1) by (auto simp: sst_good_def sst_ids_def splits_at_def)
  ultimately show ?thesis using rest c1 by blast
qed

section \<open>Level 0\<close>

definition sub_ssts :: "level list \<Rightarrow> u64 \<Rightarrow> sstable_info list" where
  "sub_ssts subs i = concat (map lvl_table_infos (filter (\<lambda>l. lvl_sub_level_id l = i) subs))"

lemma sub_ssts_simps [simp]:
  "sub_ssts [] i = []"
  "sub_ssts (l # subs) i = (if lvl_sub_level_id l = i then lvl_table_infos l else []) @ sub_ssts subs i"
  "sub_ssts (subs @ subs') i = sub_ssts subs i @ sub_ssts subs' i"
  by (simp_all add: sub_ssts_def)

lemma sub_ssts_other: "i \<notin> lvl_sub_level_id ` set subs \<Longrightarrow> sub_ssts subs i = []"
  by (auto simp: sub_ssts_def filter_empty_conv)

lemma sub_ssts_distinct:
  assumes "distinct (map lvl_sub_level_id subs)" and "l \<in> set subs"
  shows "sub_ssts subs (lvl_sub_level_id l) = lvl_table_infos l"
  using assms by (induction subs) (auto simp: sub_ssts_other)

lemma sub_level_hint_after:
  assumes "\<forall>x \<in> set subs. lvl_sub_level_id x < i"
  shows "sub_level_hint_from n subs i = Inl (n + length subs)"
  using assms by (induction n subs i rule: sub_level_hint_from.induct) (auto simp: order_simps cmp_def)

lemma add_to_target_new:
  assumes "l0_inv target" and "\<forall>x \<in> set (l0_sub_levels target). lvl_sub_level_id x < lvl_sub_level_id s"
    and "lvl_sub_level_id s \<noteq> - 1" and "\<forall>x \<in> set moved. sst_ok x"
    and "lvl_type s = Overlapping \<or> level_ok moved"
  shows "\<exists>target'. add_to_target target s moved = Some target' \<and> l0_inv target'
    \<and> l0_sub_levels target' = l0_sub_levels target @ [new_sub_level (lvl_sub_level_id s) (lvl_type s) moved]"
proof -
  let ?n = "length (l0_sub_levels target)"
  have h: "get_sub_level_insert_hint (l0_sub_levels target) s = Inl ?n"
    using sub_level_hint_after [OF assms(2), of 0] by (simp add: get_sub_level_insert_hint_def)
  obtain t' where t': "insert_new_sub_level target (lvl_sub_level_id s) (lvl_type s) moved (Some ?n) = Some t'"
    "l0_sub_levels t' = l0_sub_levels target @ [new_sub_level (lvl_sub_level_id s) (lvl_type s) moved]"
    using assms(3) by (simp add: insert_new_sub_level_def vec_insert_def Let_def)
  have "l0_inv t'" by (rule insert_new_sub_level_inv [OF assms(1,4,5) t'(1)]) (use assms(2) in simp)
  with h t' show ?thesis by (simp add: add_to_target_def)
qed

text \<open>The part of a split that concerns one level: what is left and what is moved.\<close>

lemma level_shape_kept:
  assumes "\<forall>s \<in> set kept. sst_good X s" and "lvl_type l = Overlapping \<or> level_ok kept"
  shows "level_shape X (l\<lparr>lvl_table_infos := kept\<rparr>)"
    and "level_shape X (fst (drop_empty_ssts (l\<lparr>lvl_table_infos := kept\<rparr>)))"
  using assms by (auto simp: level_shape_def level_ok_filter)

lemma split_l0_v2_correct:
  assumes "subs_shape X subs" and "\<forall>s \<in> set subs. lvl_table_infos s \<noteq> [] \<and> lvl_sub_level_id s \<noteq> - 1"
    and "is_split_key key t" and "l0_inv target" and "no_empty_sub_level target"
    and "\<forall>x \<in> set (l0_sub_levels target). \<forall>s \<in> set subs. lvl_sub_level_id x < lvl_sub_level_id s"
  shows "\<exists>rest l0' target' j c. split_l0_v2 (Some key) subs l0 target i = Some (rest, l0', target', j)
    \<and> l0_inv target' \<and> no_empty_sub_level target'
    \<and> map lvl_sub_level_id rest = map lvl_sub_level_id subs \<and> (\<forall>l \<in> set rest. level_shape X l)
    \<and> list_all2 (\<lambda>s r. splits_at t (lvl_table_infos s) (lvl_table_infos r)
         (sub_ssts (l0_sub_levels target') (lvl_sub_level_id s))) subs rest
    \<and> (\<exists>new. l0_sub_levels target' = l0_sub_levels target @ new \<and> lvl_sub_level_id ` set new \<subseteq> lvl_sub_level_id ` set subs)
    \<and> sum_opt (map (count_sub_level key) subs) = Some c \<and> j = i + c"
  using assms(1,2,4-)
proof (induction subs arbitrary: l0 target i)
  case Nil
  then show ?case by simp
next
  case (Cons s subs)
  have s: "level_shape X s" "lvl_table_infos s \<noteq> []" "lvl_sub_level_id s \<noteq> - 1"
    and subs: "subs_shape X subs" "\<forall>s \<in> set subs. lvl_table_infos s \<noteq> [] \<and> lvl_sub_level_id s \<noteq> - 1"
    and after: "\<forall>x \<in> set subs. lvl_sub_level_id s < lvl_sub_level_id x"
    using Cons.prems(1,2) by (auto simp: subs_shape_def)
  from split_level_correct [OF s(1) assms(3), of i] s(2) obtain moved s' i' c1 where
    sp: "split_level_at (Some key) s i = Some (moved, s', i')"
      "splits_at t (lvl_table_infos s) (lvl_table_infos s') moved"
      "s' = s\<lparr>lvl_table_infos := lvl_table_infos s'\<rparr>"
      "lvl_type s = Overlapping \<or> level_ok (lvl_table_infos s') \<and> level_ok moved"
      "\<forall>s \<in> set (lvl_table_infos s' @ moved). sst_good X s"
    and c1: "count_sub_level key s = Some c1" "i' = i + c1" by blast
  have shape: "level_shape X s'" "level_shape X (fst (drop_empty_ssts s'))"
    using level_shape_kept [of "lvl_table_infos s'" X s] sp(3-5) by (metis Un_iff set_append)+
  have id': "lvl_sub_level_id s' = lvl_sub_level_id s" "lvl_type s' = lvl_type s" by (subst sp(3), simp)+
  have none: "sub_ssts (l0_sub_levels target) (lvl_sub_level_id s) = []"
    using Cons.prems(5) by (intro sub_ssts_other) auto
  show ?case
  proof (cases "moved = []")
    case True
    obtain rest l0' target' j c where IH: "split_l0_v2 (Some key) subs l0 target i' = Some (rest, l0', target', j)"
      "l0_inv target'" "no_empty_sub_level target'" "map lvl_sub_level_id rest = map lvl_sub_level_id subs"
      "\<forall>l \<in> set rest. level_shape X l"
      "list_all2 (\<lambda>s r. splits_at t (lvl_table_infos s) (lvl_table_infos r)
         (sub_ssts (l0_sub_levels target') (lvl_sub_level_id s))) subs rest"
      "sum_opt (map (count_sub_level key) subs) = Some c" "j = i' + c"
      and new: "\<exists>new. l0_sub_levels target' = l0_sub_levels target @ new \<and> lvl_sub_level_id ` set new \<subseteq> lvl_sub_level_id ` set subs"
      using Cons.IH [OF subs Cons.prems(3,4), of l0 i'] Cons.prems(5) by auto
    from new obtain new where n: "l0_sub_levels target' = l0_sub_levels target @ new"
      "lvl_sub_level_id ` set new \<subseteq> lvl_sub_level_id ` set subs" by blast
    have "sub_ssts new (lvl_sub_level_id s) = []" using n(2) after by (intro sub_ssts_other) force
    then have "sub_ssts (l0_sub_levels target') (lvl_sub_level_id s) = moved" using n(1) none True by simp
    with True sp IH c1 shape id' n show ?thesis by (auto simp: add.assoc)
  next
    case False
    let ?d = "drop_empty_ssts s'"
    have "\<forall>x \<in> set moved. sst_ok x" using sp(2) by (auto simp: splits_at_def)
    then obtain t1 where t1: "add_to_target target (fst ?d) moved = Some t1" "l0_inv t1"
      "l0_sub_levels t1 = l0_sub_levels target @ [new_sub_level (lvl_sub_level_id s) (lvl_type s) moved]"
      using add_to_target_new [OF Cons.prems(3), of "fst ?d" moved] Cons.prems(5) s(3) sp(4) id' by auto
    have ne: "no_empty_sub_level t1" using Cons.prems(4) False by (simp add: no_empty_sub_level_def t1(3) new_sub_level_def)
    have lt: "\<forall>x \<in> set (l0_sub_levels t1). \<forall>s \<in> set subs. lvl_sub_level_id x < lvl_sub_level_id s"
      using Cons.prems(5) after by (auto simp: t1(3) new_sub_level_def)
    obtain rest l0' target' j c where IH:
      "split_l0_v2 (Some key) subs (take_off l0 (fst (snd ?d)) (snd (snd ?d))) t1 i' = Some (rest, l0', target', j)"
      "l0_inv target'" "no_empty_sub_level target'" "map lvl_sub_level_id rest = map lvl_sub_level_id subs"
      "\<forall>l \<in> set rest. level_shape X l"
      "list_all2 (\<lambda>s r. splits_at t (lvl_table_infos s) (lvl_table_infos r)
         (sub_ssts (l0_sub_levels target') (lvl_sub_level_id s))) subs rest"
      "sum_opt (map (count_sub_level key) subs) = Some c" "j = i' + c"
      and new: "\<exists>new. l0_sub_levels target' = l0_sub_levels t1 @ new \<and> lvl_sub_level_id ` set new \<subseteq> lvl_sub_level_id ` set subs"
      using Cons.IH [OF subs t1(2) ne lt, of "take_off l0 (fst (snd ?d)) (snd (snd ?d))" i'] by auto
    from new obtain new where n: "l0_sub_levels target' = l0_sub_levels t1 @ new"
      "lvl_sub_level_id ` set new \<subseteq> lvl_sub_level_id ` set subs" by blast
    have "sub_ssts new (lvl_sub_level_id s) = []" using n(2) after by (intro sub_ssts_other) force
    then have m: "sub_ssts (l0_sub_levels target') (lvl_sub_level_id s) = moved"
      using n(1) none by (simp add: t1(3) new_sub_level_def)
    have step: "split_l0_v2 (Some key) (s # subs) l0 target i = Some (fst ?d # rest, l0', target', j)"
      using sp(1) False t1(1) IH(1) by (cases ?d) simp
    show ?thesis
      by (rule exI [of _ "fst ?d # rest"], rule exI [of _ l0'], rule exI [of _ target'], rule exI [of _ j],
          rule exI [of _ "c1 + c"], intro conjI step)
        (use IH shape id' c1 splits_at_nonempty [OF sp(2)] m n in \<open>auto simp: t1(3) add.assoc new_sub_level_fields\<close>)
  qed
qed

section \<open>The base levels\<close>

lemma splits_at_cong:
  assumes "splits_at t ssts kept moved" and "set moved' = set moved"
  shows "splits_at t ssts kept moved'"
  using assms by (simp add: splits_at_def ssts_have_def)

lemma level_ok_sort:
  assumes "level_ok ssts"
  shows "\<exists>out. sort_and_check ssts = Some out \<and> level_ok out \<and> mset out = mset ssts"
proof -
  have ok: "\<forall>s \<in> set ssts. sst_ok s" "sorted_wrt sst_before ssts" using assms by (auto simp: level_ok_iff)
  have "ssts_apart ssts" unfolding ssts_apart_def
    by (rule sorted_wrt_mono_rel [OF _ ok(2)]) blast
  then have "sort_and_check ssts = Some (sort_key kr_key ssts)" using sort_and_check_exact [OF ok(1)] by simp
  with sort_and_check_Some [OF ok(1) this] show ?thesis by blast
qed

lemma extend_base_empty:
  assumes "idx < length cur" and "lvl_table_infos (cur ! idx) = []" and "level_inv (cur ! idx)" and "level_ok moved"
  shows "\<exists>l. extend_base cur idx moved = Some (cur[idx := l]) \<and> level_inv l
    \<and> set (lvl_table_infos l) = set moved \<and> lvl_type l = lvl_type (cur ! idx) \<and> lvl_idx l = lvl_idx (cur ! idx)"
proof -
  obtain out where out: "sort_and_check moved = Some out" "level_ok out" "mset out = mset moved"
    using level_ok_sort [OF assms(4)] by blast
  then have "set out = set moved" by (metis set_mset_mset)
  moreover have "sst_sizes out = sst_sizes moved" "sst_uncompressed_sizes out = sst_uncompressed_sizes moved"
    using sizes_mset [OF out(3)] by simp_all
  ultimately show ?thesis using assms out
    by (auto simp: extend_base_def Let_def level_inv_def level_sizes_ok_def level_ok_iff)
qed

text \<open>What a split leaves of a base level and what the new group gets.\<close>

definition base_split :: "u64 set \<Rightarrow> table_id \<Rightarrow> level \<Rightarrow> level \<Rightarrow> level \<Rightarrow> level \<Rightarrow> bool" where
  "base_split X t l kept old new =
     (level_shape X kept \<and> lvl_type kept = lvl_type l \<and> lvl_idx kept = lvl_idx l
      \<and> level_inv new \<and> lvl_type new = lvl_type old \<and> lvl_idx new = lvl_idx old
      \<and> splits_at t (lvl_table_infos l) (lvl_table_infos kept) (lvl_table_infos new))"

lemma split_base_v2_correct:
  assumes "\<forall>l \<in> set ls. level_shape X l \<and> lvl_type l = Nonoverlapping" and "is_split_key key t"
    and "length ls \<le> length cur" and "\<forall>l \<in> set cur. lvl_table_infos l = [] \<and> level_inv l"
  shows "\<exists>rest cur' j c. split_base_v2 (Some key) (length done) ls (done @ cur) i = Some (rest, done @ cur', j)
    \<and> length cur' = length cur \<and> length rest = length ls
    \<and> (\<forall>n < length ls. base_split X t (ls ! n) (rest ! n) (cur ! n) (cur' ! n))
    \<and> (\<forall>n < length cur. length ls \<le> n \<longrightarrow> cur' ! n = cur ! n)
    \<and> sum_opt (map (count_base_level key) ls) = Some c \<and> j = i + c"
  using assms(1,3,4)
proof (induction ls arbitrary: "done" cur i)
  case (Cons l ls)
  obtain m ms where cur: "cur = m # ms" using Cons.prems(2) by (cases cur) auto
  have m: "lvl_table_infos m = []" "level_inv m" using Cons.prems(3) cur by auto
  have l: "level_shape X l" "lvl_type l = Nonoverlapping" using Cons.prems(1) by auto
  from split_level_correct [OF l(1) assms(2), of i] l(2) obtain moved l' i' c1 where
    sp: "split_level_at (Some key) l i = Some (moved, l', i')"
      "splits_at t (lvl_table_infos l) (lvl_table_infos l') moved"
      "l' = l\<lparr>lvl_table_infos := lvl_table_infos l'\<rparr>" "level_ok (lvl_table_infos l')" "level_ok moved"
      "\<forall>s \<in> set (lvl_table_infos l' @ moved). sst_good X s"
    and c1: "count_base_level key l = Some c1" "i' = i + c1" by auto
  have shape: "level_shape X l'" "level_shape X (fst (drop_empty_ssts l'))"
    using level_shape_kept [of "lvl_table_infos l'" X l] sp(3,4,6) by (metis Un_iff set_append)+
  have id': "lvl_idx l' = lvl_idx l" "lvl_type l' = lvl_type l" by (subst sp(3), simp)+
  obtain kept m' where step: "split_base_v2 (Some key) (length done) (l # ls) (done @ m # ms) i =
      do { (rest, cur, j) \<leftarrow> split_base_v2 (Some key) (length done + 1) ls (done @ m' # ms) i';
           Some (kept # rest, cur, j) }"
    and b: "base_split X t l kept m m'"
  proof (cases "moved = []")
    case True
    show thesis
      by (rule that [of m l'])
        (use True sp(1,2) shape id' m in \<open>simp_all add: base_split_def\<close>)
  next
    case False
    obtain x where x: "extend_base (done @ m # ms) (length done) moved = Some ((done @ m # ms)[length done := x])"
      "level_inv x" "set (lvl_table_infos x) = set moved" "lvl_type x = lvl_type m" "lvl_idx x = lvl_idx m"
      using extend_base_empty [of "length done" "done @ m # ms" moved, OF _ _ _ sp(5)] m by fastforce
    show thesis
      by (rule that [of x "fst (drop_empty_ssts l')"])
        (use False sp(1) x shape id' splits_at_cong [OF splits_at_nonempty [OF sp(2)] x(3)]
          in \<open>simp_all add: base_split_def\<close>)
  qed
  obtain rest cur' j c where IH: "split_base_v2 (Some key) (length (done @ [m'])) ls ((done @ [m']) @ ms) i' = Some (rest, (done @ [m']) @ cur', j)"
    "length cur' = length ms" "length rest = length ls"
    "\<forall>n < length ls. base_split X t (ls ! n) (rest ! n) (ms ! n) (cur' ! n)"
    "\<forall>n < length ms. length ls \<le> n \<longrightarrow> cur' ! n = ms ! n"
    "sum_opt (map (count_base_level key) ls) = Some c" "j = i' + c"
    using Cons.IH [of ms "done @ [m']" i'] Cons.prems cur by auto
  have "split_base_v2 (Some key) (length done) (l # ls) (done @ cur) i = Some (kept # rest, done @ (m' # cur'), j)"
    using IH(1) unfolding cur step by simp
  moreover have "base_split X t ((l # ls) ! n) ((kept # rest) ! n) (cur ! n) ((m' # cur') ! n)" if "n < length (l # ls)" for n
    using that b IH(4) cur by (cases n) auto
  moreover have "(m' # cur') ! n = cur ! n" if "n < length cur" "length (l # ls) \<le> n" for n
    using that IH(5) cur by (cases n) auto
  ultimately show ?case using IH c1 cur
    by (intro exI [of _ "kept # rest"] exI [of _ "m' # cur'"] exI [of _ j] exI [of _ "c1 + c"]) (auto simp: add.assoc)
qed simp

section \<open>The whole group\<close>

definition splittable :: "u64 set \<Rightarrow> levels \<Rightarrow> bool" where
  "splittable X ls = (levels_shape X ls \<and> no_empty_sub_level (lvs_l0 ls) \<and> (\<forall>l \<in> set (l0_sub_levels (lvs_l0 ls)). lvl_sub_level_id l \<noteq> - 1))"

definition group_split_at :: "table_id \<Rightarrow> levels \<Rightarrow> levels \<Rightarrow> levels \<Rightarrow> bool" where
  "group_split_at t parent parent' cur' =
     ((\<forall>i. splits_at t (sub_ssts (l0_sub_levels (lvs_l0 parent)) i)
         (sub_ssts (l0_sub_levels (lvs_l0 parent')) i) (sub_ssts (l0_sub_levels (lvs_l0 cur')) i))
      \<and> length (lvs_levels parent') = length (lvs_levels parent)
      \<and> (\<forall>n < length (lvs_levels parent). splits_at t (lvl_table_infos (lvs_levels parent ! n))
         (lvl_table_infos (lvs_levels parent' ! n)) (lvl_table_infos (lvs_levels cur' ! n)))
      \<and> (\<forall>n < length (lvs_levels cur'). length (lvs_levels parent) \<le> n \<longrightarrow> lvl_table_infos (lvs_levels cur' ! n) = []))"

lemma sub_ssts_retain: "sub_ssts (filter (\<lambda>l. lvl_table_infos l \<noteq> []) subs) = sub_ssts subs"
proof
  show "sub_ssts (filter (\<lambda>l. lvl_table_infos l \<noteq> []) subs) i = sub_ssts subs i" for i
    by (induction subs) auto
qed

lemma splits_at_Nil: "splits_at t [] [] []"
  by (simp add: splits_at_def ssts_have_def)

lemma splits_sub_ssts:
  assumes "list_all2 (\<lambda>s r. splits_at t (lvl_table_infos s) (lvl_table_infos r) (M (lvl_sub_level_id s))) subs rest"
    and "map lvl_sub_level_id rest = map lvl_sub_level_id subs" and "distinct (map lvl_sub_level_id subs)"
    and "i \<in> lvl_sub_level_id ` set subs"
  shows "splits_at t (sub_ssts subs i) (sub_ssts rest i) (M i)"
  using assms
proof (induction subs rest rule: list_all2_induct)
  case (Cons s subs r rest)
  have ids: "map lvl_sub_level_id rest = map lvl_sub_level_id subs" "lvl_sub_level_id r = lvl_sub_level_id s"
    "lvl_sub_level_id s \<notin> lvl_sub_level_id ` set subs" "distinct (map lvl_sub_level_id subs)"
    using Cons.prems(1,2) by simp_all
  have rest: "lvl_sub_level_id ` set rest = lvl_sub_level_id ` set subs" using ids(1) by (metis list.set_map)
  show ?case
  proof (cases "lvl_sub_level_id s = i")
    case True
    then show ?thesis using Cons.hyps(1) ids(2,3) rest by (simp add: sub_ssts_other)
  next
    case False
    with Cons.prems(3) have "i \<in> lvl_sub_level_id ` set subs" by simp
    from Cons.IH [OF ids(1,4) this] False ids(2) show ?thesis by simp
  qed
qed simp

lemma split_levels_at_correct:
  assumes "splittable X parent" and "is_split_key key t" and "length (lvs_levels parent) \<le> n"
  shows "\<exists>parent' cur' j c. split_levels_at (Some key) parent (build_initial_compaction_group_levels g n) i
      = Some (parent', cur', j)
    \<and> levels_shape X parent' \<and> levels_inv cur' \<and> group_split_at t parent parent' cur'
    \<and> count_new_ssts parent key = Some c \<and> j = i + c
    \<and> no_empty_sub_level (lvs_l0 parent') \<and> no_empty_sub_level (lvs_l0 cur')"
proof -
  let ?cur = "build_initial_compaction_group_levels g n" and ?subs = "l0_sub_levels (lvs_l0 parent)"
  have p: "subs_shape X ?subs" "base_shape X (lvs_levels parent)"
    "\<forall>s \<in> set ?subs. lvl_table_infos s \<noteq> [] \<and> lvl_sub_level_id s \<noteq> - 1"
    using assms(1) by (auto simp: splittable_def levels_shape_def no_empty_sub_level_def list_all_iff)
  have c0: "l0_sub_levels (lvs_l0 ?cur) = []" "l0_inv (lvs_l0 ?cur)" "length (lvs_levels ?cur) = n"
    "\<forall>l \<in> set (lvs_levels ?cur). lvl_table_infos l = [] \<and> level_inv l"
    by (auto simp: build_initial_compaction_group_levels_def l0_inv_def subs_inv_def level_inv_def level_sizes_ok_def level_ok_def)
  obtain rest l0' target i1 a where A:
    "split_l0_v2 (Some key) ?subs (lvs_l0 parent) (lvs_l0 ?cur) i = Some (rest, l0', target, i1)"
    "l0_inv target" "no_empty_sub_level target" "map lvl_sub_level_id rest = map lvl_sub_level_id ?subs"
    "\<forall>l \<in> set rest. level_shape X l"
    "list_all2 (\<lambda>s r. splits_at t (lvl_table_infos s) (lvl_table_infos r)
         (sub_ssts (l0_sub_levels target) (lvl_sub_level_id s))) ?subs rest"
    "\<exists>new. l0_sub_levels target = l0_sub_levels (lvs_l0 ?cur) @ new \<and> lvl_sub_level_id ` set new \<subseteq> lvl_sub_level_id ` set ?subs"
    "sum_opt (map (count_sub_level key) ?subs) = Some a" "i1 = i + a"
    using split_l0_v2_correct [OF p(1,3) assms(2) c0(2), of "lvs_l0 parent" i] c0(1)
    by (auto simp: no_empty_sub_level_def)
  have bl: "\<forall>l \<in> set (lvs_levels parent). level_shape X l \<and> lvl_type l = Nonoverlapping"
    using p(2) by (auto simp: base_shape_def in_set_conv_nth)
  obtain base cur' j b where B:
    "split_base_v2 (Some key) 0 (lvs_levels parent) (lvs_levels ?cur) i1 = Some (base, cur', j)"
    "length cur' = n" "length base = length (lvs_levels parent)"
    "\<forall>n < length (lvs_levels parent). base_split X t (lvs_levels parent ! n) (base ! n) (lvs_levels ?cur ! n) (cur' ! n)"
    "\<forall>m < n. length (lvs_levels parent) \<le> m \<longrightarrow> cur' ! m = lvs_levels ?cur ! m"
    "sum_opt (map (count_base_level key) (lvs_levels parent)) = Some b" "j = i1 + b"
    using split_base_v2_correct [OF bl assms(2), of "lvs_levels ?cur" "[]" i1] assms(3) c0(3,4) by auto
  define kept where "kept = filter (\<lambda>l. lvl_table_infos l \<noteq> []) rest"
  define parent' where "parent' = parent\<lparr>lvs_l0 := retain_sub_levels (l0'\<lparr>l0_sub_levels := rest\<rparr>), lvs_levels := base\<rparr>"
  define out where "out = ?cur\<lparr>lvs_l0 := target, lvs_levels := cur'\<rparr>"
  have subs': "l0_sub_levels (lvs_l0 parent') = kept" by (simp add: parent'_def retain_sub_levels_def kept_def)
  have ne: "no_empty_sub_level (retain_sub_levels (l0'\<lparr>l0_sub_levels := rest\<rparr>))"
    by (simp add: no_empty_sub_level_def retain_sub_levels_def list_all_iff)
  have run: "split_levels_at (Some key) parent ?cur i = Some (parent', out, j)"
    using A(1,3) B(1) ne by (simp add: split_levels_at_def Let_def parent'_def out_def)
  have dist: "distinct (map lvl_sub_level_id ?subs)" using p(1) by (simp add: subs_shape_def strict_sorted_iff)
  have "sorted_wrt (<) (map lvl_sub_level_id rest)" using A(4) p(1) by (simp add: subs_shape_def)
  then have "subs_shape X kept" using A(5) by (auto simp: subs_shape_def kept_def sorted_wrt_map intro: sorted_wrt_filter)
  moreover have "base_shape X base" using B(3,4) p(2) by (simp add: base_shape_def base_split_def)
  ultimately have shape: "levels_shape X parent'" using subs' by (simp add: levels_shape_def parent'_def)
  have "base_inv out"
  proof (unfold base_inv_def, intro allI impI)
    fix m assume m: "m < length (lvs_levels out)"
    then have "level_inv (cur' ! m) \<and> lvl_type (cur' ! m) = lvl_type (lvs_levels ?cur ! m) \<and> lvl_idx (cur' ! m) = lvl_idx (lvs_levels ?cur ! m)"
      using B(2,4,5) c0(3,4) by (cases "m < length (lvs_levels parent)") (auto simp: base_split_def out_def)
    then show "level_inv (lvs_levels out ! m) \<and> lvl_type (lvs_levels out ! m) = Nonoverlapping \<and> lvl_idx (lvs_levels out ! m) = word_of_nat (m + 1)"
      using m B(2) by (simp add: out_def build_initial_compaction_group_levels_def)
  qed
  then have inv: "levels_inv out" using A(2) by (simp add: levels_inv_def out_def)
  have "splits_at t (sub_ssts ?subs x) (sub_ssts rest x) (sub_ssts (l0_sub_levels target) x)" for x
  proof (cases "x \<in> lvl_sub_level_id ` set ?subs")
    case True
    then show ?thesis by (rule splits_sub_ssts [OF A(6,4) dist])
  next
    case False
    then have "x \<notin> lvl_sub_level_id ` set rest" using A(4) by (metis list.set_map)
    moreover have "x \<notin> lvl_sub_level_id ` set (l0_sub_levels target)" using A(7) c0(1) False by auto
    ultimately show ?thesis using False by (simp add: sub_ssts_other splits_at_Nil)
  qed
  then have "group_split_at t parent parent' out"
    using B(2-5) c0(3,4) unfolding group_split_at_def subs' kept_def sub_ssts_retain
    by (simp add: out_def parent'_def base_split_def)
  moreover have "count_new_ssts parent key = Some (a + b)" using A(8) B(6) by (simp add: count_new_ssts_def)
  moreover have "j = i + (a + b)" using A(9) B(7) by simp
  moreover have "no_empty_sub_level (lvs_l0 parent')" "no_empty_sub_level (lvs_l0 out)"
    using ne A(3) by (simp_all add: parent'_def out_def)
  ultimately show ?thesis using run shape inv by blast
qed

section \<open>Every operation keeps the shape of a group\<close>

lemma subs_shape_snoc:
  assumes "subs_shape X subs" and "level_shape X l" and "subs = [] \<or> lvl_sub_level_id (last subs) < lvl_sub_level_id l"
  shows "subs_shape X (subs @ [l])"
proof -
  have "lvl_sub_level_id x < lvl_sub_level_id l" if "x \<in> set subs" for x
    using strict_sorted_le_last [of "map lvl_sub_level_id subs" "lvl_sub_level_id x"] assms(1,3) that
    by (cases "subs = []") (auto simp: subs_shape_def last_map)
  with assms(1,2) show ?thesis by (auto simp: subs_shape_def sorted_wrt_append)
qed

lemma insert_new_sub_level_shape:
  assumes "subs_shape X (l0_sub_levels l0)" and "\<forall>s \<in> set ssts. sst_good X s" and "ty = Overlapping \<or> level_ok ssts"
    and "insert_new_sub_level l0 i ty ssts None = Some l0'"
  shows "subs_shape X (l0_sub_levels l0')"
  using assms(4)
proof (cases rule: insert_new_sub_level_cases)
  case (2 pos)
  then have "l0_sub_levels l0' = l0_sub_levels l0 @ [new_sub_level i ty ssts]" by simp
  moreover have "level_shape X (new_sub_level i ty ssts)" using assms(2,3) by (simp add: level_shape_def)
  ultimately show ?thesis using 2(4) by (simp add: subs_shape_snoc [OF assms(1)])
qed (use assms(1) in simp)

lemma level_insert_ssts_shape:
  assumes "level_shape X l" and "\<forall>s \<in> set ssts. sst_good X s" and "level_insert_ssts l ssts = Some l'"
  shows "level_shape X l' \<and> lvl_sub_level_id l' = lvl_sub_level_id l \<and> lvl_idx l' = lvl_idx l
    \<and> lvl_type l' = (if lvl_type l = Overlapping then Nonoverlapping else lvl_type l)"
proof -
  obtain infos where infos: "sort_and_check (lvl_table_infos l @ ssts) = Some infos"
    and l': "lvl_table_infos l' = infos" "lvl_sub_level_id l' = lvl_sub_level_id l" "lvl_idx l' = lvl_idx l"
      "lvl_type l' = (if lvl_type l = Overlapping then Nonoverlapping else lvl_type l)"
    using assms(3) by (auto simp: level_insert_ssts_def split: Option.bind_splits)
  have good: "\<forall>s \<in> set (lvl_table_infos l @ ssts). sst_good X s" using assms(1,2) by (auto simp: level_shape_def)
  then have "\<forall>s \<in> set (lvl_table_infos l @ ssts). sst_ok s" by (simp add: sst_good_def)
  note s = sort_and_check_Some [OF this infos]
  from mset_eq_setD [OF s(1)] s(2) good show ?thesis using l' by (simp add: level_shape_def)
qed

lemma subs_shape_update:
  assumes "subs_shape X subs" and "i < length subs" and "level_shape X l" and "lvl_sub_level_id l = lvl_sub_level_id (subs ! i)"
  shows "subs_shape X (subs[i := l])"
proof -
  have "map lvl_sub_level_id (subs[i := l]) = map lvl_sub_level_id subs"
    using assms(2,4) by (simp add: map_update list_update_same_conv)
  with assms(1,3) set_update_subset_insert [of subs i l] show ?thesis by (auto simp: subs_shape_def)
qed

lemma base_shape_update:
  assumes "base_shape X ls" and "level_shape X l" and "lvl_type l = Nonoverlapping" and "lvl_idx l = lvl_idx (ls ! i)"
  shows "base_shape X (ls[i := l])"
  using assms by (cases "i < length ls") (auto simp: base_shape_def nth_list_update)

lemma level_delete_ssts_shape: "level_shape X l \<Longrightarrow> level_shape X (level_delete_ssts l ids)"
  by (auto simp: level_shape_def level_ok_filter)

lemma compact_delete_shape:
  assumes "levels_shape X ls" and "compact_delete ls idx ids = Some ls'"
  shows "levels_shape X ls'"
proof -
  consider "ids = []" "ls' = ls" | "ids \<noteq> []" "idx = 0" "ls' = ls\<lparr>lvs_l0 := (lvs_l0 ls)\<lparr>l0_sub_levels :=
               map (\<lambda>l. level_delete_ssts l ids) (l0_sub_levels (lvs_l0 ls))\<rparr>\<rparr>"
    | l where "ids \<noteq> []" "idx \<noteq> 0" "get_level ls (unat idx) = Some l" "ls' = set_level ls (unat idx) (level_delete_ssts l ids)"
    using assms(2) by (auto simp: compact_delete_def split: if_splits Option.bind_splits)
  then show ?thesis
  proof cases
    case 2
    then show ?thesis using assms(1) level_delete_ssts_shape by (auto simp: levels_shape_def subs_shape_def comp_def)
  next
    case (3 l)
    note g = get_level_Some [OF 3(3)]
    then have "base_shape X ((lvs_levels ls)[unat idx - 1 := level_delete_ssts l ids])"
      using assms(1) by (intro base_shape_update) (auto simp: levels_shape_def base_shape_def level_delete_ssts_shape)
    then show ?thesis using assms(1) 3(4) by (simp add: levels_shape_def set_level_def)
  qed (use assms(1) in simp)
qed

lemma level_shape_partition_count [simp]: "level_shape X (l\<lparr>lvl_vnode_partition_count := c\<rparr>) = level_shape X l"
  by (simp add: level_shape_def)

lemma compact_insert_shape:
  assumes "levels_shape X ls" and "\<forall>s \<in> set (ild_inserted_table_infos d). sst_good X s" and "compact_insert ls d ids = Some ls'"
  shows "levels_shape X ls'"
  using assms(3)
proof (cases rule: compact_insert_cases)
  case (2 i l c l')
  have "level_shape X (l\<lparr>lvl_vnode_partition_count := c\<rparr>)" using assms(1) 2(3,4) by (auto simp: levels_shape_def subs_shape_def)
  note ins = level_insert_ssts_shape [OF this assms(2) 2(6)]
  then have "subs_shape X ((l0_sub_levels (lvs_l0 ls))[i := l'])"
    using assms(1) 2(3,4) by (intro subs_shape_update) (simp_all add: levels_shape_def)
  then show ?thesis using assms(1) by (simp add: levels_shape_def 2(7) set_sub_level_def)
next
  case (3 l c l')
  note g = get_level_Some [OF 3(3)]
  have b: "level_shape X l" "lvl_type l = Nonoverlapping" using assms(1) g by (auto simp: levels_shape_def base_shape_def)
  then have "level_shape X (l\<lparr>lvl_vnode_partition_count := c\<rparr>)" by simp
  note ins = level_insert_ssts_shape [OF this assms(2) 3(4)]
  then have "base_shape X ((lvs_levels ls)[unat (ild_level_idx d) - 1 := l'])"
    using assms(1) b g(3) by (intro base_shape_update) (simp_all add: levels_shape_def)
  then show ?thesis using assms(1) by (simp add: levels_shape_def 3(5) set_level_def)
qed (use assms(1) in simp)

lemma apply_compact_ssts_shape:
  assumes "levels_shape X ls" and "\<forall>s \<in> set (ild_inserted_table_infos d). sst_good X s" and "apply_compact_ssts ls d ids = Some ls'"
  shows "levels_shape X ls'"
  using assms(3) compact_insert_shape [OF compact_delete_shape [OF assms(1)] assms(2)] assms(1)
  by (auto simp: apply_compact_ssts_def split: Option.bind_splits if_splits)

lemma post_apply_shape: "levels_shape X ls \<Longrightarrow> levels_shape X (post_apply_l0_compact ls)"
  by (auto simp: levels_shape_def subs_shape_def post_apply_l0_compact_def Let_def sorted_wrt_map
      intro: sorted_wrt_filter)

lemma merge_sub_levels_shape:
  assumes "merge_sub_levels rw n l0 ss = Some l0'" and "subs_shape X (l0_sub_levels l0)" and "\<forall>s \<in> set ss. level_shape X s"
  shows "subs_shape X (l0_sub_levels l0')"
  using assms
proof (induction ss arbitrary: n l0)
  case (Cons s ss)
  obtain l1 where l1: "insert_new_sub_level l0 (if rw then n else lvl_sub_level_id s) (lvl_type s) (lvl_table_infos s) None = Some l1"
    "merge_sub_levels rw (if rw then n + 1 else n) l1 ss = Some l0'"
    using Cons.prems(1) by (auto simp: Let_def split: Option.bind_splits)
  have "subs_shape X (l0_sub_levels l1)"
    by (rule insert_new_sub_level_shape [OF Cons.prems(2) _ _ l1(1)]) (use Cons.prems(3) in \<open>auto simp: level_shape_def\<close>)
  from Cons.IH [OF l1(2) this] Cons.prems(3) show ?case by simp
qed simp

lemma extend_base_shape:
  assumes "extend_base cur idx ssts = Some cur'" and "base_shape X cur" and "\<forall>s \<in> set ssts. sst_good X s"
  shows "base_shape X cur'"
proof -
  obtain infos where infos: "idx < length cur" "sort_and_check (lvl_table_infos (cur ! idx) @ ssts) = Some infos"
    "cur' = cur[idx := (cur ! idx)\<lparr>lvl_total_file_size := lvl_total_file_size (cur ! idx) + sst_sizes ssts,
       lvl_uncompressed_file_size := lvl_uncompressed_file_size (cur ! idx) + sst_uncompressed_sizes ssts,
       lvl_table_infos := infos\<rparr>]"
    using assms(1) by (auto simp: extend_base_def Let_def split: if_splits Option.bind_splits)
  have good: "\<forall>s \<in> set (lvl_table_infos (cur ! idx) @ ssts). sst_good X s"
    using assms(2,3) infos(1) by (auto simp: base_shape_def level_shape_def)
  then have "\<forall>s \<in> set (lvl_table_infos (cur ! idx) @ ssts). sst_ok s" by (simp add: sst_good_def)
  note s = sort_and_check_Some [OF this infos(2)]
  from mset_eq_setD [OF s(1)] s(2) good show ?thesis
    unfolding infos(3) using assms(2) infos(1)
    by (intro base_shape_update [OF assms(2)]) (simp_all add: level_shape_def base_shape_def)
qed

lemma merge_base_levels_shape:
  assumes "merge_base_levels idx ls rs = Some out" and "base_shape X ls" and "\<forall>r \<in> set rs. level_shape X r"
  shows "base_shape X out"
  using assms
proof (induction rs arbitrary: idx ls)
  case (Cons r rs)
  show ?case
  proof (cases "lvl_table_infos r = []")
    case False
    then obtain ls' where ls': "extend_base ls idx (lvl_table_infos r) = Some ls'" "merge_base_levels (idx + 1) ls' rs = Some out"
      using Cons.prems(1) by (auto simp: extend_base_def Let_def split: if_splits Option.bind_splits)
    have "base_shape X ls'" by (rule extend_base_shape [OF ls'(1) Cons.prems(2)]) (use Cons.prems(3) in \<open>auto simp: level_shape_def\<close>)
    from Cons.IH [OF ls'(2) this] Cons.prems(3) show ?thesis by simp
  qed (use Cons in simp)
qed simp

lemma merge_levels_shape:
  assumes "merge_levels left right = Some out" and "levels_shape X left" and "levels_shape X right"
  shows "levels_shape X out"
proof -
  define next_id where "next_id = fold max (map (\<lambda>s. lvl_sub_level_id s + 1) (l0_sub_levels (lvs_l0 left))) 0"
  obtain l0 base where l0: "merge_sub_levels (next_id \<noteq> 0) next_id (lvs_l0 left) (l0_sub_levels (lvs_l0 right)) = Some l0"
    and base: "merge_base_levels 0 (lvs_levels left) (lvs_levels right) = Some base"
    and out: "out = left\<lparr>lvs_l0 := l0\<lparr>l0_sub_levels := map (lvl_vnode_partition_count_update (\<lambda>_. 0))
        (l0_sub_levels l0)\<rparr>, lvs_levels := base\<rparr>"
    using assms(1) unfolding merge_levels_def Let_def next_id_def [symmetric]
    by (auto split: Option.bind_splits if_splits)
  have "subs_shape X (l0_sub_levels l0)"
    by (rule merge_sub_levels_shape [OF l0]) (use assms(2,3) in \<open>simp_all add: levels_shape_def subs_shape_def\<close>)
  moreover have "base_shape X base"
    by (rule merge_base_levels_shape [OF base])
      (use assms(2,3) in \<open>auto simp: levels_shape_def base_shape_def in_set_conv_nth\<close>)
  ultimately show ?thesis by (auto simp: out levels_shape_def subs_shape_def comp_def)
qed

text \<open>Splitting keeps the shape of both groups, by member tables and at a key.\<close>

lemma add_to_target_shape:
  assumes "subs_shape X (l0_sub_levels target)" and "\<forall>x \<in> set (l0_sub_levels target). lvl_sub_level_id x < lvl_sub_level_id s"
    and "\<forall>x \<in> set moved. sst_good X x" and "lvl_type s = Overlapping \<or> level_ok moved"
    and "add_to_target target s moved = Some target'"
  shows "subs_shape X (l0_sub_levels target') \<and> (\<forall>x \<in> set (l0_sub_levels target'). lvl_sub_level_id x \<le> lvl_sub_level_id s)"
proof -
  let ?n = "length (l0_sub_levels target)"
  have h: "get_sub_level_insert_hint (l0_sub_levels target) s = Inl ?n"
    using sub_level_hint_after [OF assms(2), of 0] by (simp add: get_sub_level_insert_hint_def)
  have i: "insert_new_sub_level target (lvl_sub_level_id s) (lvl_type s) moved (Some ?n) = Some target'"
    using assms(5) h by (simp add: add_to_target_def)
  from i show ?thesis
  proof (cases rule: insert_new_sub_level_cases)
    case (2 pos)
    have sub: "l0_sub_levels target' = l0_sub_levels target @ [new_sub_level (lvl_sub_level_id s) (lvl_type s) moved]"
      using 2(3) [of ?n] 2(5) by simp
    have "level_shape X (new_sub_level (lvl_sub_level_id s) (lvl_type s) moved)" using assms(3,4) by (simp add: level_shape_def)
    moreover have "l0_sub_levels target = [] \<or> lvl_sub_level_id (last (l0_sub_levels target)) < lvl_sub_level_id s"
      using assms(2) by (metis last_in_set)
    ultimately show ?thesis using assms(1,2) unfolding sub
      by (intro conjI subs_shape_snoc) (auto simp: less_imp_le)
  qed (use assms(1,2) in \<open>auto simp: less_imp_le\<close>)
qed

text \<open>What splitting one level leaves and moves, as far as the shape is concerned.\<close>

definition split_shape :: "u64 set \<Rightarrow> level \<Rightarrow> level \<Rightarrow> sstable_info list \<Rightarrow> bool" where
  "split_shape X l l' moved =
     (level_shape X l' \<and> lvl_sub_level_id l' = lvl_sub_level_id l \<and> lvl_type l' = lvl_type l \<and> lvl_idx l' = lvl_idx l
      \<and> (\<forall>s \<in> set moved. sst_good X s) \<and> (lvl_type l = Overlapping \<or> level_ok moved))"

lemma split_shape_drop: "split_shape X l l' moved \<Longrightarrow> split_shape X l (fst (drop_empty_ssts l')) moved"
  by (auto simp: split_shape_def level_shape_def level_ok_filter)

lemma split_level_at_shape:
  assumes "split_level_at key l i = Some (moved, l', j)" and "level_shape X l"
    and "\<forall>k. key = Some k \<longrightarrow> (\<exists>t. is_split_key k t)"
  shows "split_shape X l l' moved"
proof (cases key)
  case (Some k)
  then obtain t where "is_split_key k t" using assms(3) by blast
  from split_level_correct [OF assms(2) this, of i] assms(1) Some
  have l': "l' = l\<lparr>lvl_table_infos := lvl_table_infos l'\<rparr>"
    and ok: "lvl_type l = Overlapping \<or> level_ok (lvl_table_infos l') \<and> level_ok moved"
    and good: "\<forall>s \<in> set (lvl_table_infos l' @ moved). sst_good X s" by auto
  have "lvl_sub_level_id l' = lvl_sub_level_id l" "lvl_type l' = lvl_type l" "lvl_idx l' = lvl_idx l"
    by (subst l', simp)+
  with ok good show ?thesis by (auto simp: split_shape_def level_shape_def)
qed (use assms in \<open>auto simp: split_level_at_def split_shape_def level_ok_def\<close>)

lemma split_ssts_by_members_shape:
  assumes "split_ssts_by_members members ssts i = ((kept, moved), j)" and "\<forall>s \<in> set ssts. sst_good X s"
  shows "(\<forall>s \<in> set (kept @ moved). sst_good X s)
    \<and> (\<forall>x \<in> set (kept @ moved). \<exists>s \<in> set ssts. sst_key_range x = sst_key_range s)
    \<and> (sorted_wrt sst_before ssts \<longrightarrow> sorted_wrt sst_before kept \<and> sorted_wrt sst_before moved)"
  using assms
proof (induction ssts arbitrary: i kept moved j)
  case (Cons s ssts)
  obtain kept1 moved1 k where IH: "split_ssts_by_members members ssts (if filter (\<lambda>t. t \<in> set members) (sst_table_ids s) \<noteq> [] then i + 2 else i)
      = ((kept1, moved1), k)" by (metis prod.collapse)
  note I = Cons.IH [OF IH]
  let ?o = "s\<lparr>sst_id := i + 1, sst_size := sst_size s div 2, sst_table_ids :=
      filter (\<lambda>t. t \<notin> set (sorted_list_of_set (set (sst_table_ids s) \<inter> set members))) (sst_table_ids s)\<rparr>"
  let ?b = "s\<lparr>sst_id := i, sst_size := sst_size s div 2, sst_table_ids := sorted_list_of_set (set (sst_table_ids s) \<inter> set members)\<rparr>"
  have "sst_good X s" "\<forall>x \<in> set ssts. sst_good X x" using Cons.prems(2) by auto
  then have good: "sst_good X ?o" "sst_good X ?b" "sst_good X s" by (auto simp: sst_good_def sst_ok_def Let_def sorted_wrt_filter)
  obtain x ys where out: "kept = x # kept1" "moved = ys @ moved1" "length ys \<le> 1"
    "\<forall>z \<in> set (x # ys). sst_good X z \<and> sst_key_range z = sst_key_range s"
  proof (cases "filter (\<lambda>t. t \<in> set members) (sst_table_ids s) \<noteq> []")
    case True
    then show thesis using Cons.prems(1) IH good by (intro that [of ?o "[?b]"]) (simp_all add: split_sst_with_table_ids_def Let_def)
  next
    case False
    then show thesis using Cons.prems(1) IH good by (intro that [of s "[]"]) (simp_all add: Let_def)
  qed
  have I2: "(\<forall>s \<in> set (kept1 @ moved1). sst_good X s)
    \<and> (\<forall>x \<in> set (kept1 @ moved1). \<exists>s \<in> set ssts. sst_key_range x = sst_key_range s)
    \<and> (sorted_wrt sst_before ssts \<longrightarrow> sorted_wrt sst_before kept1 \<and> sorted_wrt sst_before moved1)"
    using I Cons.prems(2) by simp
  have before: "sst_before x y" if srt: "sorted_wrt sst_before (s # ssts)" and y: "y \<in> set (kept1 @ moved1)" and x: "sst_key_range x = sst_key_range s" for x y
  proof -
    obtain z where "z \<in> set ssts" "sst_key_range y = sst_key_range z" using I2 y by blast
    with srt x show ?thesis by auto
  qed
  have single: "sorted_wrt sst_before ys" using out(3) by (cases ys) auto
  have b1: "\<forall>z \<in> set (x # ys). \<forall>y \<in> set (kept1 @ moved1). sst_before z y" if "sorted_wrt sst_before (s # ssts)"
    using before [OF that] out(4) by blast
  show ?case unfolding out(1,2)
  proof (intro conjI impI)
    show "\<forall>a \<in> set ((x # kept1) @ ys @ moved1). sst_good X a" using out(4) I2 by auto
    show "\<forall>a \<in> set ((x # kept1) @ ys @ moved1). \<exists>c \<in> set (s # ssts). sst_key_range a = sst_key_range c"
      using out(4) I2 by auto
    assume srt: "sorted_wrt sst_before (s # ssts)"
    then have "sorted_wrt sst_before kept1" "sorted_wrt sst_before moved1" using I2 by simp_all
    then show "sorted_wrt sst_before (x # kept1)" "sorted_wrt sst_before (ys @ moved1)"
      using b1 [OF srt] single by (simp_all add: sorted_wrt_append)
  qed
qed simp

lemma split_sst_info_for_level_shape:
  assumes "split_sst_info_for_level members l i = (moved, l', j)" and "level_shape X l"
  shows "split_shape X l l' moved"
proof -
  obtain kept where s: "split_ssts_by_members members (lvl_table_infos l) i = ((kept, moved), j)"
    and l': "l' = l\<lparr>lvl_table_infos := kept\<rparr>"
    using assms(1) by (auto simp: split_sst_info_for_level_def Let_def split: prod.splits)
  have "\<forall>s \<in> set (lvl_table_infos l). sst_good X s" using assms(2) by (simp add: level_shape_def)
  from split_ssts_by_members_shape [OF s this] assms(2) show ?thesis
    by (auto simp: split_shape_def level_shape_def l' level_ok_iff sst_good_def)
qed

text \<open>One step of the loops over the sub-levels: the tables moved go to the new group.\<close>

lemma target_step_shape:
  assumes "subs_shape X (s # subs)" and "subs_shape X (l0_sub_levels target)"
    and "\<forall>x \<in> set (l0_sub_levels target). \<forall>y \<in> set (s # subs). lvl_sub_level_id x < lvl_sub_level_id y"
    and "split_shape X s s' moved"
    and "(if moved = [] then Some target else add_to_target target s' moved) = Some target'"
  shows "subs_shape X (l0_sub_levels target')
    \<and> (\<forall>x \<in> set (l0_sub_levels target'). \<forall>y \<in> set subs. lvl_sub_level_id x < lvl_sub_level_id y)"
proof (cases "moved = []")
  case False
  have after: "\<forall>y \<in> set subs. lvl_sub_level_id s < lvl_sub_level_id y" using assms(1) by (auto simp: subs_shape_def)
  have "subs_shape X (l0_sub_levels target') \<and> (\<forall>x \<in> set (l0_sub_levels target'). lvl_sub_level_id x \<le> lvl_sub_level_id s')"
    by (rule add_to_target_shape [OF assms(2)]) (use assms(3-5) False in \<open>auto simp: split_shape_def\<close>)
  with after assms(4) show ?thesis by (auto simp: split_shape_def intro: order.strict_trans1)
qed (use assms in auto)

lemma split_l0_shape:
  assumes "split_l0 members subs l0 target i = Some (rest, l0', target', j)" and "subs_shape X subs"
    and "subs_shape X (l0_sub_levels target)"
    and "\<forall>x \<in> set (l0_sub_levels target). \<forall>y \<in> set subs. lvl_sub_level_id x < lvl_sub_level_id y"
  shows "map lvl_sub_level_id rest = map lvl_sub_level_id subs \<and> (\<forall>l \<in> set rest. level_shape X l)
    \<and> subs_shape X (l0_sub_levels target')"
  using assms
proof (induction subs arbitrary: l0 target i rest)
  case (Cons s subs)
  obtain moved s' k where sp: "split_sst_info_for_level members s i = (moved, s', k)" by (metis prod.collapse)
  obtain s1 a b where d: "drop_empty_ssts s' = (s1, a, b)" by (metis prod.collapse)
  obtain t1 rest1 where st: "(if moved = [] then Some target else add_to_target target s1 moved) = Some t1"
    "split_l0 members subs (take_off l0 a b) t1 k = Some (rest1, l0', target', j)" "rest = s1 # rest1"
    using Cons.prems(1) sp d by (auto split: Option.bind_splits)
  have s: "level_shape X s" "subs_shape X subs" using Cons.prems(2) by (auto simp: subs_shape_def)
  note sh = split_shape_drop [OF split_sst_info_for_level_shape [OF sp s(1)], unfolded d fst_conv]
  note t = target_step_shape [OF Cons.prems(2,3,4) sh st(1)]
  from Cons.IH [OF st(2) s(2)] t sh show ?case by (simp add: st(3) split_shape_def)
qed simp

lemma split_l0_v2_shape:
  assumes "split_l0_v2 key subs l0 target i = Some (rest, l0', target', j)" and "subs_shape X subs"
    and "subs_shape X (l0_sub_levels target)" and "\<forall>k. key = Some k \<longrightarrow> (\<exists>t. is_split_key k t)"
    and "\<forall>x \<in> set (l0_sub_levels target). \<forall>y \<in> set subs. lvl_sub_level_id x < lvl_sub_level_id y"
  shows "map lvl_sub_level_id rest = map lvl_sub_level_id subs \<and> (\<forall>l \<in> set rest. level_shape X l)
    \<and> subs_shape X (l0_sub_levels target')"
  using assms(1-3,5)
proof (induction subs arbitrary: l0 target i rest)
  case (Cons s subs)
  obtain moved s' k where sp: "split_level_at key s i = Some (moved, s', k)"
    using Cons.prems(1) by (auto split: Option.bind_splits)
  have s: "level_shape X s" "subs_shape X subs" using Cons.prems(2) by (auto simp: subs_shape_def)
  note sh = split_level_at_shape [OF sp s(1) assms(4)]
  obtain t1 rest1 s1 l1 where st: "(if moved = [] then Some target else add_to_target target s1 moved) = Some t1"
    "split_l0_v2 key subs l1 t1 k = Some (rest1, l0', target', j)" "rest = s1 # rest1" "split_shape X s s1 moved"
  proof (cases "moved = []")
    case True
    then show thesis using Cons.prems(1) sp sh that by (auto split: Option.bind_splits)
  next
    case False
    then show thesis using Cons.prems(1) sp split_shape_drop [OF sh] that
      by (auto simp: Let_def split: Option.bind_splits prod.splits)
  qed
  note t = target_step_shape [OF Cons.prems(2,3,4) st(4,1)]
  from Cons.IH [OF st(2) s(2)] t st(4) show ?case by (simp add: st(3) split_shape_def)
qed simp

lemma split_base_shape:
  assumes "split_base members idx ls cur i = Some (rest, cur', j)" and "\<forall>l \<in> set ls. level_shape X l \<and> lvl_type l = Nonoverlapping"
    and "base_shape X cur"
  shows "base_shape X cur' \<and> length rest = length ls \<and> (\<forall>n < length ls. level_shape X (rest ! n)
    \<and> lvl_type (rest ! n) = lvl_type (ls ! n) \<and> lvl_idx (rest ! n) = lvl_idx (ls ! n))"
  using assms
proof (induction ls arbitrary: idx cur i rest)
  case (Cons l ls)
  obtain moved l' k where sp: "split_sst_info_for_level members l i = (moved, l', k)" by (metis prod.collapse)
  obtain cur1 rest1 where st: "extend_base cur idx moved = Some cur1"
    "split_base members (idx + 1) ls cur1 k = Some (rest1, cur', j)" "rest = fst (drop_empty_ssts l') # rest1"
    using Cons.prems(1) sp by (auto simp: Let_def split: Option.bind_splits prod.splits)
  have l: "level_shape X l" using Cons.prems(2) by simp
  note sh = split_shape_drop [OF split_sst_info_for_level_shape [OF sp l]]
  have "base_shape X cur1" by (rule extend_base_shape [OF st(1) Cons.prems(3)]) (use sh in \<open>simp add: split_shape_def\<close>)
  from Cons.IH [OF st(2) _ this] Cons.prems(2) sh show ?case by (simp add: st(3) split_shape_def nth_Cons')
qed simp

lemma split_base_v2_shape:
  assumes "split_base_v2 key idx ls cur i = Some (rest, cur', j)" and "\<forall>l \<in> set ls. level_shape X l \<and> lvl_type l = Nonoverlapping"
    and "base_shape X cur" and "\<forall>k. key = Some k \<longrightarrow> (\<exists>t. is_split_key k t)"
  shows "base_shape X cur' \<and> length rest = length ls \<and> (\<forall>n < length ls. level_shape X (rest ! n)
    \<and> lvl_type (rest ! n) = lvl_type (ls ! n) \<and> lvl_idx (rest ! n) = lvl_idx (ls ! n))"
  using assms(1-3)
proof (induction ls arbitrary: idx cur i rest)
  case (Cons l ls)
  obtain moved l' k where sp: "split_level_at key l i = Some (moved, l', k)"
    using Cons.prems(1) by (auto split: Option.bind_splits)
  have l: "level_shape X l" using Cons.prems(2) by simp
  note sh = split_level_at_shape [OF sp l assms(4)]
  obtain cur1 rest1 l1 where st: "base_shape X cur1" "split_base_v2 key (idx + 1) ls cur1 k = Some (rest1, cur', j)"
    "rest = l1 # rest1" "split_shape X l l1 moved"
  proof (cases "moved = []")
    case True
    then show thesis using Cons.prems(1,3) sp sh that by (auto split: Option.bind_splits)
  next
    case False
    then obtain cur1 rest1 where c: "extend_base cur idx moved = Some cur1"
      "split_base_v2 key (idx + 1) ls cur1 k = Some (rest1, cur', j)" "rest = fst (drop_empty_ssts l') # rest1"
      using Cons.prems(1) sp by (auto split: Option.bind_splits)
    have "base_shape X cur1" by (rule extend_base_shape [OF c(1) Cons.prems(3)]) (use sh in \<open>simp add: split_shape_def\<close>)
    with c split_shape_drop [OF sh] that show thesis by blast
  qed
  from Cons.IH [OF st(2) _ st(1)] Cons.prems(2) st(4) show ?case by (simp add: st(3) split_shape_def nth_Cons')
qed simp

lemma shape_after_split:
  assumes "levels_shape X parent" and "map lvl_sub_level_id rest = map lvl_sub_level_id (l0_sub_levels (lvs_l0 parent))"
    and "\<forall>l \<in> set rest. level_shape X l" and "length base = length (lvs_levels parent)"
    and "\<forall>n < length (lvs_levels parent). level_shape X (base ! n)
      \<and> lvl_type (base ! n) = lvl_type (lvs_levels parent ! n) \<and> lvl_idx (base ! n) = lvl_idx (lvs_levels parent ! n)"
  shows "levels_shape X (parent\<lparr>lvs_l0 := retain_sub_levels (l0\<lparr>l0_sub_levels := rest\<rparr>), lvs_levels := base\<rparr>)"
proof -
  have "sorted_wrt (<) (map lvl_sub_level_id rest)" using assms(1,2) by (simp add: levels_shape_def subs_shape_def)
  then have "subs_shape X (filter (\<lambda>l. lvl_table_infos l \<noteq> []) rest)"
    using assms(3) by (auto simp: subs_shape_def sorted_wrt_map intro: sorted_wrt_filter)
  moreover have "base_shape X base" using assms(1,4,5) by (simp add: base_shape_def levels_shape_def)
  ultimately show ?thesis by (simp add: levels_shape_def retain_sub_levels_def)
qed

lemma base_shape_all: "base_shape X ls \<Longrightarrow> \<forall>l \<in> set ls. level_shape X l \<and> lvl_type l = Nonoverlapping"
  by (auto simp: base_shape_def in_set_conv_nth)

lemma split_levels_shape:
  assumes "levels_shape X parent" and "levels_shape X cur" and "l0_sub_levels (lvs_l0 cur) = []"
    and "\<forall>k. key = Some k \<longrightarrow> (\<exists>t. is_split_key k t)"
  shows "split_levels_at key parent cur i = Some (parent', cur', j) \<Longrightarrow> levels_shape X parent' \<and> levels_shape X cur'"
    and "split_levels_by_members members parent cur i = Some (parent', cur', j) \<Longrightarrow> levels_shape X parent' \<and> levels_shape X cur'"
proof -
  have p: "subs_shape X (l0_sub_levels (lvs_l0 parent))" "\<forall>l \<in> set (lvs_levels parent). level_shape X l \<and> lvl_type l = Nonoverlapping"
    and c: "subs_shape X (l0_sub_levels (lvs_l0 cur))" "base_shape X (lvs_levels cur)"
    using assms(1,2) base_shape_all by (auto simp: levels_shape_def)
  show "levels_shape X parent' \<and> levels_shape X cur'" if run: "split_levels_at key parent cur i = Some (parent', cur', j)"
  proof -
    obtain rest l0 target i1 base cur_base where
      A: "split_l0_v2 key (l0_sub_levels (lvs_l0 parent)) (lvs_l0 parent) (lvs_l0 cur) i = Some (rest, l0, target, i1)"
      and B: "split_base_v2 key 0 (lvs_levels parent) (lvs_levels cur) i1 = Some (base, cur_base, j)"
      and o: "parent' = parent\<lparr>lvs_l0 := retain_sub_levels (l0\<lparr>l0_sub_levels := rest\<rparr>), lvs_levels := base\<rparr>"
        "cur' = cur\<lparr>lvs_l0 := target, lvs_levels := cur_base\<rparr>"
      using run by (auto simp: split_levels_at_def Let_def split: Option.bind_splits if_splits)
    note a = split_l0_v2_shape [OF A p(1) c(1) assms(4)] and b = split_base_v2_shape [OF B p(2) c(2) assms(4)]
    show ?thesis using a b assms(3) shape_after_split [OF assms(1), of rest base l0]
      by (auto simp: o levels_shape_def)
  qed
  show "levels_shape X parent' \<and> levels_shape X cur'" if run: "split_levels_by_members members parent cur i = Some (parent', cur', j)"
  proof -
    obtain rest l0 target i1 base cur_base where
      A: "split_l0 members (l0_sub_levels (lvs_l0 parent)) (lvs_l0 parent) (lvs_l0 cur) i = Some (rest, l0, target, i1)"
      and B: "split_base members 0 (lvs_levels parent) (lvs_levels cur) i1 = Some (base, cur_base, j)"
      and o: "parent' = parent\<lparr>lvs_l0 := retain_sub_levels (l0\<lparr>l0_sub_levels := rest\<rparr>), lvs_levels := base\<rparr>"
        "cur' = cur\<lparr>lvs_l0 := target, lvs_levels := cur_base\<rparr>"
      using run by (auto simp: split_levels_by_members_def Let_def split: Option.bind_splits if_splits)
    note a = split_l0_shape [OF A p(1) c(1)] and b = split_base_shape [OF B p(2) c(2)]
    show ?thesis using a b assms(3) shape_after_split [OF assms(1), of rest base l0]
      by (auto simp: o levels_shape_def)
  qed
qed

section \<open>The sizes a split leaves behind\<close>

text \<open>The bytes of tables, without wrap-around, and the size recorded for a level; level 0 is first.\<close>

definition ssts_bytes :: "sstable_info list \<Rightarrow> nat" where
  "ssts_bytes ssts = sum_list (map (\<lambda>s. unat (sst_size s)) ssts)"

definition recorded_size :: "levels \<Rightarrow> nat \<Rightarrow> u64" where
  "recorded_size ls n =
     (if n = 0 then l0_total_file_size (lvs_l0 ls)
      else if n - 1 < length (lvs_levels ls) then lvl_total_file_size (lvs_levels ls ! (n - 1)) else 0)"

definition level_tables :: "levels \<Rightarrow> nat \<Rightarrow> sstable_info list" where
  "level_tables ls n =
     (if n = 0 then concat (map lvl_table_infos (l0_sub_levels (lvs_l0 ls)))
      else if n - 1 < length (lvs_levels ls) then lvl_table_infos (lvs_levels ls ! (n - 1)) else [])"

definition sst_filled :: "sstable_info \<Rightarrow> bool" where
  "sst_filled s = (sst_table_ids s \<noteq> [] \<and> 0 < sst_size s)"

lemma ssts_bytes_simps [simp]:
  "ssts_bytes [] = 0" "ssts_bytes (s # ss) = unat (sst_size s) + ssts_bytes ss"
  "ssts_bytes (ss @ ss') = ssts_bytes ss + ssts_bytes ss'"
  by (simp_all add: ssts_bytes_def)

lemma ssts_bytes_pos: "list_all sst_filled ss \<Longrightarrow> ss \<noteq> [] \<Longrightarrow> 0 < ssts_bytes ss"
  by (cases ss) (auto simp: sst_filled_def unat_gt_0 word_gt_0)

lemma half_less: "0 < (w :: u64) \<Longrightarrow> unat (w div 2) < unat w"
  by (simp add: unat_div unat_gt_0 word_gt_0)

lemma split_sst_bytes:
  assumes "split_sst s i key (sst_size s div 2) (sst_size s div 2) = Some ((l, r), j)" and "sst_filled s"
  shows "list_all (\<lambda>x. sst_table_ids x \<noteq> []) (opt_list l) \<and> ssts_bytes (opt_list l) < unat (sst_size s)"
  using assms half_less [of "sst_size s"]
  by (auto simp: split_sst_def Let_def opt_list_def sst_filled_def unat_gt_0 word_gt_0 split: Option.bind_splits if_splits)

text \<open>Keeping \<open>kept\<close> of \<open>ssts\<close> and moving \<open>moved\<close> loses bytes as soon as something is moved.\<close>

definition loses :: "sstable_info list \<Rightarrow> sstable_info list \<Rightarrow> sstable_info list \<Rightarrow> bool" where
  "loses ssts kept moved = (list_all (\<lambda>x. sst_table_ids x \<noteq> []) kept \<and> ssts_bytes kept \<le> ssts_bytes ssts
     \<and> (moved = [] \<or> ssts_bytes kept < ssts_bytes ssts))"

lemma split_one_bytes:
  assumes "split_one key s i = Some ((l, r), j)" and "sst_filled s"
  shows "loses [s] (opt_list l) (opt_list r)"
  using assms split_sst_bytes [of s i key l r j]
  by (auto simp: split_one_def loses_def opt_list_def sst_filled_def unat_gt_0 word_gt_0
      split: Option.bind_splits sst_split_type.splits)

lemma split_overlapping_bytes:
  assumes "split_overlapping key ssts i = Some ((l, r), j)" and "list_all sst_filled ssts"
  shows "loses ssts l r"
  using assms
proof (induction ssts arbitrary: i l r)
  case (Cons s ssts)
  from Cons.prems(1) obtain l1 r1 k l2 r2 where o: "split_one key s i = Some ((l1, r1), k)"
    "split_overlapping key ssts k = Some ((l2, r2), j)" "l = opt_list l1 @ l2" "r = opt_list r1 @ r2"
    by (auto simp: opt_list_def split: Option.bind_splits option.splits)
  from split_one_bytes [OF o(1)] Cons.IH [OF o(2)] Cons.prems(2) show ?case unfolding o(3,4) by (auto simp: loses_def)
qed (simp add: loses_def)

lemma loses_take_drop: "list_all sst_filled ssts \<Longrightarrow> loses ssts (take n ssts) (drop n ssts)"
proof -
  assume a: "list_all sst_filled ssts"
  have s: "ssts_bytes ssts = ssts_bytes (take n ssts) + ssts_bytes (drop n ssts)"
    by (simp flip: ssts_bytes_simps(3))
  have "list_all sst_filled (drop n ssts)" using a by (auto simp: list_all_iff dest: in_set_dropD)
  then have "drop n ssts = [] \<or> 0 < ssts_bytes (drop n ssts)" by (cases "drop n ssts = []") (simp, simp only: ssts_bytes_pos simp_thms)
  moreover have "list_all (\<lambda>x. sst_table_ids x \<noteq> []) (take n ssts)"
    using a by (auto simp: list_all_iff sst_filled_def dest: in_set_takeD)
  ultimately show ?thesis using s by (auto simp: loses_def)
qed

lemma split_nonoverlapping_bytes:
  assumes "split_nonoverlapping key ssts i = Some ((l, r), j)" and "list_all sst_filled ssts"
  shows "loses ssts l r"
proof -
  obtain pos where pos: "get_split_pos ssts key = Some pos"
    using assms(1) by (cases "get_split_pos ssts key") (auto simp: split_nonoverlapping_def)
  show ?thesis
  proof (cases "length ssts \<le> pos")
    case True
    then show ?thesis using assms loses_take_drop [of ssts "length ssts"] pos by (auto simp: split_nonoverlapping_def)
  next
    case False
    then obtain ty where ty: "need_to_split (ssts ! pos) key = Some ty"
      using assms(1) pos by (cases "need_to_split (ssts ! pos) key") (auto simp: split_nonoverlapping_def)
    show ?thesis
    proof (cases ty)
      case SplitLeft
      with False ty pos assms loses_take_drop [of ssts "pos + 1"] show ?thesis by (auto simp: split_nonoverlapping_def)
    next
      case SplitRight
      with False ty pos assms loses_take_drop [of ssts 0] show ?thesis by (auto simp: split_nonoverlapping_def split: if_splits)
    next
      case SplitBoth
      let ?s = "ssts ! pos"
      obtain a b k where s: "split_sst ?s i key (sst_size ?s div 2) (sst_size ?s div 2) = Some ((a, b), k)"
        "l = take pos ssts @ opt_list a" "r = opt_list b @ drop (pos + 1) ssts"
        using SplitBoth False ty pos assms(1)
        by (cases "split_sst ?s i key (sst_size ?s div 2) (sst_size ?s div 2)")
          (auto simp: split_nonoverlapping_def Let_def opt_list_def)
      have "ssts_bytes ssts = ssts_bytes (take pos ssts) + (unat (sst_size ?s) + ssts_bytes (drop (pos + 1) ssts))"
        using False id_take_nth_drop [of pos ssts] by (metis Suc_eq_plus1 not_le ssts_bytes_simps(2,3))
      moreover have "sst_filled ?s" using False assms(2) by (simp add: list_all_iff)
      moreover have "list_all (\<lambda>x. sst_table_ids x \<noteq> []) (take pos ssts)"
        using assms(2) by (auto simp: list_all_iff sst_filled_def dest: in_set_takeD)
      ultimately show ?thesis using split_sst_bytes [OF s(1)] unfolding s(2,3) by (auto simp: loses_def)
    qed
  qed
qed

lemma split_level_bytes:
  assumes "split_level_at (Some key) l i = Some (moved, l', j)" and "list_all sst_filled (lvl_table_infos l)"
  shows "loses (lvl_table_infos l) (lvl_table_infos l') moved \<and> lvl_total_file_size l' = lvl_total_file_size l"
proof (cases "lvl_table_infos l = []")
  case True
  then show ?thesis using assms(1) by (simp add: split_level_at_def split_sst_info_for_level_v2_def loses_def)
next
  case False
  then show ?thesis using assms split_overlapping_bytes [OF _ assms(2), of key i] split_nonoverlapping_bytes [OF _ assms(2), of key i]
    by (auto simp: split_level_at_def split_sst_info_for_level_v2_def split: Option.bind_splits if_splits)
qed

lemma drop_empty_none:
  assumes "list_all (\<lambda>x. sst_table_ids x \<noteq> []) (lvl_table_infos l)"
  shows "drop_empty_ssts l = (l, 0, 0)"
proof -
  have "filter (\<lambda>s. sst_table_ids s = []) (lvl_table_infos l) = []" "filter (\<lambda>s. sst_table_ids s \<noteq> []) (lvl_table_infos l) = lvl_table_infos l"
    using assms by (auto simp: list_all_iff filter_empty_conv)
  then show ?thesis by (simp add: drop_empty_ssts_def Let_def)
qed

lemma split_l0_bytes:
  assumes "split_l0_v2 (Some key) subs l0 target i = Some (rest, l0', target', j)"
    and "list_all (\<lambda>l. list_all sst_filled (lvl_table_infos l)) subs"
  shows "l0_total_file_size l0' = l0_total_file_size l0
    \<and> ssts_bytes (concat (map lvl_table_infos rest)) \<le> ssts_bytes (concat (map lvl_table_infos subs))
    \<and> (target' = target \<or> ssts_bytes (concat (map lvl_table_infos rest)) < ssts_bytes (concat (map lvl_table_infos subs)))"
  using assms
proof (induction subs arbitrary: l0 target i rest)
  case (Cons s subs)
  obtain moved s' i' where sp: "split_level_at (Some key) s i = Some (moved, s', i')"
    using Cons.prems(1) by (cases "split_level_at (Some key) s i") auto
  have b: "loses (lvl_table_infos s) (lvl_table_infos s') moved" using split_level_bytes [OF sp] Cons.prems(2) by simp
  then have d: "drop_empty_ssts s' = (s', 0, 0)" by (intro drop_empty_none) (simp add: loses_def)
  show ?case
  proof (cases "moved = []")
    case True
    then obtain r where r: "split_l0_v2 (Some key) subs l0 target i' = Some (r, l0', target', j)" "rest = s' # r"
      using Cons.prems(1) sp by (auto split: Option.bind_splits)
    from Cons.IH [OF r(1)] Cons.prems(2) b show ?thesis by (auto simp: r(2) loses_def)
  next
    case False
    then obtain r t1 where r: "split_l0_v2 (Some key) subs l0 t1 i' = Some (r, l0', target', j)" "rest = s' # r"
      using Cons.prems(1) sp d by (auto simp: take_off_def split: Option.bind_splits)
    from Cons.IH [OF r(1)] Cons.prems(2) b False show ?thesis by (auto simp: r(2) loses_def)
  qed
qed simp

lemma split_base_bytes:
  assumes "split_base_v2 (Some key) idx ls cur i = Some (rest, cur', j)"
    and "list_all (\<lambda>l. list_all sst_filled (lvl_table_infos l)) ls"
  shows "length rest = length ls \<and> length cur' = length cur \<and> (\<forall>m < idx. cur' ! m = cur ! m)
    \<and> (\<forall>m < length ls. lvl_total_file_size (rest ! m) = lvl_total_file_size (ls ! m)
        \<and> ssts_bytes (lvl_table_infos (rest ! m)) \<le> ssts_bytes (lvl_table_infos (ls ! m))
        \<and> (cur' ! (idx + m) = cur ! (idx + m) \<or> ssts_bytes (lvl_table_infos (rest ! m)) < ssts_bytes (lvl_table_infos (ls ! m))))"
  using assms
proof (induction ls arbitrary: idx cur i rest)
  case (Cons l ls)
  obtain moved l' i' where sp: "split_level_at (Some key) l i = Some (moved, l', i')"
    using Cons.prems(1) by (cases "split_level_at (Some key) l i") auto
  have b: "loses (lvl_table_infos l) (lvl_table_infos l') moved" "lvl_total_file_size l' = lvl_total_file_size l"
    using split_level_bytes [OF sp] Cons.prems(2) by simp_all
  then have d: "drop_empty_ssts l' = (l', 0, 0)" by (intro drop_empty_none) (simp add: loses_def)
  obtain c r where r: "split_base_v2 (Some key) (idx + 1) ls c i' = Some (r, cur', j)" "rest = l' # r"
    and c: "\<forall>m. m \<noteq> idx \<longrightarrow> c ! m = cur ! m" "moved = [] \<longrightarrow> c = cur" "length c = length cur"
    using Cons.prems(1) sp d by (cases "moved = []") (auto simp: extend_base_def Let_def split: Option.bind_splits if_splits)
  have ls: "list_all (\<lambda>l. list_all sst_filled (lvl_table_infos l)) ls" using Cons.prems(2) by simp
  note IH = Cons.IH [OF r(1) ls]
  show ?case
  proof (intro conjI allI impI)
    show "length rest = length (l # ls)" using IH by (simp add: r(2))
    show "length cur' = length cur" using IH c(3) by simp
    show "cur' ! m = cur ! m" if "m < idx" for m using that IH c(1) by simp
    fix m assume m: "m < length (l # ls)"
    show "lvl_total_file_size (rest ! m) = lvl_total_file_size ((l # ls) ! m)"
      using m IH b(2) by (cases m) (simp_all add: r(2))
    show "ssts_bytes (lvl_table_infos (rest ! m)) \<le> ssts_bytes (lvl_table_infos ((l # ls) ! m))"
      using m IH b(1) by (cases m) (simp_all add: r(2) loses_def)
    show "cur' ! (idx + m) = cur ! (idx + m) \<or> ssts_bytes (lvl_table_infos (rest ! m)) < ssts_bytes (lvl_table_infos ((l # ls) ! m))"
      using m IH b(1) c by (cases m) (auto simp: r(2) loses_def)
  qed
qed simp

lemma sst_sizes_bytes: "sst_sizes ssts = word_of_nat (ssts_bytes ssts)"
  by (induction ssts) simp_all

lemma recorded_size_inv: "levels_inv ls \<Longrightarrow> recorded_size ls m = word_of_nat (ssts_bytes (level_tables ls m))"
proof -
  assume inv: "levels_inv ls"
  have subs: "sum_list (map lvl_total_file_size subs) = word_of_nat (ssts_bytes (concat (map lvl_table_infos subs)))"
    if "\<forall>l \<in> set subs. level_inv l" for subs
    using that by (induction subs) (simp_all add: level_inv_def level_sizes_ok_def sst_sizes_bytes)
  show ?thesis
    using inv subs by (auto simp: recorded_size_def level_tables_def levels_inv_def l0_inv_def subs_inv_def base_inv_def
        level_inv_def level_sizes_ok_def sst_sizes_bytes)
qed

lemma split_levels_bytes:
  assumes "split_levels_at (Some key) parent cur i = Some (parent', cur', j)" and "\<forall>m. list_all sst_filled (level_tables parent m)"
    and "\<forall>m. level_tables cur m = []"
  shows "length (lvs_levels cur') = length (lvs_levels cur) \<and> recorded_size parent' m = recorded_size parent m
    \<and> (m \<le> length (lvs_levels parent) \<longrightarrow> level_tables cur' m \<noteq> [] \<longrightarrow>
         ssts_bytes (level_tables parent' m) < ssts_bytes (level_tables parent m))"
proof -
  obtain subs l0 target i1 base cur_base where
    l0: "split_l0_v2 (Some key) (l0_sub_levels (lvs_l0 parent)) (lvs_l0 parent) (lvs_l0 cur) i = Some (subs, l0, target, i1)"
    and base: "split_base_v2 (Some key) 0 (lvs_levels parent) (lvs_levels cur) i1 = Some (base, cur_base, j)"
    and out: "parent' = parent\<lparr>lvs_l0 := retain_sub_levels (l0\<lparr>l0_sub_levels := subs\<rparr>), lvs_levels := base\<rparr>"
      "cur' = cur\<lparr>lvs_l0 := target, lvs_levels := cur_base\<rparr>"
    using assms(1) by (auto simp: split_levels_at_def Let_def split: Option.bind_splits if_splits)
  have "list_all (\<lambda>l. list_all sst_filled (lvl_table_infos l)) (l0_sub_levels (lvs_l0 parent))"
    using assms(2) [rule_format, of 0] by (auto simp: level_tables_def list_all_iff)
  note l0 = split_l0_bytes [OF l0 this]
  have "list_all sst_filled (lvl_table_infos (lvs_levels parent ! m))" if m: "m < length (lvs_levels parent)" for m
    using assms(2) [rule_format, of "Suc m"] m by (simp add: level_tables_def)
  then have "list_all (\<lambda>l. list_all sst_filled (lvl_table_infos l)) (lvs_levels parent)"
    by (auto simp: list_all_length)
  note base = split_base_bytes [OF base this]
  have ret: "concat (map lvl_table_infos (filter (\<lambda>l. lvl_table_infos l \<noteq> []) ss)) = concat (map lvl_table_infos ss)" for ss :: "level list"
    by (induction ss) auto
  show ?thesis
  proof (cases m)
    case 0
    then show ?thesis using l0 base assms(3) [rule_format, of 0]
      by (auto simp: out recorded_size_def level_tables_def retain_sub_levels_def ret)
  next
    case (Suc k)
    then show ?thesis using base assms(3) [rule_format, of m] 
      by (auto simp: out recorded_size_def level_tables_def split: if_splits)
  qed
qed

section \<open>Properties of splitting a group\<close>

text \<open>A group with one table over the tables 1 and 2 in level 1.\<close>

definition example_sst :: sstable_info where
  "example_sst = sst_of 1 [1, 2] (UserKey 1 [0, 0, 1]) (UserKey 2 [0, 0, 5])"

definition example_parent :: levels where
  "example_parent = (build_initial_compaction_group_levels 2 1)\<lparr>lvs_levels := [\<lparr>lvl_idx = 1, lvl_type = Nonoverlapping,
     lvl_table_infos = [example_sst], lvl_total_file_size = 100, lvl_sub_level_id = 0,
     lvl_uncompressed_file_size = 200, lvl_vnode_partition_count = 0\<rparr>]\<rparr>"

lemma example_sst_good: "sst_good UNIV example_sst" "sst_ok example_sst" "sorted (sst_table_ids example_sst)"
  by (simp_all add: sst_good_def example_sst_def less_eq_user_key_def)

lemma example_parent_inv: "levels_inv example_parent" and example_parent_splittable: "splittable UNIV example_parent"
  using example_sst_good
  by (simp_all add: levels_inv_def l0_inv_def subs_inv_def base_inv_def level_inv_def level_sizes_ok_def level_ok_iff
      splittable_def levels_shape_def subs_shape_def base_shape_def level_shape_def no_empty_sub_level_def
      example_parent_def build_initial_compaction_group_levels_def)
    (simp_all add: example_sst_def)

text \<open>
  C6. Splitting a group at a key leaves the sizes recorded for the parent as they were, at level 0 and
  at every base level, although the tables above the key, whole or halved, have gone to the new group.
  So for a parent whose recorded sizes are those of its tables, each with a size and table ids, every
  level that loses a table is recorded with more bytes than it has, and the parent no longer keeps the
  invariant of its sizes; the new group keeps it.
\<close>

theorem split_leaves_stale_sizes:
  assumes "splittable X parent" and "levels_inv parent" and "is_split_key key t" and "length (lvs_levels parent) \<le> n"
    and "\<forall>m. list_all sst_filled (level_tables parent m) \<and> ssts_bytes (level_tables parent m) < 2 ^ 64"
  shows "\<exists>parent' cur' j. split_levels_at (Some key) parent (build_initial_compaction_group_levels g n) i = Some (parent', cur', j)
    \<and> levels_inv cur'
    \<and> (\<forall>m. recorded_size parent' m = recorded_size parent m
        \<and> unat (recorded_size parent m) = ssts_bytes (level_tables parent m)
        \<and> (level_tables cur' m \<noteq> [] \<longrightarrow> ssts_bytes (level_tables parent' m) < unat (recorded_size parent' m)))
    \<and> ((\<exists>m. level_tables cur' m \<noteq> []) \<longrightarrow> \<not> levels_inv parent')"
proof -
  let ?cur = "build_initial_compaction_group_levels g n"
  obtain parent' cur' j where run: "split_levels_at (Some key) parent ?cur i = Some (parent', cur', j)"
    and cur: "levels_inv cur'" "group_split_at t parent parent' cur'"
    using split_levels_at_correct [OF assms(1,3,4), of g i] by blast
  have empty: "\<forall>m. level_tables ?cur m = []" by (simp add: level_tables_def build_initial_compaction_group_levels_def)
  have filled: "\<forall>m. list_all sst_filled (level_tables parent m)" using assms(5) by blast
  note b = split_levels_bytes [OF run filled empty]
  have above: "level_tables cur' m = []" if "length (lvs_levels parent) < m" for m
    using that cur(2) by (cases m) (simp_all add: group_split_at_def level_tables_def)
  have size: "unat (recorded_size parent m) = ssts_bytes (level_tables parent m)" for m
    using recorded_size_inv [OF assms(2), of m] assms(5) by (simp add: unat_word_of_nat_less)
  have less: "ssts_bytes (level_tables parent' m) < unat (recorded_size parent' m)" if m: "level_tables cur' m \<noteq> []" for m
    using b [of m] above [of m] m size [of m] by (cases "m \<le> length (lvs_levels parent)") auto
  have "\<not> levels_inv parent'" if m: "level_tables cur' m \<noteq> []" for m
  proof
    assume "levels_inv parent'"
    then have "recorded_size parent' m = word_of_nat (ssts_bytes (level_tables parent' m))" by (rule recorded_size_inv)
    moreover have "ssts_bytes (level_tables parent' m) < 2 ^ 64"
      using less [OF m] b [of m] size [of m] assms(5) by (metis less_trans)
    ultimately show False using less [OF m] by (simp add: unat_word_of_nat_less)
  qed
  with run cur(1) size less b show ?thesis by blast
qed
text \<open>A group with a table to move in its sub-level and one to halve in its base level.\<close>

definition example_to_split :: levels where
  "example_to_split = example_group 2 5 (sst_of 3 [2] (UserKey 2 [0, 0, 1]) (UserKey 2 [0, 0, 9])) example_sst"

lemma example_to_split_ok: "levels_inv example_to_split" "splittable UNIV example_to_split"
  "\<forall>m. list_all sst_filled (level_tables example_to_split m) \<and> ssts_bytes (level_tables example_to_split m) < 2 ^ 64"
  using example_sst_good
  by (simp_all add: example_to_split_def example_group_inv less_eq_user_key_def)
    (simp_all add: example_group_def splittable_def levels_shape_def subs_shape_def base_shape_def level_shape_def
      no_empty_sub_level_def level_ok_iff new_sub_level_def level_tables_def sst_good_def sst_filled_def example_sst_def
      less_eq_user_key_def)

lemma example_to_split_moves:
  assumes "group_split_at 2 example_to_split parent' cur'" and "0 < length (lvs_levels cur')"
  shows "level_tables cur' 0 \<noteq> []" and "level_tables cur' 1 \<noteq> []"
proof -
  let ?s = "sst_of 3 [2] (UserKey 2 [0, 0, 1]) (UserKey 2 [0, 0, 9])" and ?k = "UserKey 2 [0, 0, 5]"
  have has: "sst_has ?s ?k" "sst_has example_sst ?k"
    by (simp_all add: sst_has_def example_sst_def kr_contains_def kr_new_def above_left_def below_right_def less_eq_user_key_def)
  have moved: "moved \<noteq> []" if "splits_at 2 [s] kept moved" "sst_has s ?k" for s kept moved
  proof -
    have "ssts_have moved ?k \<longleftrightarrow> ssts_have [s] ?k \<and> UserKey 2 [0, 0] \<le> ?k"
      using that(1) by (simp add: splits_at_def uk_valid_def)
    then show ?thesis using that(2) by (auto simp: ssts_have_def less_eq_user_key_def)
  qed
  have g: "splits_at 2 (sub_ssts (l0_sub_levels (lvs_l0 example_to_split)) 5) (sub_ssts (l0_sub_levels (lvs_l0 parent')) 5)
      (sub_ssts (l0_sub_levels (lvs_l0 cur')) 5)"
    "splits_at 2 (lvl_table_infos (lvs_levels example_to_split ! 0)) (lvl_table_infos (lvs_levels parent' ! 0))
      (lvl_table_infos (lvs_levels cur' ! 0))"
    using assms(1) unfolding group_split_at_def by (blast, simp add: example_to_split_def example_group_def)
  then have "sub_ssts (l0_sub_levels (lvs_l0 cur')) 5 \<noteq> []" "lvl_table_infos (lvs_levels cur' ! 0) \<noteq> []"
    using moved [OF _ has(1)] moved [OF _ has(2)]
    by (simp_all add: example_to_split_def example_group_def new_sub_level_def)
  then show "level_tables cur' 0 \<noteq> []" "level_tables cur' 1 \<noteq> []"
    using assms(2) by (auto simp: level_tables_def sub_ssts_def)
qed

theorem split_leaves_stale_sizes_witness:
  "\<exists>parent' cur' j. split_levels_at (Some example_split_key) example_to_split
       (build_initial_compaction_group_levels 3 1) 10 = Some (parent', cur', j)
     \<and> (\<forall>m \<in> {0, 1}. unat (recorded_size parent' m) = 100 \<and> ssts_bytes (level_tables parent' m) < 100)
     \<and> \<not> levels_inv parent'"
proof -
  have n: "length (lvs_levels example_to_split) \<le> 1" by (simp add: example_to_split_def example_group_def)
  from split_leaves_stale_sizes [OF example_to_split_ok(2,1) example_split_key n example_to_split_ok(3), of 3 10]
  obtain parent' cur' j where run: "split_levels_at (Some example_split_key) example_to_split
       (build_initial_compaction_group_levels 3 1) 10 = Some (parent', cur', j)"
    and sizes: "\<forall>m. recorded_size parent' m = recorded_size example_to_split m
        \<and> (level_tables cur' m \<noteq> [] \<longrightarrow> ssts_bytes (level_tables parent' m) < unat (recorded_size parent' m))"
    and bad: "(\<exists>m. level_tables cur' m \<noteq> []) \<longrightarrow> \<not> levels_inv parent'" by blast
  have "group_split_at 2 example_to_split parent' cur'"
    using split_levels_at_correct [OF example_to_split_ok(2) example_split_key n, of 3 10] run by auto
  moreover have "0 < length (lvs_levels cur')"
    using split_levels_bytes [OF run] example_to_split_ok(3)
    by (simp add: level_tables_def build_initial_compaction_group_levels_def)
  ultimately have m: "level_tables cur' 0 \<noteq> []" "level_tables cur' 1 \<noteq> []" by (rule example_to_split_moves)+
  have "unat (recorded_size example_to_split 0) = 100" "unat (recorded_size example_to_split 1) = 100"
    by (simp_all add: recorded_size_def example_to_split_def example_group_def new_sub_level_def example_sst_def)
  then show ?thesis using run sizes bad m by (metis insertE singletonD)
qed

end
