(* ===== verification/Hummock_Version.thy ===== *)
theory Hummock_Version
  imports Version_Split Change_Log Table_Watermark
begin

text \<open>
  Versions of the storage and the deltas between them: \<open>HummockVersion\<close> and \<open>HummockVersionDelta\<close> of
  \<^verbatim>\<open>storage/hummock_sdk/src/version.rs\<close> and \<open>apply_version_delta\<close> with the operations it calls, from
  \<^verbatim>\<open>storage/hummock_sdk/src/compaction_group/hummock_version_ext.rs\<close>. Applying a delta updates the state
  tables, the groups (construction by splitting, merging, removal, commits and compactions), the
  watermarks and the change logs. The lemmas show that every reachable version is well formed, that
  the objects of a version come from its predecessor or from its delta, that splitting a group
  partitions its keys, and what happens to the watermarks of every table.
\<close>

section \<open>Versions and deltas\<close>

record hummock_version =
  ver_id :: u64
  ver_levels :: "(u64, levels) btree"
  ver_max_committed_epoch :: u64
  ver_table_watermarks :: "(table_id, table_watermarks) btree"
  ver_table_change_log :: "(table_id, sstable_info table_change_log) btree"
  ver_state_table_info :: version_state_table_info

text \<open>Of a \<open>CompactionConfig\<close> only the number of levels matters here.\<close>

record compaction_config =
  cc_max_level :: u64

record group_construct =
  gc_group_config :: "compaction_config option"
  gc_parent_group_id :: u64
  gc_table_ids :: "u32 list"
  gc_group_id :: u64
  gc_new_sst_start_id :: u64
  gc_version :: int
  gc_split_key :: "bytes option"

datatype group_delta =
    NewL0SubLevel "sstable_info list"
  | IntraLevel intra_level_delta
  | GroupConstruct group_construct
  | GroupDestroy
  | GroupMerge u64 u64

record version_delta =
  vd_id :: u64
  vd_prev_id :: u64
  vd_group_deltas :: "(u64 \<times> group_delta list) list"
  vd_max_committed_epoch :: u64
  vd_trivial_move :: bool
  vd_new_table_watermarks :: "(table_id \<times> table_watermarks) list"
  vd_removed_table_ids :: "table_id list"
  vd_change_log_delta :: "(table_id \<times> sstable_info change_log_delta) list"
  vd_state_table_info_delta :: "(table_id \<times> state_table_info) list"

definition next_version_id :: "hummock_version \<Rightarrow> u64" where
  "next_version_id v = ver_id v + 1"

definition create_init_version :: "compaction_config \<Rightarrow> hummock_version" where
  "create_init_version config =
     \<lparr>ver_id = 1,
      ver_levels = foldl (\<lambda>m g. bt_insert g (build_initial_compaction_group_levels g (unat (cc_max_level config))) m) []
        [2, 3],
      ver_max_committed_epoch = 0, ver_table_watermarks = [], ver_table_change_log = [],
      ver_state_table_info = vsti_empty\<rparr>"

definition version_delta_after :: "hummock_version \<Rightarrow> version_delta" where
  "version_delta_after v =
     \<lparr>vd_id = next_version_id v, vd_prev_id = ver_id v, vd_group_deltas = [],
      vd_max_committed_epoch = ver_max_committed_epoch v, vd_trivial_move = False,
      vd_new_table_watermarks = [], vd_removed_table_ids = [], vd_change_log_delta = [],
      vd_state_table_info_delta = []\<rparr>"

definition table_committed_epoch :: "hummock_version \<Rightarrow> table_id \<Rightarrow> u64 option" where
  "table_committed_epoch v t =
     map_option sti_committed_epoch (bt_get (vsti_info (ver_state_table_info v)) t)"

definition need_fill_backward_compatible_state_table_info_delta :: "hummock_version \<Rightarrow> bool" where
  "need_fill_backward_compatible_state_table_info_delta v =
     (vsti_info (ver_state_table_info v) = []
      \<and> list_ex (\<lambda>e. lvs_member_table_ids (snd e) \<noteq> []) (ver_levels v))"

text \<open>\<open>assert!(delta.state_table_info_delta.insert(..).is_none())\<close> for every member table.\<close>

fun fill_table_infos ::
    "u64 \<Rightarrow> u64 \<Rightarrow> table_id list \<Rightarrow> (table_id \<times> state_table_info) list \<Rightarrow> (table_id \<times> state_table_info) list option" where
  "fill_table_infos epoch g [] deltas = Some deltas"
| "fill_table_infos epoch g (t # ts) deltas =
     (if map_of deltas t \<noteq> None then None
      else fill_table_infos epoch g ts
        (deltas @ [(t, \<lparr>sti_committed_epoch = epoch, sti_compaction_group_id = g\<rparr>)]))"

fun fill_group_infos ::
    "u64 \<Rightarrow> (u64 \<times> levels) list \<Rightarrow> (table_id \<times> state_table_info) list \<Rightarrow> (table_id \<times> state_table_info) list option" where
  "fill_group_infos epoch [] deltas = Some deltas"
| "fill_group_infos epoch ((g, ls) # rest) deltas =
     do { deltas \<leftarrow> fill_table_infos epoch g (lvs_member_table_ids ls) deltas;
          fill_group_infos epoch rest deltas }"

definition may_fill_backward_compatible_state_table_info_delta ::
    "hummock_version \<Rightarrow> version_delta \<Rightarrow> version_delta option" where
  "may_fill_backward_compatible_state_table_info_delta v d =
     do { deltas \<leftarrow> fill_group_infos (ver_max_committed_epoch v) (ver_levels v) (vd_state_table_info_delta d);
          Some (d\<lparr>vd_state_table_info_delta := deltas\<rparr>) }"

section \<open>Applying a delta to the groups\<close>

text \<open>
  \<open>get_many_mut\<close> panics when a group is missing or both ids are the same; group 0 stands for a new
  group without a parent.
\<close>

definition init_with_parent_group ::
    "(u64, levels) btree \<Rightarrow> u64 \<Rightarrow> u64 \<Rightarrow> u32 list \<Rightarrow> u64 \<Rightarrow> (u64, levels) btree option" where
  "init_with_parent_group m parent g members new_sst_start_id =
     (if parent = 0 then Some m
      else if parent = g then None
      else do { p \<leftarrow> bt_get m parent;
                c \<leftarrow> bt_get m g;
                (p', c', _) \<leftarrow> split_levels_by_members members p c new_sst_start_id;
                Some (bt_insert g c' (bt_insert parent p' m)) })"

definition init_with_parent_group_v2 ::
    "(u64, levels) btree \<Rightarrow> u64 \<Rightarrow> u64 \<Rightarrow> u64 \<Rightarrow> bytes option \<Rightarrow> (u64, levels) btree option" where
  "init_with_parent_group_v2 m parent g new_sst_start_id split_key =
     (if parent = 0 then Some m
      else if parent = g then None
      else do { p \<leftarrow> bt_get m parent;
                c \<leftarrow> bt_get m g;
                (p', c', _) \<leftarrow> split_levels_at split_key p c new_sst_start_id;
                Some (bt_insert g c' (bt_insert parent p' m)) })"

definition count_new_ssts_in_group_split :: "hummock_version \<Rightarrow> u64 \<Rightarrow> bytes \<Rightarrow> u64 option" where
  "count_new_ssts_in_group_split v parent split_key =
     (case bt_get (ver_levels v) parent of None \<Rightarrow> Some 0 | Some ls \<Rightarrow> count_new_ssts ls split_key)"

definition merge_compaction_group ::
    "version_state_table_info \<Rightarrow> u64 \<Rightarrow> u64 \<Rightarrow> (u64, levels) btree \<Rightarrow> (u64, levels) btree option" where
  "merge_compaction_group infos left right m =
     (if \<not> sorted (compaction_group_member_table_ids infos left @ compaction_group_member_table_ids infos right)
      then None
      else do { right_levels \<leftarrow> bt_get m right;
                let m = bt_remove right m;
                left_levels \<leftarrow> bt_get m left;
                merged \<leftarrow> merge_levels left_levels right_levels;
                Some (bt_insert left merged m) })"

text \<open>\<open>CompatibilityVersion::NoMemberTableIds\<close> is 2, \<open>SplitGroupByTableId\<close> is 3.\<close>

definition construct_group ::
    "version_state_table_info \<Rightarrow> u64 \<Rightarrow> group_construct \<Rightarrow> (u64, levels) btree \<Rightarrow> (u64, levels) btree option" where
  "construct_group infos g gc m =
     do { config \<leftarrow> gc_group_config gc;
          let new_levels = (build_initial_compaction_group_levels g (unat (cc_max_level config)))
            \<lparr>lvs_parent_group_id := gc_parent_group_id gc, lvs_member_table_ids := gc_table_ids gc\<rparr>;
          let m = bt_insert g new_levels m;
          let members = (if gc_version gc \<ge> 2 then compaction_group_member_table_ids infos g
                         else sort (remdups (gc_table_ids gc)));
          if gc_version gc \<ge> 3
          then init_with_parent_group_v2 m (gc_parent_group_id gc) g (gc_new_sst_start_id gc) (gc_split_key gc)
          else init_with_parent_group m (gc_parent_group_id gc) g members (gc_new_sst_start_id gc) }"

definition with_l0 :: "levels \<Rightarrow> (overlapping_level \<Rightarrow> overlapping_level option) \<Rightarrow> levels option" where
  "with_l0 ls f = do { l0 \<leftarrow> f (lvs_l0 ls); Some (ls\<lparr>lvs_l0 := l0\<rparr>) }"

text \<open>One group delta: the groups after it, and whether it compacted level 0.\<close>

definition apply_group_delta ::
    "bool \<Rightarrow> version_state_table_info \<Rightarrow> u64 \<Rightarrow> group_delta \<Rightarrow> (u64, levels) btree \<Rightarrow> ((u64, levels) btree \<times> bool) option" where
  "apply_group_delta is_commit_epoch infos g delta m =
     (case delta of
        GroupConstruct gc \<Rightarrow> do { m \<leftarrow> construct_group infos g gc m; Some (m, False) }
      | GroupMerge left right \<Rightarrow> do { m \<leftarrow> merge_compaction_group infos left right m; Some (m, False) }
      | IntraLevel d \<Rightarrow>
          do { ls \<leftarrow> bt_get m g;
               if is_commit_epoch then
                 if ild_removed_table_ids d \<noteq> [] \<or> ild_level_idx d \<noteq> 0 then None
                 else if ild_inserted_table_infos d = [] then Some (m, False)
                 else do { ls \<leftarrow> with_l0 ls (\<lambda>l0. insert_new_sub_level l0 (ild_l0_sub_level_id d) Overlapping
                                    (ild_inserted_table_infos d) None);
                           Some (bt_insert g ls m, False) }
               else do { ls \<leftarrow> apply_compact_ssts ls d (compaction_group_member_table_ids infos g);
                         Some (bt_insert g ls m, ild_level_idx d = 0) } }
      | NewL0SubLevel ssts \<Rightarrow>
          do { ls \<leftarrow> bt_get m g;
               if \<not> is_commit_epoch then None
               else if ssts = [] then Some (m, False)
               else do { let next_id = (case rev (l0_sub_levels (lvs_l0 ls)) of [] \<Rightarrow> 1
                                        | l # _ \<Rightarrow> lvl_sub_level_id l + 1);
                         ls \<leftarrow> with_l0 ls (\<lambda>l0. insert_new_sub_level l0 next_id Overlapping ssts None);
                         Some (bt_insert g ls m, False) } }
      | GroupDestroy \<Rightarrow> Some (bt_remove g m, False))"

fun apply_group_delta_list ::
    "bool \<Rightarrow> version_state_table_info \<Rightarrow> u64 \<Rightarrow> group_delta list \<Rightarrow> bool \<Rightarrow> (u64, levels) btree \<Rightarrow>
       ((u64, levels) btree \<times> bool) option" where
  "apply_group_delta_list is_commit_epoch infos g [] compacted m = Some (m, compacted)"
| "apply_group_delta_list is_commit_epoch infos g (d # ds) compacted m =
     do { (m, c) \<leftarrow> apply_group_delta is_commit_epoch infos g d m;
          apply_group_delta_list is_commit_epoch infos g ds (compacted \<or> c) m }"

fun apply_group_deltas ::
    "bool \<Rightarrow> version_state_table_info \<Rightarrow> (u64 \<times> group_delta list) list \<Rightarrow> (u64, levels) btree \<Rightarrow> (u64, levels) btree option" where
  "apply_group_deltas is_commit_epoch infos [] m = Some m"
| "apply_group_deltas is_commit_epoch infos ((g, ds) # rest) m =
     do { (m, compacted) \<leftarrow> apply_group_delta_list is_commit_epoch infos g ds False m;
          let m = (case bt_get m g of
                     Some ls \<Rightarrow> if compacted then bt_insert g (post_apply_l0_compact ls) m else m
                   | None \<Rightarrow> m);
          apply_group_deltas is_commit_epoch infos rest m }"

section \<open>Applying a delta to the watermarks\<close>

type_synonym modified_watermarks = "(table_id, table_watermarks option) btree"

fun modify_watermarks ::
    "(table_id, table_watermarks) btree \<Rightarrow> table_id list \<Rightarrow> (table_id \<times> table_watermarks) list \<Rightarrow>
       modified_watermarks \<Rightarrow> modified_watermarks option" where
  "modify_watermarks current removed [] modified = Some modified"
| "modify_watermarks current removed ((t, w) # rest) modified =
     (case bt_get current t of
        Some cur \<Rightarrow>
          if t \<in> set removed then modify_watermarks current removed rest (bt_insert t None modified)
          else do { w' \<leftarrow> apply_new_table_watermarks cur w;
                    modify_watermarks current removed rest (bt_insert t (Some w') modified) }
      | None \<Rightarrow> modify_watermarks current removed rest (bt_insert t (Some w) modified))"

fun clear_watermarks ::
    "(table_id, state_table_info) btree \<Rightarrow> (table_id \<times> table_watermarks) list \<Rightarrow> modified_watermarks \<Rightarrow>
       modified_watermarks option" where
  "clear_watermarks infos [] modified = Some modified"
| "clear_watermarks infos ((t, w) # rest) modified =
     (case (bt_get infos t, tw_watermarks w) of
        (Some info, (oldest_epoch, _) # _) \<Rightarrow>
          if sti_committed_epoch info > oldest_epoch then
            (let entry = (case bt_get modified t of None \<Rightarrow> Some w | Some e \<Rightarrow> e) in
             case entry of
               None \<Rightarrow> clear_watermarks infos rest (bt_insert t entry modified)
             | Some w' \<Rightarrow>
                 do { w' \<leftarrow> clear_stale_epoch_watermark w' (sti_committed_epoch info);
                      clear_watermarks infos rest (bt_insert t (Some w') modified) })
          else clear_watermarks infos rest modified
      | _ \<Rightarrow> clear_watermarks infos rest modified)"

fun store_watermarks ::
    "(table_id \<times> table_watermarks option) list \<Rightarrow> (table_id, table_watermarks) btree \<Rightarrow> (table_id, table_watermarks) btree" where
  "store_watermarks [] m = m"
| "store_watermarks ((t, w) # rest) m =
     store_watermarks rest (case w of Some w \<Rightarrow> bt_insert t w m | None \<Rightarrow> bt_remove t m)"

definition apply_watermarks ::
    "(table_id, table_watermarks) btree \<Rightarrow> (table_id, state_table_info) btree \<Rightarrow> version_delta \<Rightarrow>
       (table_id, table_watermarks) btree option" where
  "apply_watermarks current infos d =
     do { modified \<leftarrow> modify_watermarks current (vd_removed_table_ids d) (vd_new_table_watermarks d) [];
          modified \<leftarrow> clear_watermarks infos current modified;
          Some (store_watermarks modified current) }"

section \<open>Applying a delta to a version\<close>

definition apply_version_delta :: "hummock_version \<Rightarrow> version_delta \<Rightarrow> hummock_version option" where
  "apply_version_delta v d =
     (if ver_id v \<noteq> vd_prev_id d then None
      else do {
        (infos, changed, bumped) \<leftarrow>
          vsti_apply_delta (ver_state_table_info v) (vd_state_table_info_delta d) (vd_removed_table_ids d);
        let is_commit_epoch = (bumped \<or> ver_max_committed_epoch v < vd_max_committed_epoch d);
        groups \<leftarrow> apply_group_deltas is_commit_epoch infos (vd_group_deltas d) (ver_levels v);
        watermarks \<leftarrow> apply_watermarks (ver_table_watermarks v) (vsti_info infos) d;
        logs \<leftarrow> apply_change_log_delta (ver_table_change_log v) (vd_change_log_delta d)
          (vd_removed_table_ids d) (vd_state_table_info_delta d) changed;
        Some \<lparr>ver_id = vd_id d, ver_levels = groups, ver_max_committed_epoch = vd_max_committed_epoch d,
              ver_table_watermarks = watermarks, ver_table_change_log = logs, ver_state_table_info = infos\<rparr> })"

section \<open>The invariant of a version\<close>

text \<open>
  \<open>n\<close> gives the number of virtual nodes of each table. Every group has the shape of a group, the
  index of the state tables agrees with them, watermarks and change logs are well formed, and all
  SSTables are of objects in \<open>X\<close>.
\<close>

definition groups_ok :: "u64 set \<Rightarrow> (u64, levels) btree \<Rightarrow> bool" where
  "groups_ok X m = (bt_ok m \<and> (\<forall>g ls. bt_get m g = Some ls \<longrightarrow> levels_shape X ls))"

definition watermarks_ok :: "(table_id \<Rightarrow> nat) \<Rightarrow> (table_id, table_watermarks) btree \<Rightarrow> bool" where
  "watermarks_ok n m = (bt_ok m \<and> (\<forall>t w. bt_get m t = Some w \<longrightarrow> tw_ok (n t) w))"

definition batch_in :: "u64 set \<Rightarrow> sstable_info epoch_new_change_log \<Rightarrow> bool" where
  "batch_in X l = (\<forall>s \<in> set (cl_old_value l @ cl_new_value l). sst_object_id s \<in> X)"

definition logs_in :: "u64 set \<Rightarrow> (table_id, sstable_info table_change_log) btree \<Rightarrow> bool" where
  "logs_in X m = (\<forall>t logs. bt_get m t = Some logs \<longrightarrow> (\<forall>l \<in> set logs. batch_in X l))"

definition version_inv :: "(table_id \<Rightarrow> nat) \<Rightarrow> u64 set \<Rightarrow> hummock_version \<Rightarrow> bool" where
  "version_inv n X v = (groups_ok X (ver_levels v) \<and> vsti_inv (ver_state_table_info v)
     \<and> watermarks_ok n (ver_table_watermarks v) \<and> logs_ok (ver_table_change_log v)
     \<and> logs_in X (ver_table_change_log v))"

text \<open>A well-formed delta: well-formed tables, proper split keys, watermarks and batches of epochs.\<close>

fun group_delta_ok :: "u64 set \<Rightarrow> group_delta \<Rightarrow> bool" where
  "group_delta_ok X (NewL0SubLevel ssts) = (\<forall>s \<in> set ssts. sst_good X s)"
| "group_delta_ok X (IntraLevel d) = (\<forall>s \<in> set (ild_inserted_table_infos d). sst_good X s)"
| "group_delta_ok X (GroupConstruct gc) = (\<forall>k. gc_split_key gc = Some k \<longrightarrow> (\<exists>t. is_split_key k t))"
| "group_delta_ok X _ = True"

definition delta_ok :: "(table_id \<Rightarrow> nat) \<Rightarrow> u64 set \<Rightarrow> version_delta \<Rightarrow> bool" where
  "delta_ok n X d = ((\<forall>(g, ds) \<in> set (vd_group_deltas d). \<forall>x \<in> set ds. group_delta_ok X x)
     \<and> distinct (map fst (vd_state_table_info_delta d)) \<and> distinct (vd_removed_table_ids d)
     \<and> distinct (map fst (vd_new_table_watermarks d))
     \<and> (\<forall>(t, w) \<in> set (vd_new_table_watermarks d). tw_ok (n t) w)
     \<and> deltas_ok (vd_change_log_delta d)
     \<and> (\<forall>(t, x) \<in> set (vd_change_log_delta d). \<forall>l. cld_new_log x = Some l \<longrightarrow> batch_in X l))"

lemma groups_ok_insert: "groups_ok X m \<Longrightarrow> levels_shape X ls \<Longrightarrow> groups_ok X (bt_insert g ls m)"
  by (auto simp: groups_ok_def btree_simps)

lemma groups_ok_remove: "groups_ok X m \<Longrightarrow> groups_ok X (bt_remove g m)"
  by (auto simp: groups_ok_def btree_simps bt_remove_ok)

lemma build_initial_shape: "levels_shape X (build_initial_compaction_group_levels g n)"
  by (auto simp: levels_shape_def subs_shape_def base_shape_def level_shape_def level_ok_def
      build_initial_compaction_group_levels_def)

lemma build_initial_l0: "l0_sub_levels (lvs_l0 (build_initial_compaction_group_levels g n)) = []"
  by (simp add: build_initial_compaction_group_levels_def)

lemma levels_shape_ids [simp]:
  "levels_shape X (ls\<lparr>lvs_parent_group_id := p, lvs_member_table_ids := t\<rparr>) = levels_shape X ls"
  by (simp add: levels_shape_def)

lemma init_group_ok:
  assumes "groups_ok X m" and "bt_get m g = Some c" and "l0_sub_levels (lvs_l0 c) = []"
  shows "init_with_parent_group m p g members i = Some m' \<Longrightarrow> groups_ok X m'"
    and "\<forall>k. key = Some k \<longrightarrow> (\<exists>t. is_split_key k t) \<Longrightarrow>
      init_with_parent_group_v2 m p g i key = Some m' \<Longrightarrow> groups_ok X m'"
proof -
  have c: "levels_shape X c" using assms(1,2) by (auto simp: groups_ok_def)
  show "groups_ok X m'" if run: "init_with_parent_group m p g members i = Some m'"
  proof (cases "p = 0")
    case False
    then obtain par p' c' j where s: "bt_get m p = Some par" "split_levels_by_members members par c i = Some (p', c', j)"
      "m' = bt_insert g c' (bt_insert p p' m)"
      using run assms(2) by (auto simp: init_with_parent_group_def split: if_splits Option.bind_splits)
    have "levels_shape X par" using assms(1) s(1) by (auto simp: groups_ok_def)
    from split_levels_shape(2) [OF this c assms(3) _ s(2), of None] show ?thesis
      using assms(1) s(3) groups_ok_insert by simp
  qed (use run assms(1) in \<open>simp add: init_with_parent_group_def\<close>)
  show "groups_ok X m'" if key: "\<forall>k. key = Some k \<longrightarrow> (\<exists>t. is_split_key k t)"
    and run: "init_with_parent_group_v2 m p g i key = Some m'"
  proof (cases "p = 0")
    case False
    then obtain par p' c' j where s: "bt_get m p = Some par" "split_levels_at key par c i = Some (p', c', j)"
      "m' = bt_insert g c' (bt_insert p p' m)"
      using run assms(2) by (auto simp: init_with_parent_group_v2_def split: if_splits Option.bind_splits)
    have "levels_shape X par" using assms(1) s(1) by (auto simp: groups_ok_def)
    from split_levels_shape(1) [OF this c assms(3) key s(2)] show ?thesis
      using assms(1) s(3) groups_ok_insert by simp
  qed (use run assms(1) in \<open>simp add: init_with_parent_group_v2_def\<close>)
qed

lemma construct_group_ok:
  assumes "groups_ok X m" and "group_delta_ok X (GroupConstruct gc)" and "construct_group infos g gc m = Some m'"
  shows "groups_ok X m'"
proof -
  obtain config where config: "gc_group_config gc = Some config"
    using assms(3) by (auto simp: construct_group_def split: Option.bind_splits)
  define new where "new = (build_initial_compaction_group_levels g (unat (cc_max_level config)))
      \<lparr>lvs_parent_group_id := gc_parent_group_id gc, lvs_member_table_ids := gc_table_ids gc\<rparr>"
  have new: "levels_shape X new" "l0_sub_levels (lvs_l0 new) = []"
    using build_initial_shape build_initial_l0 by (simp_all add: new_def)
  have ok: "groups_ok X (bt_insert g new m)" "bt_get (bt_insert g new m) g = Some new"
    using groups_ok_insert [OF assms(1) new(1)] by (simp_all add: btree_simps)
  show ?thesis using assms(2,3) init_group_ok [OF ok new(2)] config
    by (auto simp: construct_group_def Let_def simp flip: new_def split: if_splits)
qed

lemma with_l0_shape:
  assumes "with_l0 ls (\<lambda>l0. insert_new_sub_level l0 i Overlapping ssts None) = Some ls'"
    and "levels_shape X ls" and "\<forall>s \<in> set ssts. sst_good X s"
  shows "levels_shape X ls'"
  using assms insert_new_sub_level_shape [of X "lvs_l0 ls" ssts Overlapping i]
  by (auto simp: with_l0_def levels_shape_def split: Option.bind_splits)

lemma apply_group_delta_ok:
  assumes "groups_ok X m" and "group_delta_ok X d" and "apply_group_delta commit infos g d m = Some (m', c)"
  shows "groups_ok X m'"
proof (cases d)
  case (NewL0SubLevel ssts)
  then obtain ls where ls: "bt_get m g = Some ls" using assms(3) by (auto simp: apply_group_delta_def split: Option.bind_splits)
  then have shape: "levels_shape X ls" using assms(1) by (auto simp: groups_ok_def)
  show ?thesis using assms(1-3) NewL0SubLevel ls with_l0_shape [OF _ shape] groups_ok_insert [OF assms(1)]
    by (auto simp: apply_group_delta_def Let_def split: Option.bind_splits if_splits)
next
  case (IntraLevel x)
  then obtain ls where ls: "bt_get m g = Some ls" using assms(3) by (auto simp: apply_group_delta_def split: Option.bind_splits)
  then have shape: "levels_shape X ls" using assms(1) by (auto simp: groups_ok_def)
  have good: "\<forall>s \<in> set (ild_inserted_table_infos x). sst_good X s" using assms(2) IntraLevel by simp
  show ?thesis using assms(1,3) IntraLevel ls with_l0_shape [OF _ shape good] groups_ok_insert [OF assms(1)]
      apply_compact_ssts_shape [OF shape good]
    by (auto simp: apply_group_delta_def split: Option.bind_splits if_splits)
next
  case (GroupConstruct gc)
  then show ?thesis using assms construct_group_ok [OF assms(1), of gc infos g]
    by (auto simp: apply_group_delta_def split: Option.bind_splits)
next
  case GroupDestroy
  then show ?thesis using assms groups_ok_remove by (auto simp: apply_group_delta_def)
next
  case (GroupMerge left right)
  then obtain r l x where r: "bt_get m right = Some r" "bt_get (bt_remove right m) left = Some l" "merge_levels l r = Some x"
    "m' = bt_insert left x (bt_remove right m)"
    using assms(3) by (auto simp: apply_group_delta_def merge_compaction_group_def Let_def split: Option.bind_splits if_splits)
  have "levels_shape X l" "levels_shape X r"
    using groups_ok_remove [OF assms(1), of right] assms(1) r(1,2) by (auto simp: groups_ok_def)
  from merge_levels_shape [OF r(3) this] show ?thesis using groups_ok_insert groups_ok_remove assms(1) r(4) by simp
qed

lemma apply_group_delta_list_ok:
  assumes "groups_ok X m" and "\<forall>d \<in> set ds. group_delta_ok X d" and "apply_group_delta_list commit infos g ds c m = Some (m', c')"
  shows "groups_ok X m'"
  using assms
proof (induction ds arbitrary: m c)
  case (Cons d ds)
  then obtain m1 c1 where s: "apply_group_delta commit infos g d m = Some (m1, c1)"
    "apply_group_delta_list commit infos g ds (c \<or> c1) m1 = Some (m', c')" by (auto split: Option.bind_splits)
  have "groups_ok X m1" using apply_group_delta_ok [OF Cons.prems(1) _ s(1)] Cons.prems(2) by simp
  from Cons.IH [OF this _ s(2)] Cons.prems(2) show ?case by simp
qed simp

lemma apply_group_deltas_ok:
  assumes "groups_ok X m" and "\<forall>(g, ds) \<in> set gds. \<forall>d \<in> set ds. group_delta_ok X d"
    and "apply_group_deltas commit infos gds m = Some m'"
  shows "groups_ok X m'"
  using assms
proof (induction gds arbitrary: m)
  case (Cons x gds)
  obtain g ds where x: "x = (g, ds)" by (cases x)
  obtain m1 c where s: "apply_group_delta_list commit infos g ds False m = Some (m1, c)"
    using Cons.prems(3) by (auto simp: x split: Option.bind_splits)
  define m2 where "m2 = (case bt_get m1 g of Some ls \<Rightarrow> if c then bt_insert g (post_apply_l0_compact ls) m1 else m1 | None \<Rightarrow> m1)"
  have m1: "groups_ok X m1" using apply_group_delta_list_ok [OF Cons.prems(1) _ s] Cons.prems(2) by (simp add: x)
  then have "groups_ok X m2" using groups_ok_insert [OF m1 post_apply_shape]
    by (auto simp: m2_def groups_ok_def split: option.splits)
  moreover have "apply_group_deltas commit infos gds m2 = Some m'" using Cons.prems(3) s by (simp add: x m2_def)
  ultimately show ?case using Cons.IH Cons.prems(2) by simp
qed simp


section \<open>Watermarks\<close>

lemma apply_new_table_watermarks_ok:
  assumes "apply_new_table_watermarks t new = Some t'" and "tw_ok n t" and "tw_ok n new"
  shows "tw_ok n t'"
proof -
  have t': "t' = t\<lparr>tw_watermarks := tw_watermarks t @ tw_watermarks new\<rparr>"
    and lt: "tw_watermarks t = [] \<or> tw_watermarks new = [] \<or> fst (last (tw_watermarks t)) < fst (hd (tw_watermarks new))"
    using assms(1) by (auto simp: apply_new_table_watermarks_def split: if_splits)
  have "fst x < fst y" if x: "x \<in> set (tw_watermarks t)" and y: "y \<in> set (tw_watermarks new)" for x y
  proof -
    have "fst x \<le> fst (last (tw_watermarks t))"
      using assms(2) x by (cases "tw_watermarks t" rule: rev_cases) (auto simp: tw_ok_def sorted_wrt_append)
    also have "\<dots> < fst (hd (tw_watermarks new))" using lt x y by auto
    also have "\<dots> \<le> fst y" using assms(3) y by (cases "tw_watermarks new") (auto simp: tw_ok_def)
    finally show ?thesis .
  qed
  with assms(2,3) show ?thesis by (auto simp: t' tw_ok_def epochs_ok_def sorted_wrt_append)
qed

definition modified_ok :: "(table_id \<Rightarrow> nat) \<Rightarrow> modified_watermarks \<Rightarrow> bool" where
  "modified_ok n m = (bt_ok m \<and> (\<forall>t w. bt_get m t = Some (Some w) \<longrightarrow> tw_ok (n t) w))"

lemma modified_ok_insert:
  "modified_ok n m \<Longrightarrow> (\<forall>x. w = Some x \<longrightarrow> tw_ok (n t) x) \<Longrightarrow> modified_ok n (bt_insert t w m)"
  by (auto simp: modified_ok_def btree_simps)

lemma modify_watermarks_ok:
  assumes "modify_watermarks cur removed ws m = Some m'" and "watermarks_ok n cur"
    and "\<forall>(t, w) \<in> set ws. tw_ok (n t) w" and "modified_ok n m"
  shows "modified_ok n m'"
  using assms
proof (induction ws arbitrary: m)
  case (Cons x rest)
  obtain t w where x: "x = (t, w)" by (cases x)
  have w: "tw_ok (n t) w" "\<forall>(t, w) \<in> set rest. tw_ok (n t) w" using Cons.prems(3) by (simp_all add: x)
  note IH = Cons.IH [OF _ Cons.prems(2) w(2)]
  show ?case
  proof (cases "bt_get cur t")
    case None
    then show ?thesis using IH Cons.prems(1,4) w(1) modified_ok_insert [of n m "Some w" t] by (simp add: x)
  next
    case (Some c)
    have c: "tw_ok (n t) c" using Cons.prems(2) Some by (auto simp: watermarks_ok_def)
    show ?thesis
    proof (cases "t \<in> set removed")
      case True
      then show ?thesis using Some IH Cons.prems(1,4) modified_ok_insert [of n m None t] by (simp add: x)
    next
      case False
      then obtain w' where w': "apply_new_table_watermarks c w = Some w'"
        using Cons.prems(1) Some by (auto simp: x split: Option.bind_splits)
      have "tw_ok (n t) w'" using apply_new_table_watermarks_ok [OF w' c w(1)] .
      then show ?thesis using Some False w' IH Cons.prems(1,4) modified_ok_insert [of n m "Some w'" t] by (simp add: x)
    qed
  qed
qed simp

lemma clear_watermarks_ok:
  assumes "clear_watermarks infos ws m = Some m'" and "\<forall>(t, w) \<in> set ws. tw_ok (n t) w" and "modified_ok n m"
    and "\<forall>t. n t \<le> 2 ^ 16"
  shows "modified_ok n m'"
  using assms
proof (induction ws arbitrary: m)
  case (Cons x rest)
  obtain t w where x: "x = (t, w)" by (cases x)
  have w: "tw_ok (n t) w" "\<forall>(t, w) \<in> set rest. tw_ok (n t) w" using Cons.prems(2) by (simp_all add: x)
  note IH = Cons.IH [OF _ w(2) _ Cons.prems(4)]
  show ?case
  proof (cases "\<exists>info e ws' es. bt_get infos t = Some info \<and> tw_watermarks w = (e, ws') # es \<and> sti_committed_epoch info > e")
    case False
    then show ?thesis using IH Cons.prems(1,3) by (auto simp: x split: option.splits list.splits if_splits)
  next
    case True
    then obtain info e ws' es where i: "bt_get infos t = Some info" "tw_watermarks w = (e, ws') # es" "sti_committed_epoch info > e" by blast
    define entry where "entry = (case bt_get m t of None \<Rightarrow> Some w | Some e \<Rightarrow> e)"
    show ?thesis
    proof (cases entry)
      case None
      have "modified_ok n (bt_insert t None m)" using modified_ok_insert [OF Cons.prems(3)] by simp
      moreover have "clear_watermarks infos rest (bt_insert t None m) = Some m'"
        using Cons.prems(1) i None by (simp add: x entry_def [symmetric] Let_def)
      ultimately show ?thesis using IH by blast
    next
      case (Some w0)
      have w0: "tw_ok (n t) w0" using Some w(1) Cons.prems(3) by (auto simp: entry_def modified_ok_def split: option.splits)
      obtain w1 where w1: "clear_stale_epoch_watermark w0 (sti_committed_epoch info) = Some w1" "tw_ok (n t) w1"
        using clear_stale_correct [OF w0, of "sti_committed_epoch info"] Cons.prems(4) by blast
      have "modified_ok n (bt_insert t (Some w1) m)" using modified_ok_insert [OF Cons.prems(3)] w1(2) by simp
      moreover have "clear_watermarks infos rest (bt_insert t (Some w1) m) = Some m'"
        using Cons.prems(1) i Some w1(1) by (simp add: x entry_def [symmetric] Let_def)
      ultimately show ?thesis using IH by blast
    qed
  qed
qed simp

lemma store_watermarks_ok:
  assumes "\<forall>(t, w) \<in> set ws. \<forall>x. w = Some x \<longrightarrow> tw_ok (n t) x" and "watermarks_ok n m"
  shows "watermarks_ok n (store_watermarks ws m)"
  using assms
proof (induction ws m rule: store_watermarks.induct)
  case (2 t w rest m)
  have "watermarks_ok n (case w of Some w \<Rightarrow> bt_insert t w m | None \<Rightarrow> bt_remove t m)"
    using 2(2,3) by (auto simp: watermarks_ok_def btree_simps bt_remove_ok split: option.splits)
  with 2 show ?case by simp
qed simp

lemma apply_watermarks_ok:
  assumes "apply_watermarks cur infos d = Some cur'" and "watermarks_ok n cur" and "\<forall>t. n t \<le> 2 ^ 16"
    and "\<forall>(t, w) \<in> set (vd_new_table_watermarks d). tw_ok (n t) w"
  shows "watermarks_ok n cur'"
proof -
  obtain m1 m2 where m: "modify_watermarks cur (vd_removed_table_ids d) (vd_new_table_watermarks d) [] = Some m1"
    "clear_watermarks infos cur m1 = Some m2" "cur' = store_watermarks m2 cur"
    using assms(1) by (auto simp: apply_watermarks_def split: Option.bind_splits)
  have "modified_ok n m1" by (rule modify_watermarks_ok [OF m(1) assms(2,4)]) (simp add: modified_ok_def bt_get_def)
  moreover have "\<forall>(t, w) \<in> set cur. tw_ok (n t) w" using assms(2) bt_get_iff [of cur] by (auto simp: watermarks_ok_def)
  ultimately have m2: "modified_ok n m2" by (intro clear_watermarks_ok [OF m(2) _ _ assms(3)])
  then have "\<forall>(t, w) \<in> set m2. \<forall>x. w = Some x \<longrightarrow> tw_ok (n t) x"
    using bt_get_iff [of m2] by (auto simp: modified_ok_def)
  then show ?thesis unfolding m(3) by (rule store_watermarks_ok [OF _ assms(2)])
qed

lemma truncated_values:
  "b \<in> set (truncated e logs) \<Longrightarrow> \<exists>b' \<in> set logs. cl_new_value b = cl_new_value b' \<and> cl_old_value b = cl_old_value b'"
  by (cases "filter (\<lambda>l. e < last (cl_epochs l)) logs") (auto simp: truncated_def filter_eq_Cons_iff)

lemma apply_logs_in:
  assumes "logs_ok m" and "deltas_ok ds" and "logs_in X m"
    and "\<forall>(t, x) \<in> set ds. \<forall>l. cld_new_log x = Some l \<longrightarrow> batch_in X l"
    and "apply_change_log_delta m ds removed infos changed = Some m'"
  shows "logs_in X m'"
  unfolding logs_in_def
proof (intro allI impI ballI)
  fix t logs b assume t: "bt_get m' t = Some logs" and b: "b \<in> set logs"
  have after: "log_after m ds t = Some logs"
    using apply_change_log_delta_correct [OF assms(1,2), of removed infos changed] assms(5) t by (auto split: if_splits)
  have old: "batch_in X c" if "bt_get m t = Some ls" "c \<in> set ls" for ls c using assms(3) that by (auto simp: logs_in_def)
  show "batch_in X b"
  proof (cases "map_of ds t")
    case None
    then show ?thesis using after b old by (simp add: log_after_def)
  next
    case (Some d)
    have new: "batch_in X l" if "cld_new_log d = Some l" for l using assms(4) map_of_SomeD [OF Some] that by auto
    from Some after obtain ls where ls: "appended (bt_get m t) (Some d) = Some ls" "logs = truncated (cld_truncate_epoch d) ls"
      by (auto simp: log_after_def)
    from truncated_values [of b] b ls(2) obtain b' where b': "b' \<in> set ls" "cl_new_value b = cl_new_value b'" "cl_old_value b = cl_old_value b'"
      by blast
    have "batch_in X b'" using ls(1) b'(1) old new by (auto simp: appended_def split: option.splits)
    with b'(2,3) show ?thesis by (simp add: batch_in_def)
  qed
qed

section \<open>Every reachable version is well formed\<close>

lemma apply_version_delta_ok:
  assumes "version_inv n X v" and "delta_ok n X d" and "\<forall>t. n t \<le> 2 ^ 16" and "apply_version_delta v d = Some v'"
  shows "version_inv n X v' \<and> ver_id v = vd_prev_id d \<and> ver_id v' = vd_id d"
proof -
  obtain infos changed bumped groups ws logs where
    I: "vsti_apply_delta (ver_state_table_info v) (vd_state_table_info_delta d) (vd_removed_table_ids d) = Some (infos, changed, bumped)"
    and G: "apply_group_deltas (bumped \<or> ver_max_committed_epoch v < vd_max_committed_epoch d) infos (vd_group_deltas d) (ver_levels v) = Some groups"
    and W: "apply_watermarks (ver_table_watermarks v) (vsti_info infos) d = Some ws"
    and L: "apply_change_log_delta (ver_table_change_log v) (vd_change_log_delta d)
          (vd_removed_table_ids d) (vd_state_table_info_delta d) changed = Some logs"
    and v': "v' = \<lparr>ver_id = vd_id d, ver_levels = groups, ver_max_committed_epoch = vd_max_committed_epoch d,
              ver_table_watermarks = ws, ver_table_change_log = logs, ver_state_table_info = infos\<rparr>"
    and id: "ver_id v = vd_prev_id d"
    using assms(4) by (auto simp: apply_version_delta_def Let_def split: Option.bind_splits if_splits)
  have inv: "groups_ok X (ver_levels v)" "vsti_inv (ver_state_table_info v)" "watermarks_ok n (ver_table_watermarks v)"
    "logs_ok (ver_table_change_log v)" "logs_in X (ver_table_change_log v)" using assms(1) by (simp_all add: version_inv_def)
  have d: "\<forall>(g, ds) \<in> set (vd_group_deltas d). \<forall>x \<in> set ds. group_delta_ok X x"
    "distinct (map fst (vd_state_table_info_delta d))" "distinct (vd_removed_table_ids d)"
    "\<forall>(t, w) \<in> set (vd_new_table_watermarks d). tw_ok (n t) w" "deltas_ok (vd_change_log_delta d)"
    "\<forall>(t, x) \<in> set (vd_change_log_delta d). \<forall>l. cld_new_log x = Some l \<longrightarrow> batch_in X l"
    using assms(2) by (simp_all add: delta_ok_def)
  have "groups_ok X groups" by (rule apply_group_deltas_ok [OF inv(1) d(1) G])
  moreover have "vsti_inv infos"
    using vsti_apply_delta_correct [of "ver_state_table_info v", OF _ _ d(2,3)] inv(2) I by (simp add: vsti_inv_iff)
  moreover have "watermarks_ok n ws" by (rule apply_watermarks_ok [OF W inv(3) assms(3) d(4)])
  moreover have "logs_ok logs" "logs_in X logs"
    using apply_change_log_delta_correct [OF inv(4) d(5), of "vd_removed_table_ids d" "vd_state_table_info_delta d" changed] L
      apply_logs_in [OF inv(4) d(5) inv(5) d(6) L] by simp_all
  ultimately show ?thesis using id by (simp add: version_inv_def v')
qed

lemma create_init_version_inv: "version_inv n X (create_init_version config)"
proof -
  have "groups_ok X (ver_levels (create_init_version config))"
    by (simp add: create_init_version_def groups_ok_def bt_get_def build_initial_shape)
  then show ?thesis
    by (simp add: version_inv_def create_init_version_def watermarks_ok_def logs_ok_def logs_in_def bt_get_def vsti_inv_iff vsti_empty_def
        build_compaction_group_member_tables_def)
qed

inductive version_reach :: "(table_id \<Rightarrow> nat) \<Rightarrow> hummock_version \<Rightarrow> bool" for n where
  init: "version_reach n (create_init_version config)"
| step: "version_reach n v \<Longrightarrow> delta_ok n UNIV d \<Longrightarrow> apply_version_delta v d = Some v' \<Longrightarrow> version_reach n v'"

section \<open>The SSTables of a version\<close>

definition get_combined_levels :: "hummock_version \<Rightarrow> level list" where
  "get_combined_levels v =
     concat (map (\<lambda>(g, ls). rev (l0_sub_levels (lvs_l0 ls)) @ lvs_levels ls) (ver_levels v))"

definition get_sst_infos :: "hummock_version \<Rightarrow> sstable_info list" where
  "get_sst_infos v =
     concat (map lvl_table_infos (get_combined_levels v))
     @ concat (map (\<lambda>(t, logs). concat (map (\<lambda>l. cl_old_value l @ cl_new_value l) logs)) (ver_table_change_log v))"

definition get_object_ids :: "hummock_version \<Rightarrow> u64 set" where
  "get_object_ids v = set (map sst_object_id (get_sst_infos v))"

definition get_sst_ids :: "hummock_version \<Rightarrow> u64 set" where
  "get_sst_ids v = set (map sst_id (get_sst_infos v))"

fun delta_sst_infos :: "group_delta \<Rightarrow> sstable_info list" where
  "delta_sst_infos (NewL0SubLevel ssts) = ssts"
| "delta_sst_infos (IntraLevel d) = ild_inserted_table_infos d"
| "delta_sst_infos _ = []"

text \<open>\<open>delta.new_log.as_ref().unwrap()\<close> panics when a change-log delta has no new log.\<close>

definition newly_added_sst_infos :: "version_delta \<Rightarrow> sstable_info list option" where
  "newly_added_sst_infos d =
     do { logs \<leftarrow> map_opt (\<lambda>(t, x). cld_new_log x) (vd_change_log_delta d);
          Some (concat (map (\<lambda>(g, ds). concat (map delta_sst_infos ds)) (vd_group_deltas d))
                @ concat (map (\<lambda>l. cl_new_value l @ cl_old_value l) logs)) }"

definition newly_added_object_ids :: "version_delta \<Rightarrow> u64 set option" where
  "newly_added_object_ids d = map_option (\<lambda>ssts. set (map sst_object_id ssts)) (newly_added_sst_infos d)"

definition newly_added_sst_ids :: "version_delta \<Rightarrow> u64 set option" where
  "newly_added_sst_ids d = map_option (\<lambda>ssts. set (map sst_id ssts)) (newly_added_sst_infos d)"

lemma level_shape_objects:
  "level_shape X l \<longleftrightarrow> level_shape UNIV l \<and> sst_object_id ` set (lvl_table_infos l) \<subseteq> X"
  by (auto simp: level_shape_def sst_good_def)

lemma levels_shape_objects:
  "levels_shape X ls \<longleftrightarrow> levels_shape UNIV ls
     \<and> (\<forall>l \<in> set (l0_sub_levels (lvs_l0 ls) @ lvs_levels ls). sst_object_id ` set (lvl_table_infos l) \<subseteq> X)"
  unfolding levels_shape_def subs_shape_def base_shape_def level_shape_objects [of X]
  by (simp add: ball_Un all_set_conv_all_nth [of "lvs_levels ls"]) blast

lemma get_object_ids_subset:
  "get_object_ids v \<subseteq> X \<longleftrightarrow>
     (\<forall>(g, ls) \<in> set (ver_levels v). \<forall>l \<in> set (l0_sub_levels (lvs_l0 ls) @ lvs_levels ls).
        sst_object_id ` set (lvl_table_infos l) \<subseteq> X)
     \<and> (\<forall>(t, logs) \<in> set (ver_table_change_log v). \<forall>l \<in> set logs. batch_in X l)"
  unfolding get_object_ids_def get_sst_infos_def get_combined_levels_def batch_in_def
  by (simp add: image_Un image_UN UN_subset_iff Ball_def image_subset_iff) blast

lemma version_inv_objects:
  "version_inv n X v \<longleftrightarrow> version_inv n UNIV v \<and> get_object_ids v \<subseteq> X"
proof -
  have g: "groups_ok X (ver_levels v) \<longleftrightarrow> groups_ok UNIV (ver_levels v)
      \<and> (\<forall>(g, ls) \<in> set (ver_levels v). \<forall>l \<in> set (l0_sub_levels (lvs_l0 ls) @ lvs_levels ls).
            sst_object_id ` set (lvl_table_infos l) \<subseteq> X)"
  proof (cases "bt_ok (ver_levels v)")
    case True
    then show ?thesis unfolding groups_ok_def levels_shape_objects [of X] bt_get_iff [OF True] by fast
  qed (simp add: groups_ok_def)
  have l: "logs_ok (ver_table_change_log v) \<and> logs_in X (ver_table_change_log v) \<longleftrightarrow>
      logs_ok (ver_table_change_log v) \<and> (\<forall>(t, logs) \<in> set (ver_table_change_log v). \<forall>l \<in> set logs. batch_in X l)"
  proof (cases "bt_ok (ver_table_change_log v)")
    case True
    then show ?thesis unfolding logs_in_def bt_get_iff [OF True] by fast
  qed (simp add: logs_ok_def)
  have u: "logs_in UNIV (ver_table_change_log v)" by (simp add: logs_in_def batch_in_def)
  show ?thesis unfolding version_inv_def get_object_ids_subset g using l u by blast
qed

lemma delta_ok_objects:
  assumes "delta_ok n UNIV d" and "newly_added_object_ids d = Some new" and "new \<subseteq> X"
  shows "delta_ok n X d"
proof -
  obtain logs where logs: "map_opt (\<lambda>(t, x). cld_new_log x) (vd_change_log_delta d) = Some logs"
    and new: "new = sst_object_id ` set (concat (map (\<lambda>(g, ds). concat (map delta_sst_infos ds)) (vd_group_deltas d))
                @ concat (map (\<lambda>l. cl_new_value l @ cl_old_value l) logs))"
    using assms(2) by (auto simp: newly_added_object_ids_def newly_added_sst_infos_def split: Option.bind_splits)
  have "group_delta_ok X x" if "(g, ds) \<in> set (vd_group_deltas d)" "x \<in> set ds" for g ds x
  proof -
    have "group_delta_ok UNIV x" using assms(1) that by (auto simp: delta_ok_def)
    moreover have "sst_object_id ` set (delta_sst_infos x) \<subseteq> X" using assms(3) that unfolding new by fastforce
    ultimately show ?thesis by (cases x) (auto simp: sst_good_def)
  qed
  moreover have "batch_in X l" if "(t, x) \<in> set (vd_change_log_delta d)" "cld_new_log x = Some l" for t x l
  proof -
    have "l \<in> set logs" using logs that by (force simp: map_opt_eq_Some list_all2_conv_all_nth in_set_conv_nth)
    then show ?thesis using assms(3) unfolding new batch_in_def by fastforce
  qed
  ultimately show ?thesis using assms(1) by (auto simp: delta_ok_def)
qed

lemma newly_added_total:
  assumes "apply_version_delta v d = Some v'"
  shows "\<exists>new. newly_added_object_ids d = Some new"
proof -
  have *: "\<forall>(t, x) \<in> set ds. cld_new_log x \<noteq> None" if "append_new_logs ds m = Some m'" for ds m m'
    using that by (induction ds arbitrary: m) (fastforce split: Option.bind_splits)+
  obtain m m' where "append_new_logs (vd_change_log_delta d) m = Some m'"
    using assms by (auto simp: apply_version_delta_def apply_change_log_delta_def Let_def split: Option.bind_splits if_splits)
  from * [OF this] have "map_opt (\<lambda>(t, x). cld_new_log x) (vd_change_log_delta d) \<noteq> None"
    by (auto simp: map_opt_None)
  then show ?thesis by (auto simp: newly_added_object_ids_def newly_added_sst_infos_def)
qed

section \<open>The effect on the watermarks\<close>

text \<open>The first epoch recorded for a table is before its committed epoch.\<close>

definition stale_watermarks_of :: "(table_id, state_table_info) btree \<Rightarrow> table_id \<Rightarrow> table_watermarks \<Rightarrow> bool" where
  "stale_watermarks_of infos t w =
     (case (bt_get infos t, tw_watermarks w) of
        (Some info, (oldest_epoch, _) # _) \<Rightarrow> sti_committed_epoch info > oldest_epoch
      | _ \<Rightarrow> False)"

definition new_watermarks ::
    "(table_id, table_watermarks) btree \<Rightarrow> version_delta \<Rightarrow> table_id \<Rightarrow> table_watermarks option" where
  "new_watermarks cur d t =
     (case (map_of (vd_new_table_watermarks d) t, bt_get cur t) of
        (None, c) \<Rightarrow> c
      | (Some w, None) \<Rightarrow> Some w
      | (Some w, Some c) \<Rightarrow> if t \<in> set (vd_removed_table_ids d) then None
          else Some (c\<lparr>tw_watermarks := tw_watermarks c @ tw_watermarks w\<rparr>))"

definition watermarks_after ::
    "(table_id, table_watermarks) btree \<Rightarrow> (table_id, state_table_info) btree \<Rightarrow> version_delta \<Rightarrow> table_id \<Rightarrow>
       table_watermarks option" where
  "watermarks_after cur infos d t =
     (case (bt_get cur t, bt_get infos t) of
        (Some c, Some info) \<Rightarrow>
          if stale_watermarks_of infos t c
          then Option.bind (new_watermarks cur d t) (\<lambda>w. clear_stale_epoch_watermark w (sti_committed_epoch info))
          else new_watermarks cur d t
      | _ \<Rightarrow> new_watermarks cur d t)"

lemma modify_watermarks_get:
  assumes "modify_watermarks cur removed ws m = Some m'" and "distinct (map fst ws)" and "bt_ok m"
  shows "bt_ok m' \<and> (\<forall>t. bt_get m' t = (case map_of ws t of None \<Rightarrow> bt_get m t
    | Some w \<Rightarrow> Some (case bt_get cur t of None \<Rightarrow> Some w
        | Some c \<Rightarrow> if t \<in> set removed then None else apply_new_table_watermarks c w)))"
  using assms
proof (induction ws arbitrary: m)
  case (Cons x rest)
  obtain t w where x: "x = (t, w)" by (cases x)
  define e where "e = (case bt_get cur t of None \<Rightarrow> Some w
      | Some c \<Rightarrow> if t \<in> set removed then None else apply_new_table_watermarks c w)"
  have rest: "modify_watermarks cur removed rest (bt_insert t e m) = Some m'"
    using Cons.prems(1) by (auto simp: x e_def split: option.splits if_splits Option.bind_splits)
  have fresh: "map_of rest t = None" "distinct (map fst rest)" using Cons.prems(2) by (simp_all add: x map_of_eq_None_iff)
  from Cons.IH [OF rest fresh(2) bt_insert_ok [OF Cons.prems(3)]] fresh(1) show ?case
    by (auto simp: x e_def bt_get_insert split: option.split)
qed simp

lemma modify_watermarks_None:
  assumes "modify_watermarks cur removed ws m = None"
  shows "\<exists>(t, w) \<in> set ws. \<exists>c. bt_get cur t = Some c \<and> t \<notin> set removed \<and> apply_new_table_watermarks c w = None"
  using assms
proof (induction ws arbitrary: m)
  case (Cons x rest)
  obtain t w where x: "x = (t, w)" by (cases x)
  show ?case
  proof (cases "\<exists>c. bt_get cur t = Some c \<and> t \<notin> set removed \<and> apply_new_table_watermarks c w = None")
    case False
    then obtain m1 where "modify_watermarks cur removed rest m1 = None"
      using Cons.prems by (auto simp: x split: option.splits if_splits Option.bind_splits)
    from Cons.IH [OF this] show ?thesis by auto
  qed (auto simp: x)
qed simp

lemma modify_watermarks_Some:
  assumes "modify_watermarks cur removed ws m = Some m'" and "(t, w) \<in> set ws" and "bt_get cur t = Some c" and "t \<notin> set removed"
  shows "apply_new_table_watermarks c w \<noteq> None"
  using assms
proof (induction ws arbitrary: m)
  case (Cons x ws)
  then show ?case by (cases x) (auto split: option.splits if_splits Option.bind_splits)
qed simp

text \<open>Clearing one table's entry, the body of the second loop.\<close>

definition cleared ::
    "(table_id, state_table_info) btree \<Rightarrow> table_id \<Rightarrow> table_watermarks \<Rightarrow> table_watermarks option option \<Rightarrow>
       table_watermarks option option" where
  "cleared infos t w e =
     (if stale_watermarks_of infos t w then
        Some (Option.bind (case e of None \<Rightarrow> Some w | Some x \<Rightarrow> x)
          (\<lambda>w. case bt_get infos t of None \<Rightarrow> None | Some info \<Rightarrow> clear_stale_epoch_watermark w (sti_committed_epoch info)))
      else e)"

lemma clear_watermarks_get:
  assumes "\<forall>(t, w) \<in> set ws. tw_ok (n t) w" and "modified_ok n m" and "\<forall>t. n t \<le> 2 ^ 16" and "distinct (map fst ws)"
  shows "\<exists>m'. clear_watermarks infos ws m = Some m' \<and> bt_ok m'
    \<and> (\<forall>t. bt_get m' t = (case map_of ws t of None \<Rightarrow> bt_get m t | Some w \<Rightarrow> cleared infos t w (bt_get m t)))"
  using assms
proof (induction ws arbitrary: m)
  case Nil
  then show ?case by (simp add: modified_ok_def)
next
  case (Cons x rest)
  obtain t w where x: "x = (t, w)" by (cases x)
  have w: "tw_ok (n t) w" "\<forall>(t, w) \<in> set rest. tw_ok (n t) w" "distinct (map fst rest)" "map_of rest t = None"
    using Cons.prems(1,4) by (simp_all add: x map_of_eq_None_iff)
  have step: "\<exists>m1. clear_watermarks infos (x # rest) m = clear_watermarks infos rest m1 \<and> modified_ok n m1
      \<and> bt_get m1 = (bt_get m)(t := cleared infos t w (bt_get m t))"
  proof (cases "stale_watermarks_of infos t w")
    case False
    then have "clear_watermarks infos (x # rest) m = clear_watermarks infos rest m"
      by (auto simp: x stale_watermarks_of_def split: option.splits list.splits)
    with False Cons.prems(2) show ?thesis by (intro exI [of _ m]) (simp add: cleared_def)
  next
    case True
    then obtain info e ws' es where i: "bt_get infos t = Some info" "tw_watermarks w = (e, ws') # es" "sti_committed_epoch info > e"
      by (auto simp: stale_watermarks_of_def split: option.splits list.splits)
    define entry where "entry = (case bt_get m t of None \<Rightarrow> Some w | Some e \<Rightarrow> e)"
    show ?thesis
    proof (cases entry)
      case None
      then have "clear_watermarks infos (x # rest) m = clear_watermarks infos rest (bt_insert t None m)"
        using i by (simp add: x entry_def [symmetric] Let_def)
      moreover have "modified_ok n (bt_insert t None m)" using modified_ok_insert [OF Cons.prems(2)] by simp
      moreover have "cleared infos t w (bt_get m t) = Some None" using True None by (simp add: cleared_def entry_def)
      ultimately show ?thesis by (auto simp: btree_simps)
    next
      case (Some w0)
      have w0: "tw_ok (n t) w0" using Some w(1) Cons.prems(2) by (auto simp: entry_def modified_ok_def split: option.splits)
      obtain w1 where w1: "clear_stale_epoch_watermark w0 (sti_committed_epoch info) = Some w1" "tw_ok (n t) w1"
        using clear_stale_correct [OF w0, of "sti_committed_epoch info"] Cons.prems(3) by blast
      have "clear_watermarks infos (x # rest) m = clear_watermarks infos rest (bt_insert t (Some w1) m)"
        using i Some w1(1) by (simp add: x entry_def [symmetric] Let_def)
      moreover have "modified_ok n (bt_insert t (Some w1) m)" using modified_ok_insert [OF Cons.prems(2)] w1(2) by simp
      moreover have "cleared infos t w (bt_get m t) = Some (Some w1)" using True Some i(1) w1(1) by (simp add: cleared_def entry_def)
      ultimately show ?thesis by (auto simp: btree_simps)
    qed
  qed
  then obtain m1 where m1: "clear_watermarks infos (x # rest) m = clear_watermarks infos rest m1" "modified_ok n m1"
    "bt_get m1 = (bt_get m)(t := cleared infos t w (bt_get m t))" by blast
  from Cons.IH [OF w(2) m1(2) Cons.prems(3) w(3)] obtain m' where m': "clear_watermarks infos rest m1 = Some m'" "bt_ok m'"
    "\<forall>t. bt_get m' t = (case map_of rest t of None \<Rightarrow> bt_get m1 t | Some w \<Rightarrow> cleared infos t w (bt_get m1 t))" by blast
  have "bt_get m' a = (case map_of (x # rest) a of None \<Rightarrow> bt_get m a | Some w \<Rightarrow> cleared infos a w (bt_get m a))" for a
    using m'(3) w(4) by (cases "a = t"; cases "map_of rest a") (auto simp: m1(3) x)
  with m' m1(1) show ?case by auto
qed

lemma store_watermarks_get:
  assumes "distinct (map fst ws)" and "bt_ok m"
  shows "bt_get (store_watermarks ws m) t = (case map_of ws t of None \<Rightarrow> bt_get m t | Some w \<Rightarrow> w)"
  using assms
proof (induction ws m rule: store_watermarks.induct)
  case (2 a w rest m)
  have "bt_ok (case w of Some w \<Rightarrow> bt_insert a w m | None \<Rightarrow> bt_remove a m)" using 2(3)
    by (auto simp: btree_simps bt_remove_ok split: option.splits)
  moreover have "map_of rest a = None" using 2(2) by (simp add: map_of_eq_None_iff)
  ultimately show ?case using 2 by (auto simp: btree_simps split: option.splits)
qed simp

lemma new_watermarks_applied:
  assumes "watermarks_ok n cur" and "\<forall>(t, w) \<in> set ws. tw_ok (n t) w" and "(t, w) \<in> set ws" and "bt_get cur t = Some c"
  shows "apply_new_table_watermarks c w =
    (if watermarks_follow c w then Some (c\<lparr>tw_watermarks := tw_watermarks c @ tw_watermarks w\<rparr>) else None)"
proof (rule apply_new_table_watermarks_exact)
  show "tw_ok (n t) c" using assms(1,4) by (simp add: watermarks_ok_def)
  show "tw_ok (n t) w" using assms(2,3) by blast
qed

lemma apply_watermarks_correct:
  assumes "watermarks_ok n cur" and "\<forall>(t, w) \<in> set (vd_new_table_watermarks d). tw_ok (n t) w"
    and "distinct (map fst (vd_new_table_watermarks d))" and "\<forall>t. n t \<le> 2 ^ 16"
  shows "case apply_watermarks cur infos d of
      None \<Rightarrow> \<exists>(t, w) \<in> set (vd_new_table_watermarks d). \<exists>c. bt_get cur t = Some c
        \<and> t \<notin> set (vd_removed_table_ids d) \<and> \<not> watermarks_follow c w
    | Some cur' \<Rightarrow> (\<forall>(t, w) \<in> set (vd_new_table_watermarks d). \<forall>c. bt_get cur t = Some c
        \<longrightarrow> t \<in> set (vd_removed_table_ids d) \<or> watermarks_follow c w)
        \<and> (\<forall>t. bt_get cur' t = watermarks_after cur infos d t)"
proof (cases "modify_watermarks cur (vd_removed_table_ids d) (vd_new_table_watermarks d) []")
  case None
  from modify_watermarks_None [OF this] obtain t w c where p: "(t, w) \<in> set (vd_new_table_watermarks d)"
    "bt_get cur t = Some c" "t \<notin> set (vd_removed_table_ids d)" "apply_new_table_watermarks c w = None" by blast
  then have "\<not> watermarks_follow c w" using new_watermarks_applied [OF assms(1,2) p(1,2)] by (simp split: if_splits)
  with p None show ?thesis by (auto simp: apply_watermarks_def)
next
  case (Some m1)
  have follow: "watermarks_follow c w" "apply_new_table_watermarks c w = Some (c\<lparr>tw_watermarks := tw_watermarks c @ tw_watermarks w\<rparr>)"
    if f: "(t, w) \<in> set (vd_new_table_watermarks d)" "bt_get cur t = Some c" "t \<notin> set (vd_removed_table_ids d)" for t w c
    using modify_watermarks_Some [OF Some f] new_watermarks_applied [OF assms(1,2) f(1,2)] by (simp_all split: if_splits)
  note g1 = modify_watermarks_get [OF Some assms(3) bt_ok_Nil]
  have ok: "bt_ok cur" "\<forall>(t, w) \<in> set cur. tw_ok (n t) w" "distinct (map fst cur)"
    using assms(1) bt_get_iff [of cur] bt_ok_distinct [of cur] by (auto simp: watermarks_ok_def)
  have "modified_ok n m1" by (rule modify_watermarks_ok [OF Some assms(1,2)]) (simp add: modified_ok_def bt_get_def)
  from clear_watermarks_get [OF ok(2) this assms(4) ok(3), of infos] obtain m2 where
    m2: "clear_watermarks infos cur m1 = Some m2" "bt_ok m2"
    "\<And>t. bt_get m2 t = (case map_of cur t of None \<Rightarrow> bt_get m1 t | Some w \<Rightarrow> cleared infos t w (bt_get m1 t))" by auto
  have "bt_get (store_watermarks m2 cur) t = watermarks_after cur infos d t" for t
  proof -
    have s: "bt_get (store_watermarks m2 cur) t = (case bt_get m2 t of None \<Rightarrow> bt_get cur t | Some w \<Rightarrow> w)"
      using store_watermarks_get [OF bt_ok_distinct [OF m2(2)] ok(1), of t] by (simp add: bt_get_def)
    have g: "bt_get m1 t = (case map_of (vd_new_table_watermarks d) t of None \<Rightarrow> None
        | Some w \<Rightarrow> Some (case bt_get cur t of None \<Rightarrow> Some w
            | Some c \<Rightarrow> if t \<in> set (vd_removed_table_ids d) then None
                else Some (c\<lparr>tw_watermarks := tw_watermarks c @ tw_watermarks w\<rparr>)))"
      using g1 follow(2) map_of_SomeD [of "vd_new_table_watermarks d" t]
      by (cases "map_of (vd_new_table_watermarks d) t"; cases "bt_get cur t") (simp_all add: bt_get_def [of "[]"])
    show ?thesis
    proof (cases "bt_get cur t")
      case None
      then show ?thesis by (simp add: s m2(3) g watermarks_after_def new_watermarks_def flip: bt_get_def split: option.split)
    next
      case (Some c)
      show ?thesis
      proof (cases "stale_watermarks_of infos t c")
        case True
        then obtain info where "bt_get infos t = Some info" by (auto simp: stale_watermarks_of_def split: option.splits)
        with Some True show ?thesis
          by (simp add: s m2(3) g watermarks_after_def new_watermarks_def cleared_def flip: bt_get_def split: option.split)
      next
        case False
        with Some show ?thesis
          by (simp add: s m2(3) g watermarks_after_def new_watermarks_def cleared_def flip: bt_get_def split: option.split)
      qed
    qed
  qed
  with follow(1) show ?thesis by (auto simp: apply_watermarks_def Some m2(1))
qed

section \<open>Properties of versions\<close>

lemma version_reach_inv:
  assumes "version_reach n v" and "\<forall>t. n t \<le> 2 ^ 16"
  shows "version_inv n UNIV v"
  using assms(1)
proof induction
  case (step v d v')
  then show ?case using apply_version_delta_ok [OF step.IH step.hyps(2) assms(2) step.hyps(3)] by blast
qed (rule create_init_version_inv)

text \<open>A commit that adds one SSTable and a watermark to the initial version.\<close>

definition example_config :: compaction_config where
  "example_config = \<lparr>cc_max_level = 1\<rparr>"

definition example_commit :: version_delta where
  "example_commit = \<lparr>vd_id = 2, vd_prev_id = 1, vd_group_deltas = [(2, [NewL0SubLevel [example_sst]])],
     vd_max_committed_epoch = 65536, vd_trivial_move = False,
     vd_new_table_watermarks = [(1, example_watermarks)], vd_removed_table_ids = [], vd_change_log_delta = [],
     vd_state_table_info_delta = [(1, \<lparr>sti_committed_epoch = 65536, sti_compaction_group_id = 2\<rparr>),
       (2, \<lparr>sti_committed_epoch = 65536, sti_compaction_group_id = 2\<rparr>)]\<rparr>"

lemma example_commit_ok: "delta_ok (\<lambda>t. 4) UNIV example_commit"
  using example_sst_good(1) example_watermarks_ok by (simp add: delta_ok_def example_commit_def deltas_ok_def)

lemma example_commit_applies:
  "\<exists>v'. apply_version_delta (create_init_version example_config) example_commit = Some v'
     \<and> ver_table_watermarks v' = [(1, example_watermarks)] \<and> get_object_ids v' = {1}
     \<and> (\<exists>ls. bt_get (ver_levels v') 2 = Some ls \<and> l0_sub_levels (lvs_l0 ls) = [new_sub_level 1 Overlapping [example_sst]])"
  by (simp add: apply_version_delta_def create_init_version_def example_commit_def example_config_def vsti_apply_delta_def
      vsti_empty_def apply_table_delta_def add_member_def bt_get_def apply_group_delta_def with_l0_def
      insert_new_sub_level_def vec_insert_def build_initial_compaction_group_levels_def apply_watermarks_def
      apply_change_log_delta_def get_object_ids_def get_sst_infos_def get_combined_levels_def example_sst_def sst_of_def new_sub_level_def UN_Un Collect_disj_eq)

text \<open>
  C1. In every version reached from the initial one by well-formed deltas, through commits,
  compactions, group splits, merges and removals, each group has ascending sub-level ids, base
  levels in order that can be concatenated and SSTables with well-formed ranges and sorted table
  ids; the index of member tables agrees with the tables; the watermarks of each table have
  strictly ascending epochs and bitmaps of its number of virtual nodes; and the epochs of each change
  log ascend strictly.
\<close>

theorem version_reachable_inv:
  assumes "version_reach n v" and "\<forall>t. n t \<le> 2 ^ 16"
  shows "(\<forall>g ls. bt_get (ver_levels v) g = Some ls \<longrightarrow>
        sorted_wrt (<) (map lvl_sub_level_id (l0_sub_levels (lvs_l0 ls)))
        \<and> (\<forall>l \<in> set (l0_sub_levels (lvs_l0 ls) @ lvs_levels ls).
              (\<forall>s \<in> set (lvl_table_infos l). sst_ok s \<and> sorted (sst_table_ids s))
              \<and> (lvl_type l = Overlapping \<or> can_concat (lvl_table_infos l) = Some True))
        \<and> (\<forall>i < length (lvs_levels ls). lvl_type (lvs_levels ls ! i) = Nonoverlapping
              \<and> lvl_idx (lvs_levels ls ! i) = word_of_nat (i + 1)))
    \<and> build_compaction_group_member_tables (vsti_info (ver_state_table_info v)) = Some (vsti_members (ver_state_table_info v))
    \<and> (\<forall>t w. bt_get (ver_table_watermarks v) t = Some w \<longrightarrow> tw_ok (n t) w)
    \<and> (\<forall>t logs. bt_get (ver_table_change_log v) t = Some logs \<longrightarrow> tcl_ok logs)"
proof -
  have inv: "version_inv n UNIV v" by (rule version_reach_inv [OF assms])
  have "levels_shape UNIV ls" if "bt_get (ver_levels v) g = Some ls" for g ls
    using inv that by (auto simp: version_inv_def groups_ok_def)
  moreover have "(\<forall>s \<in> set (lvl_table_infos l). sst_ok s \<and> sorted (sst_table_ids s))
      \<and> (lvl_type l = Overlapping \<or> can_concat (lvl_table_infos l) = Some True)" if "level_shape UNIV l" for l
    using that by (auto simp: level_shape_def sst_good_def level_ok_def)
  ultimately have "sorted_wrt (<) (map lvl_sub_level_id (l0_sub_levels (lvs_l0 ls)))
        \<and> (\<forall>l \<in> set (l0_sub_levels (lvs_l0 ls) @ lvs_levels ls).
              (\<forall>s \<in> set (lvl_table_infos l). sst_ok s \<and> sorted (sst_table_ids s))
              \<and> (lvl_type l = Overlapping \<or> can_concat (lvl_table_infos l) = Some True))
        \<and> (\<forall>i < length (lvs_levels ls). lvl_type (lvs_levels ls ! i) = Nonoverlapping
              \<and> lvl_idx (lvs_levels ls ! i) = word_of_nat (i + 1))" if "bt_get (ver_levels v) g = Some ls" for g ls
    using that by (fastforce simp: levels_shape_def subs_shape_def base_shape_def in_set_conv_nth)
  then show ?thesis using inv by (simp add: version_inv_def watermarks_ok_def logs_ok_def vsti_inv_iff)
qed

theorem version_reachable_inv_witness:
  "\<exists>v ls. version_reach (\<lambda>t. 4) v \<and> bt_get (ver_levels v) 2 = Some ls
     \<and> sorted_wrt (<) (map lvl_sub_level_id (l0_sub_levels (lvs_l0 ls)))
     \<and> l0_sub_levels (lvs_l0 ls) = [new_sub_level 1 Overlapping [example_sst]]"
proof -
  obtain v ls where v: "apply_version_delta (create_init_version example_config) example_commit = Some v"
    "bt_get (ver_levels v) 2 = Some ls" "l0_sub_levels (lvs_l0 ls) = [new_sub_level 1 Overlapping [example_sst]]"
    using example_commit_applies by blast
  have r: "version_reach (\<lambda>t. 4) v" by (rule version_reach.step [OF version_reach.init example_commit_ok v(1)])
  show ?thesis using version_reachable_inv [OF r] r v(2,3) by auto
qed

text \<open>
  C3. No SSTable object appears in a version out of nothing: when a well-formed delta is applied to a
  well-formed version, every object of the new version is an object of the old one or one of the
  objects \<open>newly_added_object_ids\<close> reports for the delta, and reporting them does not panic. What
  compactions, splits and merges keep or produce by rewriting descriptors introduces no object.
\<close>

theorem version_objects_from_delta:
  assumes "version_inv n UNIV v" and "delta_ok n UNIV d" and "\<forall>t. n t \<le> 2 ^ 16" and "apply_version_delta v d = Some v'"
  shows "\<exists>new. newly_added_object_ids d = Some new \<and> get_object_ids v' \<subseteq> get_object_ids v \<union> new"
proof -
  obtain new where new: "newly_added_object_ids d = Some new" using newly_added_total [OF assms(4)] by blast
  let ?X = "get_object_ids v \<union> new"
  have "version_inv n ?X v" using assms(1) version_inv_objects [of n ?X v] by simp
  moreover have "delta_ok n ?X d" by (rule delta_ok_objects [OF assms(2) new]) simp
  ultimately have "version_inv n ?X v'" using apply_version_delta_ok assms(3,4) by blast
  then show ?thesis using new version_inv_objects [of n ?X v'] by blast
qed

theorem version_objects_from_delta_witness:
  "\<exists>v'. apply_version_delta (create_init_version example_config) example_commit = Some v'
     \<and> get_object_ids v' = {1} \<and> newly_added_object_ids example_commit = Some {1}"
proof -
  obtain v' where v': "apply_version_delta (create_init_version example_config) example_commit = Some v'"
    "get_object_ids v' = {1}" using example_commit_applies by blast
  obtain new where new: "newly_added_object_ids example_commit = Some new"
    "get_object_ids v' \<subseteq> get_object_ids (create_init_version example_config) \<union> new"
    using version_objects_from_delta [OF create_init_version_inv example_commit_ok _ v'(1)] by auto
  have "new = {1}" using new(1) by (simp add: newly_added_object_ids_def newly_added_sst_infos_def example_commit_def example_sst_def)
  with v' new show ?thesis by blast
qed

lemma split_levels_at_ids:
  "split_levels_at key p (cur\<lparr>lvs_parent_group_id := a, lvs_member_table_ids := b\<rparr>) i =
     map_option (\<lambda>(p', c', j). (p', c'\<lparr>lvs_parent_group_id := a, lvs_member_table_ids := b\<rparr>, j)) (split_levels_at key p cur i)"
  by (auto simp: split_levels_at_def Let_def split: Option.bind_splits)

lemma levels_ids_simps:
  "levels_inv (c\<lparr>lvs_parent_group_id := a, lvs_member_table_ids := b\<rparr>) = levels_inv c"
  "group_split_at t p p' (c\<lparr>lvs_parent_group_id := a, lvs_member_table_ids := b\<rparr>) = group_split_at t p p' c"
  by (simp_all add: levels_inv_def base_inv_def group_split_at_def)

text \<open>
  C2. Constructing a group by splitting its parent at a key of a table, when the parent is well formed
  and has no empty sub-level and the new group has enough levels. It does not panic; sub-level by
  sub-level and level by level the parent keeps exactly the user keys below the split key and the new
  group gets exactly the others, none lost and none in both; both groups stay well formed, the
  recorded sizes of the new group are right, other groups are untouched, and the SSTable ids used are
  exactly as many as \<open>count_new_ssts_in_group_split\<close> reserves.
\<close>

theorem group_split_partitions_keys:
  assumes "bt_get (ver_levels v) (gc_parent_group_id gc) = Some p" and "splittable UNIV p"
    and "gc_parent_group_id gc \<noteq> 0" and "gc_parent_group_id gc \<noteq> g" and "gc_version gc \<ge> 3"
    and "gc_split_key gc = Some key" and "is_split_key key t"
    and "gc_group_config gc = Some config" and "length (lvs_levels p) \<le> unat (cc_max_level config)"
  shows "\<exists>m' p' c' c. construct_group infos g gc (ver_levels v) = Some m'
    \<and> bt_get m' = (bt_get (ver_levels v))(gc_parent_group_id gc \<mapsto> p', g \<mapsto> c')
    \<and> group_split_at t p p' c' \<and> levels_shape UNIV p' \<and> levels_inv c'
    \<and> count_new_ssts_in_group_split v (gc_parent_group_id gc) key = Some c
    \<and> (\<exists>cur. split_levels_at (Some key) p cur (gc_new_sst_start_id gc) = Some (p', c', gc_new_sst_start_id gc + c))"
proof -
  let ?parent = "gc_parent_group_id gc" and ?i = "gc_new_sst_start_id gc"
  let ?cur = "build_initial_compaction_group_levels g (unat (cc_max_level config))"
  let ?new = "?cur\<lparr>lvs_parent_group_id := ?parent, lvs_member_table_ids := gc_table_ids gc\<rparr>"
  obtain p' c0 c where s: "split_levels_at (Some key) p ?cur ?i = Some (p', c0, ?i + c)"
    and out: "levels_shape UNIV p'" "levels_inv c0" "group_split_at t p p' c0" "count_new_ssts p key = Some c"
    using split_levels_at_correct [OF assms(2,7,9), of g ?i] by blast
  define c' where "c' = c0\<lparr>lvs_parent_group_id := ?parent, lvs_member_table_ids := gc_table_ids gc\<rparr>"
  have s': "split_levels_at (Some key) p ?new ?i = Some (p', c', ?i + c)" by (simp add: split_levels_at_ids s c'_def)
  have get: "bt_get (bt_insert g ?new (ver_levels v)) ?parent = Some p" "bt_get (bt_insert g ?new (ver_levels v)) g = Some ?new"
    using assms(1,4) by (simp_all add: bt_get_insert)
  have run: "construct_group infos g gc (ver_levels v) = Some (bt_insert g c' (bt_insert ?parent p' (bt_insert g ?new (ver_levels v))))"
    using assms(3-6,8) get s' by (simp add: construct_group_def Let_def init_with_parent_group_v2_def)
  have cnt: "count_new_ssts_in_group_split v ?parent key = Some c"
    using assms(1) out(4) by (simp add: count_new_ssts_in_group_split_def)
  have "bt_get (bt_insert g c' (bt_insert ?parent p' (bt_insert g ?new (ver_levels v)))) = (bt_get (ver_levels v))(?parent \<mapsto> p', g \<mapsto> c')"
    using assms(4) by (auto simp: bt_get_insert)
  moreover have "levels_inv c'" "group_split_at t p p' c'" using out(2,3) by (simp_all add: c'_def levels_ids_simps)
  ultimately show ?thesis using run out(1) cnt s' by blast
qed

definition example_construct :: group_construct where
  "example_construct = \<lparr>gc_group_config = Some example_config, gc_parent_group_id = 2, gc_table_ids = [], gc_group_id = 5,
     gc_new_sst_start_id = 10, gc_version = 3, gc_split_key = Some example_split_key\<rparr>"

definition example_version :: hummock_version where
  "example_version = (create_init_version example_config)\<lparr>ver_levels := [(2, example_parent)]\<rparr>"

theorem group_split_partitions_keys_witness:
  "\<exists>m' p' c'. construct_group vsti_empty 5 example_construct (ver_levels example_version) = Some m'
     \<and> bt_get m' = [2 \<mapsto> p', 5 \<mapsto> c'] \<and> group_split_at 2 example_parent p' c'"
proof -
  have "bt_get (ver_levels example_version) (gc_parent_group_id example_construct) = Some example_parent"
    by (simp add: example_version_def example_construct_def bt_get_def)
  from group_split_partitions_keys [OF this example_parent_splittable, of 5 example_split_key 2 example_config vsti_empty]
  show ?thesis by (fastforce simp: example_construct_def example_config_def example_parent_def example_version_def bt_get_def
      build_initial_compaction_group_levels_def)
qed

text \<open>
  C4. The watermarks after a delta. Applying panics exactly when new watermarks of a table that stays
  do not follow its current ones: they have the other direction, or one of their epochs is not after
  all current ones. Otherwise each table has its new watermarks appended to the current
  ones, cleared up to its committed epoch when its oldest epoch is before it. The watermarks of a
  removed table are dropped only when the delta also brings new watermarks for it: without them they
  stay, and new ones for a table without any are stored even when the table is removed.
\<close>

theorem apply_watermarks_exact:
  assumes "watermarks_ok n cur" and "\<forall>(t, w) \<in> set (vd_new_table_watermarks d). tw_ok (n t) w"
    and "distinct (map fst (vd_new_table_watermarks d))" and "\<forall>t. n t \<le> 2 ^ 16"
  shows "case apply_watermarks cur infos d of
      None \<Rightarrow> \<exists>(t, w) \<in> set (vd_new_table_watermarks d). \<exists>c. bt_get cur t = Some c
        \<and> t \<notin> set (vd_removed_table_ids d) \<and> \<not> watermarks_follow c w
    | Some cur' \<Rightarrow> (\<forall>(t, w) \<in> set (vd_new_table_watermarks d). \<forall>c. bt_get cur t = Some c
        \<longrightarrow> t \<in> set (vd_removed_table_ids d) \<or> watermarks_follow c w)
        \<and> (\<forall>t. bt_get cur' t = watermarks_after cur infos d t)"
  by (rule apply_watermarks_correct [OF assms])

text \<open>
  Table 1 is removed without new watermarks, table 2 with new ones; and table 1 is given its current
  watermarks once more.
\<close>

definition example_removal :: version_delta where
  "example_removal = (version_delta_after (create_init_version example_config))
     \<lparr>vd_removed_table_ids := [1, 2], vd_new_table_watermarks := [(2, example_watermarks)]\<rparr>"

definition example_repeat :: version_delta where
  "example_repeat = (version_delta_after (create_init_version example_config))
     \<lparr>vd_new_table_watermarks := [(1, example_watermarks)]\<rparr>"

theorem apply_watermarks_exact_witness:
  "\<exists>cur'. apply_watermarks [(1, example_watermarks)] [] example_removal = Some cur'
     \<and> bt_get cur' 1 = Some example_watermarks \<and> bt_get cur' 2 = Some example_watermarks
     \<and> apply_watermarks [(1, example_watermarks)] [] example_repeat = None"
proof -
  let ?cur = "[(1 :: table_id, example_watermarks)]"
  have ok: "watermarks_ok (\<lambda>t. 4) ?cur" using example_watermarks_ok by (simp add: watermarks_ok_def bt_get_def)
  have d: "\<forall>(t, w) \<in> set (vd_new_table_watermarks example_removal). tw_ok 4 w"
    "distinct (map fst (vd_new_table_watermarks example_removal))"
    "\<forall>(t, w) \<in> set (vd_new_table_watermarks example_repeat). tw_ok 4 w"
    "distinct (map fst (vd_new_table_watermarks example_repeat))"
    using example_watermarks_ok by (simp_all add: example_removal_def example_repeat_def)
  note t = apply_watermarks_exact [OF ok d(1,2), of "[]"] and r = apply_watermarks_exact [OF ok d(3,4), of "[]"]
  obtain cur' where c: "apply_watermarks ?cur [] example_removal = Some cur'"
    using t by (cases "apply_watermarks ?cur [] example_removal") (auto simp: example_removal_def bt_get_def)
  have "bt_get cur' x = watermarks_after ?cur [] example_removal x" for x using t c by simp
  moreover have "\<not> watermarks_follow example_watermarks example_watermarks"
    by (simp add: watermarks_follow_def example_watermarks_def)
  then have "apply_watermarks ?cur [] example_repeat = None"
    using r by (cases "apply_watermarks ?cur [] example_repeat")
      (auto simp: example_repeat_def bt_get_def version_delta_after_def)
  ultimately show ?thesis
    using c by (simp add: watermarks_after_def new_watermarks_def example_removal_def version_delta_after_def bt_get_def)
qed

end
