(* ===== verification/Version_Proto.thy ===== *)
theory Version_Proto
  imports Hummock_Version
begin

text \<open>
  The protobuf forms of versions and deltas, the conversions of
  \<^verbatim>\<open>storage/hummock_sdk/src/version.rs\<close> in both directions: \<open>HummockVersion\<close>, \<open>HummockVersionDelta\<close>,
  \<open>IntraLevelDelta\<close>, \<open>GroupDelta\<close> and \<open>GroupDeltas\<close>. The by-value and by-reference conversions of the source have the
  same bodies. The lemmas show which versions and deltas are encoded and that decoding gives them back.
\<close>

section \<open>Protobuf forms\<close>

text \<open>The entries of a hash map, with a conversion of the values that may panic.\<close>

definition map_values :: "('b \<Rightarrow> 'c option) \<Rightarrow> ('a \<times> 'b) list \<Rightarrow> ('a \<times> 'c) list option" where
  "map_values f m = map_opt (\<lambda>(k, x). map_option (Pair k) (f x)) m"

record pb_hummock_version =
  pbv_id :: u64
  pbv_levels :: "(u64, pb_levels) btree"
  pbv_max_committed_epoch :: u64
  pbv_table_watermarks :: "(table_id, pb_table_watermarks) btree"
  pbv_table_change_logs :: "(table_id, pb_sstable_info table_change_log) btree"
  pbv_state_table_info :: "(table_id, state_table_info) btree"

definition version_to_pb :: "hummock_version \<Rightarrow> pb_hummock_version option" where
  "version_to_pb v =
     do { ls \<leftarrow> map_values levels_to_pb (ver_levels v);
          logs \<leftarrow> map_values tcl_to_protobuf (ver_table_change_log v);
          Some \<lparr>pbv_id = ver_id v, pbv_levels = ls, pbv_max_committed_epoch = ver_max_committed_epoch v,
            pbv_table_watermarks = map (\<lambda>(t, w). (t, tw_to_protobuf w)) (ver_table_watermarks v),
            pbv_table_change_logs = logs, pbv_state_table_info = vsti_to_protobuf (ver_state_table_info v)\<rparr> }"

definition version_from_pb :: "pb_hummock_version \<Rightarrow> hummock_version option" where
  "version_from_pb p =
     do { ls \<leftarrow> map_values levels_from_pb (pbv_levels p);
          ws \<leftarrow> map_values tw_from_protobuf (pbv_table_watermarks p);
          logs \<leftarrow> map_values tcl_from_protobuf (pbv_table_change_logs p);
          infos \<leftarrow> vsti_from_protobuf (pbv_state_table_info p);
          Some \<lparr>ver_id = pbv_id p, ver_levels = ls, ver_max_committed_epoch = pbv_max_committed_epoch p,
            ver_table_watermarks = ws, ver_table_change_log = logs, ver_state_table_info = infos\<rparr> }"

text \<open>Deltas. A set is listed in its iteration order and read back as a set.\<close>

record pb_intra_level_delta =
  pbd_level_idx :: u32
  pbd_l0_sub_level_id :: u64
  pbd_removed_table_ids :: "u64 list"
  pbd_inserted_table_infos :: "pb_sstable_info list"
  pbd_vnode_partition_count :: u32

datatype pb_delta_type =
    PbIntraLevel pb_intra_level_delta
  | PbGroupConstruct group_construct
  | PbGroupDestroy
  | PbGroupMerge u64 u64
  | PbNewL0SubLevel "pb_sstable_info list"

type_synonym pb_group_delta = "pb_delta_type option"

record pb_version_delta =
  pbvd_id :: u64
  pbvd_prev_id :: u64
  pbvd_group_deltas :: "(u64 \<times> pb_group_delta list) list"
  pbvd_max_committed_epoch :: u64
  pbvd_trivial_move :: bool
  pbvd_new_table_watermarks :: "(table_id \<times> pb_table_watermarks) list"
  pbvd_removed_table_ids :: "table_id list"
  pbvd_change_log_delta :: "(table_id \<times> pb_sstable_info change_log_delta) list"
  pbvd_state_table_info_delta :: "(table_id \<times> state_table_info) list"

definition ild_to_pb :: "intra_level_delta \<Rightarrow> pb_intra_level_delta option" where
  "ild_to_pb d =
     do { infos \<leftarrow> map_opt sst_to_pb (ild_inserted_table_infos d);
          Some \<lparr>pbd_level_idx = ild_level_idx d, pbd_l0_sub_level_id = ild_l0_sub_level_id d,
            pbd_removed_table_ids = ild_removed_table_ids d, pbd_inserted_table_infos = infos,
            pbd_vnode_partition_count = ild_vnode_partition_count d\<rparr> }"

definition ild_from_pb :: "pb_intra_level_delta \<Rightarrow> intra_level_delta option" where
  "ild_from_pb p =
     do { infos \<leftarrow> map_opt sst_from_pb (pbd_inserted_table_infos p);
          Some \<lparr>ild_level_idx = pbd_level_idx p, ild_l0_sub_level_id = pbd_l0_sub_level_id p,
            ild_removed_table_ids = remdups (pbd_removed_table_ids p), ild_inserted_table_infos = infos,
            ild_vnode_partition_count = pbd_vnode_partition_count p\<rparr> }"

fun group_delta_to_pb :: "group_delta \<Rightarrow> pb_group_delta option" where
  "group_delta_to_pb (IntraLevel d) = do { p \<leftarrow> ild_to_pb d; Some (Some (PbIntraLevel p)) }"
| "group_delta_to_pb (GroupConstruct gc) = Some (Some (PbGroupConstruct gc))"
| "group_delta_to_pb GroupDestroy = Some (Some PbGroupDestroy)"
| "group_delta_to_pb (GroupMerge left right) = Some (Some (PbGroupMerge left right))"
| "group_delta_to_pb (NewL0SubLevel ssts) =
     do { infos \<leftarrow> map_opt sst_to_pb ssts; Some (Some (PbNewL0SubLevel infos)) }"

fun group_delta_from_pb :: "pb_group_delta \<Rightarrow> group_delta option" where
  "group_delta_from_pb (Some (PbIntraLevel p)) = do { d \<leftarrow> ild_from_pb p; Some (IntraLevel d) }"
| "group_delta_from_pb (Some (PbGroupConstruct gc)) = Some (GroupConstruct gc)"
| "group_delta_from_pb (Some PbGroupDestroy) = Some GroupDestroy"
| "group_delta_from_pb (Some (PbGroupMerge left right)) = Some (GroupMerge left right)"
| "group_delta_from_pb (Some (PbNewL0SubLevel infos)) =
     do { ssts \<leftarrow> map_opt sst_from_pb infos; Some (NewL0SubLevel ssts) }"
| "group_delta_from_pb None = None"

definition group_deltas_to_pb :: "group_delta list \<Rightarrow> pb_group_delta list option" where
  "group_deltas_to_pb ds = map_opt group_delta_to_pb ds"

definition group_deltas_from_pb :: "pb_group_delta list \<Rightarrow> group_delta list option" where
  "group_deltas_from_pb ps = map_opt group_delta_from_pb ps"

definition version_delta_to_pb :: "version_delta \<Rightarrow> pb_version_delta option" where
  "version_delta_to_pb d =
     do { groups \<leftarrow> map_values group_deltas_to_pb (vd_group_deltas d);
          logs \<leftarrow> map_values cld_to_pb (vd_change_log_delta d);
          Some \<lparr>pbvd_id = vd_id d, pbvd_prev_id = vd_prev_id d, pbvd_group_deltas = groups,
            pbvd_max_committed_epoch = vd_max_committed_epoch d, pbvd_trivial_move = vd_trivial_move d,
            pbvd_new_table_watermarks = map (\<lambda>(t, w). (t, tw_to_protobuf w)) (vd_new_table_watermarks d),
            pbvd_removed_table_ids = vd_removed_table_ids d, pbvd_change_log_delta = logs,
            pbvd_state_table_info_delta = vd_state_table_info_delta d\<rparr> }"

definition version_delta_from_pb :: "pb_version_delta \<Rightarrow> version_delta option" where
  "version_delta_from_pb p =
     do { groups \<leftarrow> map_values group_deltas_from_pb (pbvd_group_deltas p);
          ws \<leftarrow> map_values tw_from_protobuf (pbvd_new_table_watermarks p);
          logs \<leftarrow> map_values cld_from_pb (pbvd_change_log_delta p);
          Some \<lparr>vd_id = pbvd_id p, vd_prev_id = pbvd_prev_id p, vd_group_deltas = groups,
            vd_max_committed_epoch = pbvd_max_committed_epoch p, vd_trivial_move = pbvd_trivial_move p,
            vd_new_table_watermarks = ws, vd_removed_table_ids = remdups (pbvd_removed_table_ids p),
            vd_change_log_delta = logs, vd_state_table_info_delta = pbvd_state_table_info_delta p\<rparr> }"

section \<open>Round trips\<close>

lemma map_values_round_trip:
  assumes "map_values f m = Some m'" and "\<And>k x y. (k, x) \<in> set m \<Longrightarrow> f x = Some y \<Longrightarrow> g y = Some (h x)"
  shows "map_values g m' = Some (map (\<lambda>(k, x). (k, h x)) m)"
  unfolding map_values_def
  by (rule map_opt_round_trip [OF assms(1) [unfolded map_values_def]]) (auto dest: assms(2))

lemma map_values_None: "map_values f m = None \<longleftrightarrow> (\<exists>(k, x) \<in> set m. f x = None)"
  by (force simp: map_values_def map_opt_None)

lemma map_values_total:
  assumes "\<And>k x. (k, x) \<in> set m \<Longrightarrow> g (f x) = Some x"
  shows "map_values g (map (\<lambda>(k, x). (k, f x)) m) = Some m"
  using assms
proof (induction m)
  case (Cons e m)
  have "map_values g (map (\<lambda>(k, x). (k, f x)) m) = Some m" by (rule Cons.IH) (use Cons.prems in auto)
  moreover have "g (f (snd e)) = Some (snd e)" by (rule Cons.prems [of "fst e"]) simp
  ultimately show ?case by (cases e) (simp add: map_values_def)
qed (simp add: map_values_def)

lemma map_values_id: "(\<And>k x. (k, x) \<in> set m \<Longrightarrow> h x = x) \<Longrightarrow> map (\<lambda>(k, x). (k, h x)) m = m"
  by (induction m) auto

definition cl_canon :: "sstable_info epoch_new_change_log \<Rightarrow> sstable_info epoch_new_change_log" where
  "cl_canon l = l\<lparr>cl_new_value := map sst_canon (cl_new_value l), cl_old_value := map sst_canon (cl_old_value l)\<rparr>"

definition cld_canon :: "sstable_info change_log_delta \<Rightarrow> sstable_info change_log_delta" where
  "cld_canon d = d\<lparr>cld_new_log := map_option cl_canon (cld_new_log d)\<rparr>"

lemma tcl_round_trip: "tcl_to_protobuf logs = Some p \<Longrightarrow> tcl_from_protobuf p = Some (map cl_canon logs)"
  unfolding tcl_to_protobuf_def tcl_from_protobuf_def
  by (erule map_opt_round_trip) (simp add: cl_pb_round_trip cl_canon_def)

lemma cld_round_trip: "cld_to_pb d = Some p \<Longrightarrow> cld_from_pb p = Some (cld_canon d)"
  by (cases d; cases "cld_new_log d")
    (auto simp: cld_to_pb_def cld_from_pb_def cld_canon_def cl_pb_round_trip cl_canon_def split: Option.bind_splits)

text \<open>The tables whose conversion panics.\<close>

abbreviation encodable :: "sstable_info \<Rightarrow> bool" where
  "encodable s \<equiv> sst_size s \<noteq> 0 \<and> sorted (sst_table_ids s)"

lemma map_sst_to_pb_None: "map_opt sst_to_pb ssts = None \<longleftrightarrow> (\<exists>s \<in> set ssts. \<not> encodable s)"
  by (simp add: map_opt_None sst_to_pb_None)

lemma cl_to_pb_None: "cl_to_pb l = None \<longleftrightarrow> (\<exists>s \<in> set (cl_old_value l @ cl_new_value l). \<not> encodable s)"
  using map_sst_to_pb_None [of "cl_old_value l"] map_sst_to_pb_None [of "cl_new_value l"]
  by (cases "map_opt sst_to_pb (cl_old_value l)"; cases "map_opt sst_to_pb (cl_new_value l)") (auto simp: cl_to_pb_def)

lemma tcl_to_pb_None:
  "tcl_to_protobuf logs = None \<longleftrightarrow> (\<exists>l \<in> set logs. \<exists>s \<in> set (cl_old_value l @ cl_new_value l). \<not> encodable s)"
  by (simp add: tcl_to_protobuf_def map_opt_None cl_to_pb_None)

lemma set_get_sst_infos:
  "set (get_sst_infos v) =
     (\<Union>(g, ls) \<in> set (ver_levels v). \<Union>l \<in> set (l0_sub_levels (lvs_l0 ls) @ lvs_levels ls). set (lvl_table_infos l))
     \<union> (\<Union>(t, logs) \<in> set (ver_table_change_log v). \<Union>l \<in> set logs. set (cl_old_value l @ cl_new_value l))"
  by (force simp: get_sst_infos_def get_combined_levels_def)

lemma version_to_pb_None: "version_to_pb v = None \<longleftrightarrow> (\<exists>s \<in> set (get_sst_infos v). \<not> encodable s)"
proof -
  have "version_to_pb v = None \<longleftrightarrow> map_values levels_to_pb (ver_levels v) = None
      \<or> map_values tcl_to_protobuf (ver_table_change_log v) = None"
    by (auto simp: version_to_pb_def split: Option.bind_splits)
  then show ?thesis unfolding map_values_None levels_to_pb_None tcl_to_pb_None set_get_sst_infos by fastforce
qed

lemma sst_canon_ok: "sst_ok s \<Longrightarrow> sst_canon s = s"
  by (auto simp: sst_ok_def sst_canon_def Let_def inf_key_range_def start_bound_inf_def)

lemma level_canon_shape: "level_shape X l \<Longrightarrow> level_canon l = l"
  by (simp add: level_canon_def level_shape_def sst_good_def sst_canon_ok map_idI)

lemma levels_canon_shape:
  assumes "levels_shape X ls"
  shows "levels_canon ls = ls"
proof -
  have "\<forall>l \<in> set (l0_sub_levels (lvs_l0 ls)). level_canon l = l" "\<forall>l \<in> set (lvs_levels ls). level_canon l = l"
    using assms by (auto simp: levels_shape_def subs_shape_def base_shape_def in_set_conv_nth intro!: level_canon_shape [of X])
  then show ?thesis by (simp add: levels_canon_def map_idI)
qed

lemma btree_entry: "bt_ok m \<Longrightarrow> (k, x) \<in> set m \<Longrightarrow> bt_get m k = Some x"
  by (simp add: bt_get_iff)

lemma version_pb_round_trip:
  assumes "version_inv n UNIV v" and "\<forall>t. n t \<le> 2 ^ 16" and "version_to_pb v = Some p"
  shows "version_from_pb p = Some (v\<lparr>ver_table_change_log := map (\<lambda>(t, logs). (t, map cl_canon logs)) (ver_table_change_log v)\<rparr>)"
proof -
  obtain ls logs where pb: "map_values levels_to_pb (ver_levels v) = Some ls"
    "map_values tcl_to_protobuf (ver_table_change_log v) = Some logs"
    and p: "pbv_levels p = ls" "pbv_table_change_logs p = logs" "pbv_id p = ver_id v"
      "pbv_max_committed_epoch p = ver_max_committed_epoch v"
      "pbv_table_watermarks p = map (\<lambda>(t, w). (t, tw_to_protobuf w)) (ver_table_watermarks v)"
      "pbv_state_table_info p = vsti_info (ver_state_table_info v)"
    using assms(3) by (auto simp: version_to_pb_def vsti_to_protobuf_def split: Option.bind_splits)
  have inv: "groups_ok UNIV (ver_levels v)" "vsti_inv (ver_state_table_info v)" "watermarks_ok n (ver_table_watermarks v)"
    using assms(1) by (simp_all add: version_inv_def)
  have "levels_canon x = x" if "(g, x) \<in> set (ver_levels v)" for g x
    using inv(1) that by (auto simp: groups_ok_def intro: levels_canon_shape dest: btree_entry)
  then have "map_values levels_from_pb ls = Some (ver_levels v)"
    using map_values_round_trip [OF pb(1), of levels_from_pb levels_canon] by (simp add: levels_pb_round_trip map_values_id)
  moreover have "tw_from_protobuf (tw_to_protobuf w) = Some w" if "(t, w) \<in> set (ver_table_watermarks v)" for t w
  proof (rule tw_protobuf_round_trip [of "n t"])
    show "tw_ok (n t) w" using inv(3) that by (auto simp: watermarks_ok_def dest: btree_entry)
    show "n t < 2 ^ 32" by (rule le_less_trans [OF assms(2) [rule_format, of t]]) simp
  qed
  then have "map_values tw_from_protobuf (map (\<lambda>(t, w). (t, tw_to_protobuf w)) (ver_table_watermarks v)) = Some (ver_table_watermarks v)"
    by (rule map_values_total)
  moreover have "vsti_from_protobuf (vsti_info (ver_state_table_info v)) = Some (ver_state_table_info v)"
    using inv(2) by (simp add: vsti_from_protobuf_def vsti_inv_iff)
  ultimately show ?thesis using map_values_round_trip [OF pb(2), of tcl_from_protobuf "map cl_canon"] tcl_round_trip
    by (simp add: version_from_pb_def p)
qed

lemma ild_round_trip:
  "ild_to_pb d = Some p \<Longrightarrow> ild_from_pb p = Some (d\<lparr>ild_removed_table_ids := remdups (ild_removed_table_ids d),
     ild_inserted_table_infos := map sst_canon (ild_inserted_table_infos d)\<rparr>)"
  by (auto simp: ild_to_pb_def ild_from_pb_def map_opt_round_trip [OF _ sst_pb_round_trip] split: Option.bind_splits)

text \<open>Removed tables are listed without duplicates, as a set is.\<close>

fun removed_set :: "group_delta \<Rightarrow> bool" where
  "removed_set (IntraLevel d) = distinct (ild_removed_table_ids d)"
| "removed_set _ = True"

lemma map_sst_canon_good: "\<forall>s \<in> set ssts. sst_good X s \<Longrightarrow> map sst_canon ssts = ssts"
  by (simp add: map_idI sst_good_def sst_canon_ok)

lemma group_delta_round_trip:
  assumes "group_delta_to_pb x = Some p" and "group_delta_ok X x" and "removed_set x"
  shows "group_delta_from_pb p = Some x"
proof (cases x)
  case (IntraLevel d)
  then obtain q where q: "ild_to_pb d = Some q" "p = Some (PbIntraLevel q)" using assms(1) by (auto split: Option.bind_splits)
  show ?thesis using assms(2,3) ild_round_trip [OF q(1)] by (simp add: IntraLevel q(2) map_sst_canon_good distinct_remdups_id)
next
  case (NewL0SubLevel ssts)
  then obtain infos where i: "map_opt sst_to_pb ssts = Some infos" "p = Some (PbNewL0SubLevel infos)"
    using assms(1) by (auto split: Option.bind_splits)
  show ?thesis using assms(2) map_opt_round_trip [OF i(1) sst_pb_round_trip] by (simp add: NewL0SubLevel i(2) map_sst_canon_good)
qed (use assms in auto)

lemma group_delta_to_pb_None: "group_delta_to_pb x = None \<longleftrightarrow> (\<exists>s \<in> set (delta_sst_infos x). \<not> encodable s)"
proof (cases x)
  case (IntraLevel d)
  then show ?thesis using map_sst_to_pb_None [of "ild_inserted_table_infos d"]
    by (cases "map_opt sst_to_pb (ild_inserted_table_infos d)") (auto simp: ild_to_pb_def)
next
  case (NewL0SubLevel ssts)
  then show ?thesis using map_sst_to_pb_None [of ssts] by (cases "map_opt sst_to_pb ssts") auto
qed simp_all

lemma group_deltas_to_pb_None:
  "group_deltas_to_pb ds = None \<longleftrightarrow> (\<exists>x \<in> set ds. \<exists>s \<in> set (delta_sst_infos x). \<not> encodable s)"
  by (simp add: group_deltas_to_pb_def map_opt_None group_delta_to_pb_None)

definition log_ssts :: "sstable_info change_log_delta \<Rightarrow> sstable_info list" where
  "log_ssts x = (case cld_new_log x of None \<Rightarrow> [] | Some l \<Rightarrow> cl_old_value l @ cl_new_value l)"

lemma cld_to_pb_None: "cld_to_pb x = None \<longleftrightarrow> (\<exists>s \<in> set (log_ssts x). \<not> encodable s)"
proof (cases "cld_new_log x")
  case (Some l)
  then show ?thesis using cl_to_pb_None [of l] by (cases "cl_to_pb l") (simp_all add: cld_to_pb_def log_ssts_def)
qed (simp add: cld_to_pb_def log_ssts_def)

text \<open>All SSTables a delta carries.\<close>

definition delta_ssts :: "version_delta \<Rightarrow> sstable_info list" where
  "delta_ssts d = concat (map (\<lambda>(g, ds). concat (map delta_sst_infos ds)) (vd_group_deltas d))
     @ concat (map (\<lambda>(t, x). log_ssts x) (vd_change_log_delta d))"

lemma version_delta_to_pb_None: "version_delta_to_pb d = None \<longleftrightarrow> (\<exists>s \<in> set (delta_ssts d). \<not> encodable s)"
proof -
  have "version_delta_to_pb d = None \<longleftrightarrow> map_values group_deltas_to_pb (vd_group_deltas d) = None
      \<or> map_values cld_to_pb (vd_change_log_delta d) = None"
    by (auto simp: version_delta_to_pb_def split: Option.bind_splits)
  moreover have "map_values group_deltas_to_pb (vd_group_deltas d) = None \<longleftrightarrow>
      (\<exists>s \<in> set (concat (map (\<lambda>(g, ds). concat (map delta_sst_infos ds)) (vd_group_deltas d))). \<not> encodable s)"
    unfolding map_values_None group_deltas_to_pb_None by (simp add: split_beta)
  moreover have "map_values cld_to_pb (vd_change_log_delta d) = None \<longleftrightarrow>
      (\<exists>s \<in> set (concat (map (\<lambda>(t, x). log_ssts x) (vd_change_log_delta d))). \<not> encodable s)"
    unfolding map_values_None cld_to_pb_None by (simp add: split_beta)
  ultimately show ?thesis unfolding delta_ssts_def by (simp add: bex_Un)
qed

lemma version_delta_pb_round_trip:
  assumes "delta_ok n UNIV d" and "\<forall>t. n t \<le> 2 ^ 16" and "\<forall>(g, ds) \<in> set (vd_group_deltas d). list_all removed_set ds"
    and "version_delta_to_pb d = Some p"
  shows "version_delta_from_pb p = Some (d\<lparr>vd_change_log_delta := map (\<lambda>(t, x). (t, cld_canon x)) (vd_change_log_delta d)\<rparr>)"
proof -
  obtain groups logs where pb: "map_values group_deltas_to_pb (vd_group_deltas d) = Some groups"
    "map_values cld_to_pb (vd_change_log_delta d) = Some logs"
    and p: "p = \<lparr>pbvd_id = vd_id d, pbvd_prev_id = vd_prev_id d, pbvd_group_deltas = groups,
            pbvd_max_committed_epoch = vd_max_committed_epoch d, pbvd_trivial_move = vd_trivial_move d,
            pbvd_new_table_watermarks = map (\<lambda>(t, w). (t, tw_to_protobuf w)) (vd_new_table_watermarks d),
            pbvd_removed_table_ids = vd_removed_table_ids d, pbvd_change_log_delta = logs,
            pbvd_state_table_info_delta = vd_state_table_info_delta d\<rparr>"
    using assms(4) by (auto simp: version_delta_to_pb_def split: Option.bind_splits)
  have ok: "\<forall>(g, ds) \<in> set (vd_group_deltas d). \<forall>x \<in> set ds. group_delta_ok UNIV x"
    "\<forall>(t, w) \<in> set (vd_new_table_watermarks d). tw_ok (n t) w" "distinct (vd_removed_table_ids d)"
    using assms(1) by (simp_all add: delta_ok_def)
  have "group_deltas_from_pb ps = Some ds" if "(g, ds) \<in> set (vd_group_deltas d)" "group_deltas_to_pb ds = Some ps" for g ds ps
    using that(2) map_opt_round_trip [of group_delta_to_pb ds ps group_delta_from_pb "\<lambda>x. x"]
      ok(1) assms(3) that(1) group_delta_round_trip
    by (fastforce simp: group_deltas_from_pb_def group_deltas_to_pb_def list_all_iff)
  then have "map_values group_deltas_from_pb groups = Some (vd_group_deltas d)"
    using map_values_round_trip [OF pb(1), of group_deltas_from_pb "\<lambda>x. x"] by simp
  moreover have "tw_from_protobuf (tw_to_protobuf w) = Some w" if "(t, w) \<in> set (vd_new_table_watermarks d)" for t w
  proof (rule tw_protobuf_round_trip [of "n t"])
    show "tw_ok (n t) w" using ok(2) that by blast
    show "n t < 2 ^ 32" by (rule le_less_trans [OF assms(2) [rule_format, of t]]) simp
  qed
  then have "map_values tw_from_protobuf (map (\<lambda>(t, w). (t, tw_to_protobuf w)) (vd_new_table_watermarks d)) = Some (vd_new_table_watermarks d)"
    by (rule map_values_total)
  ultimately show ?thesis using map_values_round_trip [OF pb(2), of cld_from_pb cld_canon] cld_round_trip ok(3)
    by (simp add: version_delta_from_pb_def p distinct_remdups_id)
qed

section \<open>Properties\<close>

text \<open>
  C5. The protobuf encoder of versions, and likewise that of deltas, panics exactly when some SSTable,
  those of the change logs included, has size zero or unsorted table ids. What it produces for a
  well-formed version or delta decodes without a panic and gives it back, with its groups, watermarks,
  state tables and their rebuilt index, up to the flag of an unbounded key range in the change logs.
\<close>

theorem version_protobuf_exact:
  assumes "version_inv n UNIV v" and "delta_ok n UNIV d" and "\<forall>t. n t \<le> 2 ^ 16"
    and "\<forall>(g, ds) \<in> set (vd_group_deltas d). list_all removed_set ds"
  shows "(case version_to_pb v of
        None \<Rightarrow> \<exists>s \<in> set (get_sst_infos v). sst_size s = 0 \<or> \<not> sorted (sst_table_ids s)
      | Some p \<Rightarrow> (\<forall>s \<in> set (get_sst_infos v). sst_size s \<noteq> 0 \<and> sorted (sst_table_ids s))
          \<and> version_from_pb p =
              Some (v\<lparr>ver_table_change_log := map (\<lambda>(t, logs). (t, map cl_canon logs)) (ver_table_change_log v)\<rparr>))
    \<and> (case version_delta_to_pb d of
        None \<Rightarrow> \<exists>s \<in> set (delta_ssts d). sst_size s = 0 \<or> \<not> sorted (sst_table_ids s)
      | Some p \<Rightarrow> (\<forall>s \<in> set (delta_ssts d). sst_size s \<noteq> 0 \<and> sorted (sst_table_ids s))
          \<and> version_delta_from_pb p =
              Some (d\<lparr>vd_change_log_delta := map (\<lambda>(t, x). (t, cld_canon x)) (vd_change_log_delta d)\<rparr>))"
proof
  show "case version_to_pb v of
        None \<Rightarrow> \<exists>s \<in> set (get_sst_infos v). sst_size s = 0 \<or> \<not> sorted (sst_table_ids s)
      | Some p \<Rightarrow> (\<forall>s \<in> set (get_sst_infos v). sst_size s \<noteq> 0 \<and> sorted (sst_table_ids s))
          \<and> version_from_pb p =
              Some (v\<lparr>ver_table_change_log := map (\<lambda>(t, logs). (t, map cl_canon logs)) (ver_table_change_log v)\<rparr>)"
    using version_to_pb_None [of v] version_pb_round_trip [OF assms(1,3)] by (cases "version_to_pb v") auto
  show "case version_delta_to_pb d of
        None \<Rightarrow> \<exists>s \<in> set (delta_ssts d). sst_size s = 0 \<or> \<not> sorted (sst_table_ids s)
      | Some p \<Rightarrow> (\<forall>s \<in> set (delta_ssts d). sst_size s \<noteq> 0 \<and> sorted (sst_table_ids s))
          \<and> version_delta_from_pb p =
              Some (d\<lparr>vd_change_log_delta := map (\<lambda>(t, x). (t, cld_canon x)) (vd_change_log_delta d)\<rparr>)"
    using version_delta_to_pb_None [of d] version_delta_pb_round_trip [OF assms(2,3,4)]
    by (cases "version_delta_to_pb d") auto
qed

text \<open>The commit of one table, and the same commit with a table of size zero.\<close>

definition example_empty_commit :: version_delta where
  "example_empty_commit =
     example_commit\<lparr>vd_group_deltas := [(2, [NewL0SubLevel [example_sst\<lparr>sst_size := 0\<rparr>]])]\<rparr>"

lemma example_empty_commit_ok: "delta_ok (\<lambda>t. 4) UNIV example_empty_commit"
  using example_commit_ok example_sst_good by (simp add: delta_ok_def example_empty_commit_def example_commit_def sst_good_def sst_ok_def)

theorem version_protobuf_exact_witness:
  "(\<exists>p. version_to_pb (create_init_version example_config) = Some p
        \<and> version_from_pb p = Some (create_init_version example_config))
   \<and> (\<exists>p. version_delta_to_pb example_commit = Some p \<and> version_delta_from_pb p = Some example_commit)
   \<and> version_delta_to_pb example_empty_commit = None"
proof -
  note inv = create_init_version_inv [of "\<lambda>t. 4" UNIV example_config]
  note t = version_protobuf_exact [OF inv example_commit_ok] and e = version_protobuf_exact [OF inv example_empty_commit_ok]
  have v: "get_sst_infos (create_init_version example_config) = []"
    "ver_table_change_log (create_init_version example_config) = []"
    by (simp_all add: create_init_version_def get_sst_infos_def get_combined_levels_def example_config_def
        build_initial_compaction_group_levels_def)
  have "version_delta_to_pb example_empty_commit = None"
    using e by (cases "version_delta_to_pb example_empty_commit")
      (simp_all add: delta_ssts_def log_ssts_def example_empty_commit_def example_commit_def)
  then show ?thesis using t v
    by (cases "version_to_pb (create_init_version example_config)"; cases "version_delta_to_pb example_commit")
      (simp_all add: delta_ssts_def log_ssts_def example_commit_def example_sst_def)
qed

end
