(* ===== verification/Version_Read.thy ===== *)
theory Version_Read
  imports Hummock_Version
begin

text \<open>
  Reading a version, the rest of
  \<^verbatim>\<open>storage/hummock_sdk/src/compaction_group/hummock_version_ext.rs\<close>: tables and groups, branched objects, the
  tables a delta adds and removes, the watermarks at the safe epoch, and \<open>validate_version\<close>. The lemmas give
  the exact results of these queries.
\<close>

section \<open>Looking up groups and tables\<close>

text \<open>\<open>l0.sub_levels.iter().rev().chain(levels.iter())\<close>\<close>

definition chained_levels :: "levels \<Rightarrow> level list" where
  "chained_levels ls = rev (l0_sub_levels (lvs_l0 ls)) @ lvs_levels ls"

definition get_compaction_group_levels :: "hummock_version \<Rightarrow> u64 \<Rightarrow> levels option" where
  "get_compaction_group_levels v g = bt_get (ver_levels v) g"

definition get_sst_ids_by_group_id :: "hummock_version \<Rightarrow> u64 \<Rightarrow> u64 list" where
  "get_sst_ids_by_group_id v g =
     map sst_id (concat (map lvl_table_infos
       (concat (map (\<lambda>e. chained_levels (snd e)) (filter (\<lambda>e. fst e = g) (ver_levels v))))))"

text \<open>The callback of \<open>level_iter\<close> carries a state and says whether to go on.\<close>

fun visit_levels :: "('s \<Rightarrow> level \<Rightarrow> 's \<times> bool) \<Rightarrow> 's \<Rightarrow> level list \<Rightarrow> 's \<times> bool" where
  "visit_levels f s [] = (s, True)"
| "visit_levels f s (l # ls) = (let (s', go) = f s l in if go then visit_levels f s' ls else (s', False))"

definition level_iter :: "hummock_version \<Rightarrow> u64 \<Rightarrow> ('s \<Rightarrow> level \<Rightarrow> 's \<times> bool) \<Rightarrow> 's \<Rightarrow> 's" where
  "level_iter v g f s =
     (case bt_get (ver_levels v) g of
        None \<Rightarrow> s
      | Some ls \<Rightarrow>
          (let (s', go) = visit_levels f s (l0_sub_levels (lvs_l0 ls)) in
           if go then fst (visit_levels f s' (lvs_levels ls)) else s'))"

definition num_levels :: "hummock_version \<Rightarrow> u64 \<Rightarrow> nat" where
  "num_levels v g = (case bt_get (ver_levels v) g of Some ls \<Rightarrow> length (lvs_levels ls) + 1 | None \<Rightarrow> 0)"

definition get_compaction_group_ids :: "hummock_version \<Rightarrow> u64 list" where
  "get_compaction_group_ids v = map fst (ver_levels v)"

definition get_table_compaction_group_id_mapping :: "hummock_version \<Rightarrow> (u32, u64) btree" where
  "get_table_compaction_group_id_mapping v =
     map (\<lambda>(t, info). (t, sti_compaction_group_id info)) (vsti_info (ver_state_table_info v))"

definition get_compaction_group_ssts :: "hummock_version \<Rightarrow> u64 \<Rightarrow> (u64 \<times> u64) list option" where
  "get_compaction_group_ssts v g =
     do { ls \<leftarrow> get_compaction_group_levels v g;
          Some (concat (map (\<lambda>l. map (\<lambda>s. (sst_object_id s, sst_id s)) (lvl_table_infos l)) (chained_levels ls))) }"

definition object_size_map :: "hummock_version \<Rightarrow> (u64, u64) btree" where
  "object_size_map v =
     foldl (\<lambda>m s. bt_insert (sst_object_id s) (sst_file_size s) m) []
       (concat (map (\<lambda>(g, ls). concat (map lvl_table_infos (l0_sub_levels (lvs_l0 ls) @ lvs_levels ls))) (ver_levels v))
        @ concat (map (\<lambda>(t, logs). concat (map (\<lambda>l. cl_old_value l @ cl_new_value l) logs)) (ver_table_change_log v)))"

section \<open>Branched objects\<close>

type_synonym branched_sst_info = "(u64, u64 list) btree"

definition push_branch :: "u64 \<Rightarrow> (u64, branched_sst_info) btree \<Rightarrow> sstable_info \<Rightarrow> (u64, branched_sst_info) btree" where
  "push_branch g ret s =
     (if sst_id s = sst_object_id s then ret
      else let entry = (case bt_get ret (sst_object_id s) of None \<Rightarrow> [] | Some e \<Rightarrow> e);
               ids = (case bt_get entry g of None \<Rightarrow> [] | Some ids \<Rightarrow> ids)
           in bt_insert (sst_object_id s) (bt_insert g (ids @ [sst_id s]) entry) ret)"

definition build_branched_sst_info :: "hummock_version \<Rightarrow> (u64, branched_sst_info) btree" where
  "build_branched_sst_info v =
     foldl (\<lambda>ret (g, ls). foldl (\<lambda>ret l. foldl (push_branch g) ret (lvl_table_infos l)) ret
         (l0_sub_levels (lvs_l0 ls) @ lvs_levels ls))
       [] (ver_levels v)"

section \<open>What a delta adds and removes\<close>

record sst_delta_info =
  sdi_insert_sst_level :: u32
  sdi_insert_sst_infos :: "sstable_info list"
  sdi_delete_sst_object_ids :: "u64 list"

fun is_level_delta :: "group_delta \<Rightarrow> bool" where
  "is_level_delta (IntraLevel d) = True"
| "is_level_delta (NewL0SubLevel ssts) = True"
| "is_level_delta _ = False"

type_synonym removed_ssts = "u64 set \<times> (u32, u64 set) btree"

definition collect_removed :: "u32 \<Rightarrow> removed_ssts \<Rightarrow> u64 \<Rightarrow> removed_ssts" where
  "collect_removed level_idx r i =
     (if level_idx = 0 then (insert i (fst r), snd r)
      else (fst r, bt_insert level_idx (insert i (case bt_get (snd r) level_idx of None \<Rightarrow> {} | Some s \<Rightarrow> s)) (snd r)))"

fun collect_delta :: "sst_delta_info \<times> removed_ssts \<Rightarrow> group_delta \<Rightarrow> sst_delta_info \<times> removed_ssts" where
  "collect_delta (info, r) (NewL0SubLevel ssts) =
     (if ssts = [] then info
      else info\<lparr>sdi_insert_sst_level := 0, sdi_insert_sst_infos := sdi_insert_sst_infos info @ ssts\<rparr>, r)"
| "collect_delta (info, r) (IntraLevel d) =
     (if ild_inserted_table_infos d = [] then info
      else info\<lparr>sdi_insert_sst_level := ild_level_idx d,
                sdi_insert_sst_infos := sdi_insert_sst_infos info @ ild_inserted_table_infos d\<rparr>,
      foldl (collect_removed (ild_level_idx d)) r (ild_removed_table_ids d))"
| "collect_delta (info, r) _ = (info, r)"

text \<open>The ids are removed from the set as their tables are found.\<close>

fun take_removed :: "sstable_info list \<Rightarrow> u64 set \<Rightarrow> u64 list \<times> u64 set" where
  "take_removed [] removed = ([], removed)"
| "take_removed (s # ss) removed =
     (if sst_id s \<in> removed
      then let (ids, rest) = take_removed ss (removed - {sst_id s}) in (sst_object_id s # ids, rest)
      else take_removed ss removed)"

fun take_removed_l0 :: "level list \<Rightarrow> u64 set \<Rightarrow> u64 list" where
  "take_removed_l0 [] removed = []"
| "take_removed_l0 (l # ls) removed =
     (let (ids, rest) = take_removed (lvl_table_infos l) removed in ids @ take_removed_l0 ls rest)"

fun take_removed_levels :: "level list \<Rightarrow> (u32, u64 set) btree \<Rightarrow> u64 list" where
  "take_removed_levels [] removed = []"
| "take_removed_levels (l # ls) removed =
     (case bt_get removed (lvl_idx l) of
        None \<Rightarrow> take_removed_levels ls removed
      | Some ids \<Rightarrow> fst (take_removed (lvl_table_infos l) ids) @ take_removed_levels ls (bt_remove (lvl_idx l) removed))"

definition sst_delta_info_of :: "levels \<Rightarrow> group_delta list \<Rightarrow> sst_delta_info" where
  "sst_delta_info_of ls ds =
     (let (info, removed_l0, removed) =
            foldl collect_delta (\<lparr>sdi_insert_sst_level = 0, sdi_insert_sst_infos = [], sdi_delete_sst_object_ids = []\<rparr>, {}, []) ds
      in info\<lparr>sdi_delete_sst_object_ids :=
           take_removed_l0 (l0_sub_levels (lvs_l0 ls)) removed_l0 @ take_removed_levels (lvs_levels ls) removed\<rparr>)"

fun sst_delta_infos_of :: "(u64, levels) btree \<Rightarrow> (u64 \<times> group_delta list) list \<Rightarrow> sst_delta_info list option" where
  "sst_delta_infos_of m [] = Some []"
| "sst_delta_infos_of m ((g, ds) # rest) =
     (if \<not> list_all is_level_delta ds then sst_delta_infos_of m rest
      else do { ls \<leftarrow> bt_get m g;
                infos \<leftarrow> sst_delta_infos_of m rest;
                Some (sst_delta_info_of ls ds # infos) })"

definition build_sst_delta_infos :: "hummock_version \<Rightarrow> version_delta \<Rightarrow> sst_delta_info list option" where
  "build_sst_delta_infos v d =
     (if vd_trivial_move d then Some [] else sst_delta_infos_of (ver_levels v) (vd_group_deltas d))"

section \<open>Watermarks at the safe epoch\<close>

definition extract_single_table_watermark :: "table_watermarks \<Rightarrow> table_watermarks option" where
  "extract_single_table_watermark w =
     (case tw_watermarks w of
        [] \<Rightarrow> None
      | e # _ \<Rightarrow> Some \<lparr>tw_watermarks = [e], tw_direction = tw_direction w\<rparr>)"

definition safe_epoch_table_watermarks_impl ::
    "(table_id, table_watermarks) btree \<Rightarrow> u32 list \<Rightarrow> (u32, table_watermarks) btree" where
  "safe_epoch_table_watermarks_impl m existing_table_ids =
     List.map_filter (\<lambda>(t, w). if t \<notin> set existing_table_ids then None
                               else map_option (Pair t) (extract_single_table_watermark w)) m"

definition safe_epoch_table_watermarks :: "hummock_version \<Rightarrow> u32 list \<Rightarrow> (u32, table_watermarks) btree" where
  "safe_epoch_table_watermarks v existing_table_ids =
     safe_epoch_table_watermarks_impl (ver_table_watermarks v) existing_table_ids"

record read_table_watermark =
  rtw_direction :: watermark_direction
  rtw_vnode_watermarks :: "(vnode, bytes) btree"

fun insert_vnode_watermarks :: "bytes \<Rightarrow> vnode list \<Rightarrow> (vnode, bytes) btree \<Rightarrow> (vnode, bytes) btree option" where
  "insert_vnode_watermarks w [] m = Some m"
| "insert_vnode_watermarks w (v # vs) m =
     (if bt_get m v \<noteq> None then None else insert_vnode_watermarks w vs (bt_insert v w m))"

fun collect_vnode_watermarks :: "vnode_watermark list \<Rightarrow> (vnode, bytes) btree \<Rightarrow> (vnode, bytes) btree option" where
  "collect_vnode_watermarks [] m = Some m"
| "collect_vnode_watermarks (w # ws) m =
     do { m \<leftarrow> insert_vnode_watermarks (vw_watermark w) (iter_vnodes (vw_bitmap w)) m;
          collect_vnode_watermarks ws m }"

definition read_table_watermark_of :: "table_watermarks \<Rightarrow> read_table_watermark option" where
  "read_table_watermark_of w =
     (case tw_watermarks w of
        [(epoch, ws)] \<Rightarrow> do { m \<leftarrow> collect_vnode_watermarks ws [];
                             Some \<lparr>rtw_direction = tw_direction w, rtw_vnode_watermarks = m\<rparr> }
      | _ \<Rightarrow> None)"

fun safe_epoch_read_table_watermarks_impl ::
    "(u32, table_watermarks) btree \<Rightarrow> (table_id, read_table_watermark) btree option" where
  "safe_epoch_read_table_watermarks_impl [] = Some []"
| "safe_epoch_read_table_watermarks_impl ((t, w) # rest) =
     do { r \<leftarrow> read_table_watermark_of w;
          rs \<leftarrow> safe_epoch_read_table_watermarks_impl rest;
          Some ((t, r) # rs) }"

section \<open>Validating a version\<close>

text \<open>
  The messages of \<open>validate_version\<close>. A level is named by its group, its index and, in level 0, its
  sub-level id.
\<close>

record level_name =
  ln_group :: u64
  ln_level :: u32
  ln_sub_level :: "u64 option"

datatype violation =
    InconsistentGroupId u64 u64
  | EmptyLevel level_name
  | WrongLevelType level_name level_type
  | MismatchedLevelIdx level_name u32
  | TableIdsNotSorted level_name u64
  | KeyRangesOverlap level_name u64 sstable_info sstable_info
  | SubLevelIdOrder u64 u32 u64

fun validate_ssts :: "level_name \<Rightarrow> bool \<Rightarrow> sstable_info option \<Rightarrow> sstable_info list \<Rightarrow> violation list option" where
  "validate_ssts n nonoverlapping prv [] = Some []"
| "validate_ssts n nonoverlapping prv (s # ss) =
     do { let unsorted = (if sorted_wrt (<) (sst_table_ids s) then [] else [TableIdsNotSorted n (sst_object_id s)]);
          if nonoverlapping then do {
            overlap \<leftarrow> (case prv of
              None \<Rightarrow> Some []
            | Some p \<Rightarrow> do { c \<leftarrow> compare_right_with (sst_key_range p) (kr_left (sst_key_range s));
                            Some (if c \<noteq> Less then [KeyRangesOverlap n (sst_object_id s) p s] else []) });
            rest \<leftarrow> validate_ssts n nonoverlapping (Some s) ss;
            Some (unsorted @ overlap @ rest) }
          else do { rest \<leftarrow> validate_ssts n nonoverlapping prv ss; Some (unsorted @ rest) } }"

definition validate_level :: "u64 \<Rightarrow> u32 \<Rightarrow> level \<Rightarrow> violation list option" where
  "validate_level g expected_level_idx l =
     (let n = \<lparr>ln_group = g, ln_level = lvl_idx l,
               ln_sub_level = (if lvl_idx l = 0 then Some (lvl_sub_level_id l) else None)\<rparr>;
          kind = (if lvl_idx l = 0 then (if lvl_table_infos l = [] then [EmptyLevel n] else [])
                  else if lvl_type l \<noteq> Nonoverlapping then [WrongLevelType n (lvl_type l)] else []);
          idx = (if lvl_idx l \<noteq> expected_level_idx then [MismatchedLevelIdx n expected_level_idx] else [])
      in do { ssts \<leftarrow> validate_ssts n (lvl_type l = Nonoverlapping) None (lvl_table_infos l);
              Some (kind @ idx @ ssts) })"

fun validate_sub_levels :: "u64 \<Rightarrow> u64 \<Rightarrow> level list \<Rightarrow> violation list option" where
  "validate_sub_levels g prev_sub_level_id [] = Some []"
| "validate_sub_levels g prev_sub_level_id (l # ls) =
     do { let order = (if lvl_sub_level_id l \<ge> prev_sub_level_id then [SubLevelIdOrder g (lvl_idx l) prev_sub_level_id] else []);
          lv \<leftarrow> validate_level g 0 l;
          rest \<leftarrow> validate_sub_levels g (lvl_sub_level_id l) ls;
          Some (order @ lv @ rest) }"

fun validate_base_levels :: "u64 \<Rightarrow> nat \<Rightarrow> level list \<Rightarrow> violation list option" where
  "validate_base_levels g idx [] = Some []"
| "validate_base_levels g idx (l # ls) =
     do { lv \<leftarrow> validate_level g (word_of_nat idx) l;
          rest \<leftarrow> validate_base_levels g (idx + 1) ls;
          Some (lv @ rest) }"

fun validate_groups :: "(u64 \<times> levels) list \<Rightarrow> violation list option" where
  "validate_groups [] = Some []"
| "validate_groups ((g, ls) # rest) =
     do { let wrong = (if lvs_group_id ls \<noteq> g then [InconsistentGroupId g (lvs_group_id ls)] else []);
          l0 \<leftarrow> validate_sub_levels g (-1) (l0_sub_levels (lvs_l0 ls));
          base \<leftarrow> validate_base_levels g 1 (lvs_levels ls);
          others \<leftarrow> validate_groups rest;
          Some (wrong @ l0 @ base @ others) }"

definition validate_version :: "hummock_version \<Rightarrow> violation list option" where
  "validate_version v = validate_groups (ver_levels v)"

section \<open>What validation reports\<close>

fun sub_level_order_of :: "u64 \<Rightarrow> violation \<Rightarrow> bool" where
  "sub_level_order_of g (SubLevelIdOrder g' i p) = (g' = g)"
| "sub_level_order_of g _ = False"

fun key_ranges_overlap :: "violation \<Rightarrow> bool" where
  "key_ranges_overlap (KeyRangesOverlap n i a b) = True"
| "key_ranges_overlap _ = False"

text \<open>A violation of neither kind.\<close>

abbreviation other_violation :: "violation \<Rightarrow> bool" where
  "other_violation x \<equiv> \<not> key_ranges_overlap x \<and> (\<forall>g. \<not> sub_level_order_of g x)"

lemma compare_right_before:
  assumes "sst_ok a" and "sst_ok b" and "sst_before a b"
  shows "compare_right_with (sst_key_range a) (kr_left (sst_key_range b)) = Some Less"
  using can_concat_pair_before [OF assms(1,2)] assms(3) by (auto simp: can_concat_pair_def)

lemma validate_ssts_shape:
  assumes "\<forall>s \<in> set ss. sst_ok s" and "\<forall>p. prv = Some p \<longrightarrow> sst_ok p"
    and "nonoverlapping \<longrightarrow> sorted_wrt sst_before (case prv of None \<Rightarrow> ss | Some p \<Rightarrow> p # ss)"
  shows "\<exists>vs. validate_ssts n nonoverlapping prv ss = Some vs \<and> list_all other_violation vs"
  using assms
proof (induction ss arbitrary: prv)
  case (Cons s ss)
  show ?case
  proof (cases nonoverlapping)
    case True
    have srt: "sorted_wrt sst_before (s # ss)" using Cons.prems(3) True by (auto split: option.splits)
    obtain vs where vs: "validate_ssts n nonoverlapping (Some s) ss = Some vs" "list_all other_violation vs"
      using Cons.IH [of "Some s"] Cons.prems(1) srt by auto
    have "compare_right_with (sst_key_range p) (kr_left (sst_key_range s)) = Some Less" if "prv = Some p" for p
      using Cons.prems True that by (intro compare_right_before) auto
    with vs True show ?thesis by (cases prv) simp_all
  next
    case False
    obtain vs where "validate_ssts n nonoverlapping prv ss = Some vs" "list_all other_violation vs"
      using Cons.IH [of prv] Cons.prems False by auto
    with False show ?thesis by simp
  qed
qed simp

lemma validate_level_shape:
  assumes "level_shape X l"
  shows "\<exists>vs. validate_level g i l = Some vs \<and> list_all other_violation vs"
proof -
  let ?n = "\<lparr>ln_group = g, ln_level = lvl_idx l, ln_sub_level = (if lvl_idx l = 0 then Some (lvl_sub_level_id l) else None)\<rparr>"
  have "\<exists>vs. validate_ssts ?n (lvl_type l = Nonoverlapping) None (lvl_table_infos l) = Some vs \<and> list_all other_violation vs"
    by (rule validate_ssts_shape) (use assms in \<open>auto simp: level_shape_def sst_good_def level_ok_iff\<close>)
  then show ?thesis by (auto simp: validate_level_def Let_def)
qed

fun order_violations :: "u64 \<Rightarrow> u64 \<Rightarrow> level list \<Rightarrow> violation list" where
  "order_violations g p [] = []"
| "order_violations g p (l # ls) =
     (if lvl_sub_level_id l \<ge> p then [SubLevelIdOrder g (lvl_idx l) p] else []) @ order_violations g (lvl_sub_level_id l) ls"

lemma filter_other: "list_all other_violation vs \<Longrightarrow> filter (sub_level_order_of g) vs = []"
  by (auto simp: list_all_iff filter_empty_conv)

lemma no_overlap_other: "list_all other_violation vs \<Longrightarrow> list_all (\<lambda>x. \<not> key_ranges_overlap x) vs"
  by (auto simp: list_all_iff)

lemma validate_sub_levels_shape:
  assumes "\<forall>l \<in> set ls. level_shape X l"
  shows "\<exists>vs. validate_sub_levels g p ls = Some vs \<and> list_all (\<lambda>x. \<not> key_ranges_overlap x) vs
    \<and> filter (sub_level_order_of g') vs = (if g' = g then order_violations g p ls else [])"
  using assms
proof (induction ls arbitrary: p)
  case (Cons l ls)
  obtain a where a: "validate_level g 0 l = Some a" "list_all other_violation a"
    using validate_level_shape [of X l g 0] Cons.prems by auto
  obtain b where b: "validate_sub_levels g (lvl_sub_level_id l) ls = Some b" "list_all (\<lambda>x. \<not> key_ranges_overlap x) b"
    "filter (sub_level_order_of g') b = (if g' = g then order_violations g (lvl_sub_level_id l) ls else [])"
    using Cons.IH [of "lvl_sub_level_id l"] Cons.prems by auto
  show ?case using a b by (simp add: filter_other no_overlap_other)
qed simp

lemma validate_base_levels_shape:
  assumes "\<forall>l \<in> set ls. level_shape X l"
  shows "\<exists>vs. validate_base_levels g i ls = Some vs \<and> list_all other_violation vs"
  using assms
proof (induction ls arbitrary: i)
  case (Cons l ls)
  obtain a where a: "validate_level g (word_of_nat i) l = Some a" "list_all other_violation a"
    using validate_level_shape [of X l] Cons.prems by fastforce
  obtain b where b: "validate_base_levels g (i + 1) ls = Some b" "list_all other_violation b"
    using Cons.IH [of "i + 1"] Cons.prems by auto
  show ?case using a b by simp
qed simp

lemma levels_shape_members:
  "levels_shape X ls \<Longrightarrow> l \<in> set (l0_sub_levels (lvs_l0 ls)) \<union> set (lvs_levels ls) \<Longrightarrow> level_shape X l"
  by (auto simp: levels_shape_def subs_shape_def base_shape_def) (metis in_set_conv_nth)

lemma validate_groups_shape:
  assumes "distinct (map fst m)" and "\<forall>(g, ls) \<in> set m. levels_shape X ls"
  shows "\<exists>vs. validate_groups m = Some vs \<and> list_all (\<lambda>x. \<not> key_ranges_overlap x) vs
    \<and> filter (sub_level_order_of g) vs =
        (case map_of m g of None \<Rightarrow> [] | Some ls \<Rightarrow> order_violations g (-1) (l0_sub_levels (lvs_l0 ls)))"
  using assms
proof (induction m)
  case (Cons e m)
  obtain g' ls where e: "e = (g', ls)" by (cases e)
  have sh: "levels_shape X ls" using Cons.prems(2) e by simp
  obtain a where a: "validate_sub_levels g' (-1) (l0_sub_levels (lvs_l0 ls)) = Some a" "list_all (\<lambda>x. \<not> key_ranges_overlap x) a"
    "filter (sub_level_order_of g) a = (if g = g' then order_violations g' (-1) (l0_sub_levels (lvs_l0 ls)) else [])"
    using validate_sub_levels_shape [of "l0_sub_levels (lvs_l0 ls)" X g' "-1" g] levels_shape_members [OF sh] by blast
  obtain b where b: "validate_base_levels g' 1 (lvs_levels ls) = Some b" "list_all other_violation b"
    using validate_base_levels_shape [of "lvs_levels ls" X g' 1] levels_shape_members [OF sh] by blast
  obtain c where c: "validate_groups m = Some c" "list_all (\<lambda>x. \<not> key_ranges_overlap x) c"
    "filter (sub_level_order_of g) c =
       (case map_of m g of None \<Rightarrow> [] | Some ls \<Rightarrow> order_violations g (-1) (l0_sub_levels (lvs_l0 ls)))"
    using Cons by auto
  have "map_of m g = None" if "g = g'" using that Cons.prems(1) e by (auto simp: map_of_eq_None_iff)
  then show ?case using a b c by (cases "g = g'") (simp_all add: e filter_other no_overlap_other)
qed simp

lemma order_violations_ascending:
  assumes "sorted_wrt (<) (map lvl_sub_level_id (l # ls))"
  shows "order_violations g (lvl_sub_level_id l) ls =
    map (\<lambda>(p, l). SubLevelIdOrder g (lvl_idx l) (lvl_sub_level_id p)) (zip (l # ls) ls)"
  using assms
proof (induction ls arbitrary: l)
  case (Cons k ls)
  then show ?case using Cons.IH [of k] by (simp add: less_imp_le)
qed simp

lemma validate_version_order:
  assumes "version_inv n UNIV v" and "bt_get (ver_levels v) g = Some ls"
    and "l0_sub_levels (lvs_l0 ls) = s # ss" and "lvl_sub_level_id s \<noteq> -1"
  shows "\<exists>vs. validate_version v = Some vs \<and> list_all (\<lambda>x. \<not> key_ranges_overlap x) vs
    \<and> filter (sub_level_order_of g) vs = map (\<lambda>(p, l). SubLevelIdOrder g (lvl_idx l) (lvl_sub_level_id p)) (zip (s # ss) ss)"
proof -
  have ok: "bt_ok (ver_levels v)" and sh: "\<forall>(g, ls) \<in> set (ver_levels v). levels_shape UNIV ls"
    using assms(1) by (auto simp: version_inv_def groups_ok_def bt_get_iff)
  have d: "distinct (map fst (ver_levels v))" using ok by (rule bt_ok_distinct)
  obtain vs where vs: "validate_version v = Some vs" "list_all (\<lambda>x. \<not> key_ranges_overlap x) vs"
    "filter (sub_level_order_of g) vs = order_violations g (-1) (s # ss)"
    using validate_groups_shape [OF d sh, of g] by (auto simp: validate_version_def bt_get_def [symmetric] assms(2,3))
  have "levels_shape UNIV ls" using ok sh assms(2) by (auto simp: bt_get_iff)
  then have "sorted_wrt (<) (map lvl_sub_level_id (s # ss))" using assms(3) by (simp add: levels_shape_def subs_shape_def)
  moreover have "\<not> lvl_sub_level_id s \<ge> -1" using assms(4) word_order.extremum_unique by blast
  ultimately show ?thesis using vs order_violations_ascending [of s ss g] by simp
qed

section \<open>Branched objects, exactly\<close>

definition group_ssts :: "levels \<Rightarrow> sstable_info list" where
  "group_ssts ls = concat (map lvl_table_infos (l0_sub_levels (lvs_l0 ls) @ lvs_levels ls))"

definition branches :: "(u64, branched_sst_info) btree \<Rightarrow> u64 \<Rightarrow> u64 \<Rightarrow> u64 list" where
  "branches ret obj g = (case bt_get ret obj of None \<Rightarrow> [] | Some e \<Rightarrow> (case bt_get e g of None \<Rightarrow> [] | Some ids \<Rightarrow> ids))"

text \<open>No entry without branches.\<close>

definition branched_ok :: "(u64, branched_sst_info) btree \<Rightarrow> bool" where
  "branched_ok ret = (bt_ok ret \<and> (\<forall>obj e. bt_get ret obj = Some e \<longrightarrow>
     bt_ok e \<and> (\<exists>g. bt_get e g \<noteq> None) \<and> (\<forall>g ids. bt_get e g = Some ids \<longrightarrow> ids \<noteq> [])))"

definition branch_ids :: "u64 \<Rightarrow> sstable_info list \<Rightarrow> u64 list" where
  "branch_ids obj ssts = map sst_id (filter (\<lambda>s. sst_object_id s = obj \<and> sst_id s \<noteq> obj) ssts)"

lemma push_branch_correct:
  assumes "branched_ok ret"
  shows "branched_ok (push_branch g ret s)"
    and "branches (push_branch g ret s) obj g' = branches ret obj g' @ (if g' = g then branch_ids obj [s] else [])"
proof -
  define entry where "entry = (case bt_get ret (sst_object_id s) of None \<Rightarrow> [] | Some e \<Rightarrow> e)"
  have e: "bt_ok entry" "\<forall>g ids. bt_get entry g = Some ids \<longrightarrow> ids \<noteq> []"
    using assms by (auto simp: entry_def branched_ok_def bt_get_def split: option.split)
  show "branched_ok (push_branch g ret s)"
    using assms e by (auto simp: push_branch_def Let_def branched_ok_def bt_get_insert bt_insert_ok simp flip: entry_def)
  have "branches ret (sst_object_id s) g' = (case bt_get entry g' of None \<Rightarrow> [] | Some ids \<Rightarrow> ids)" for g'
    by (simp add: branches_def entry_def bt_get_def split: option.split)
  then show "branches (push_branch g ret s) obj g' = branches ret obj g' @ (if g' = g then branch_ids obj [s] else [])"
    using e(1) assms
    by (cases "obj = sst_object_id s"; cases "sst_id s = sst_object_id s"; cases "g' = g")
      (auto simp: push_branch_def branched_ok_def branches_def branch_ids_def Let_def bt_get_insert simp flip: entry_def)
qed

lemma push_branches_correct:
  assumes "branched_ok ret"
  shows "branched_ok (foldl (push_branch g) ret ssts)
    \<and> branches (foldl (push_branch g) ret ssts) obj g' = branches ret obj g' @ (if g' = g then branch_ids obj ssts else [])"
  using assms
proof (induction ssts arbitrary: ret)
  case (Cons s ssts)
  show ?case using Cons.IH [OF push_branch_correct(1) [OF Cons.prems], of g s] push_branch_correct(2) [OF Cons.prems, of g s]
    by (auto simp: branch_ids_def)
qed (simp add: branch_ids_def)

lemma foldl_concat: "foldl (\<lambda>a l. foldl f a (h l)) a ls = foldl f a (concat (map h ls))"
  by (induction ls arbitrary: a) simp_all

lemma push_groups_correct:
  assumes "branched_ok ret" and "distinct (map fst m)"
  shows "let ret' = foldl (\<lambda>ret (g, ls). foldl (push_branch g) ret (group_ssts ls)) ret m in
    branched_ok ret' \<and> branches ret' obj g = branches ret obj g @
      (case map_of m g of None \<Rightarrow> [] | Some ls \<Rightarrow> branch_ids obj (group_ssts ls))"
  using assms
proof (induction m arbitrary: ret)
  case (Cons e m)
  obtain g' ls where e: "e = (g', ls)" by (cases e)
  note p = push_branches_correct [OF Cons.prems(1), of g' "group_ssts ls" obj g]
  have "map_of m g = None" if "g = g'" using that Cons.prems(2) e by (auto simp: map_of_eq_None_iff)
  then show ?case using Cons.IH [OF conjunct1 [OF p]] Cons.prems(2) p by (auto simp: e Let_def split: option.splits)
qed simp

lemma build_branched_sst_info_correct:
  assumes "bt_ok (ver_levels v)"
  shows "branched_ok (build_branched_sst_info v)"
    and "branches (build_branched_sst_info v) obj g =
      (case bt_get (ver_levels v) g of None \<Rightarrow> [] | Some ls \<Rightarrow> branch_ids obj (group_ssts ls))"
proof -
  have e: "build_branched_sst_info v = foldl (\<lambda>ret (g, ls). foldl (push_branch g) ret (group_ssts ls)) [] (ver_levels v)"
    by (simp add: build_branched_sst_info_def group_ssts_def foldl_concat del: map_append)
  have ok: "branched_ok []" by (simp add: branched_ok_def bt_get_def)
  note p = push_groups_correct [OF ok bt_ok_distinct [OF assms], unfolded Let_def]
  show "branched_ok (build_branched_sst_info v)" unfolding e by (rule conjunct1 [OF p [of 0 0]])
  show "branches (build_branched_sst_info v) obj g =
      (case bt_get (ver_levels v) g of None \<Rightarrow> [] | Some ls \<Rightarrow> branch_ids obj (group_ssts ls))"
    unfolding e conjunct2 [OF p] by (simp add: branches_def bt_get_def)
qed

section \<open>Removed objects, exactly\<close>

text \<open>The ids a list of deltas removes at a level.\<close>

fun removed_at :: "u32 \<Rightarrow> group_delta \<Rightarrow> u64 set" where
  "removed_at i (IntraLevel d) = (if ild_level_idx d = i then set (ild_removed_table_ids d) else {})"
| "removed_at i _ = {}"

definition removed_ids :: "u32 \<Rightarrow> group_delta list \<Rightarrow> u64 set" where
  "removed_ids i ds = (\<Union>d \<in> set ds. removed_at i d)"

definition pending :: "removed_ssts \<Rightarrow> u32 \<Rightarrow> u64 set" where
  "pending r i = (if i = 0 then fst r else (case bt_get (snd r) i of None \<Rightarrow> {} | Some s \<Rightarrow> s))"

lemma collect_removed_pending:
  "pending (foldl (collect_removed i) r ids) j = pending r j \<union> (if j = i then set ids else {})"
proof (induction ids arbitrary: r)
  case (Cons x ids)
  have "pending (collect_removed i r x) j = pending r j \<union> (if j = i then {x} else {})"
    by (auto simp: pending_def collect_removed_def bt_get_insert split: option.split)
  then show ?case using Cons by simp
qed simp

lemma collect_delta_correct:
  "snd (collect_delta (info, r) d) = r' \<Longrightarrow> pending r' i = pending r i \<union> removed_at i d"
  "sdi_insert_sst_infos (fst (collect_delta (info, r) d)) = sdi_insert_sst_infos info @ delta_sst_infos d"
  by (cases d; auto simp: collect_removed_pending)+

lemma collect_deltas_correct:
  "foldl collect_delta (info, r) ds = (info', r') \<Longrightarrow>
     pending r' i = pending r i \<union> removed_ids i ds
     \<and> sdi_insert_sst_infos info' = sdi_insert_sst_infos info @ concat (map delta_sst_infos ds)"
proof (induction ds arbitrary: info r)
  case (Cons d ds)
  obtain info1 r1 where 1: "collect_delta (info, r) d = (info1, r1)" by (cases "collect_delta (info, r) d")
  then show ?case using Cons.IH [of info1 r1] Cons.prems collect_delta_correct(1) [of info r d r1 i] collect_delta_correct(2) [of info r d]
    by (auto simp: removed_ids_def)
qed (simp add: removed_ids_def)

lemma take_removed_correct:
  assumes "distinct (map sst_id ssts)"
  shows "take_removed ssts R = (map sst_object_id (filter (\<lambda>s. sst_id s \<in> R) ssts), R - sst_id ` set ssts)"
  using assms
proof (induction ssts arbitrary: R)
  case (Cons s ssts)
  have "filter (\<lambda>x. sst_id x \<in> R \<and> sst_id x \<noteq> sst_id s) ssts = filter (\<lambda>x. sst_id x \<in> R) ssts"
    using Cons.prems by (intro filter_cong) (auto simp: image_iff)
  with Cons show ?case by auto
qed simp

lemma take_removed_l0_correct:
  assumes "distinct (map sst_id (concat (map lvl_table_infos ls)))"
  shows "take_removed_l0 ls R = map sst_object_id (filter (\<lambda>s. sst_id s \<in> R) (concat (map lvl_table_infos ls)))"
  using assms
proof (induction ls arbitrary: R)
  case (Cons l ls)
  have "filter (\<lambda>s. sst_id s \<in> R - sst_id ` set (lvl_table_infos l)) (concat (map lvl_table_infos ls))
      = filter (\<lambda>s. sst_id s \<in> R) (concat (map lvl_table_infos ls))"
    using Cons.prems by (intro filter_cong) (auto simp: image_iff)
  with Cons show ?case by (simp add: take_removed_correct)
qed simp

lemma take_removed_levels_correct:
  assumes "distinct (map lvl_idx ls)" and "\<forall>l \<in> set ls. distinct (map sst_id (lvl_table_infos l))" and "bt_ok R"
  shows "take_removed_levels ls R = concat (map (\<lambda>l. map sst_object_id
     (filter (\<lambda>s. sst_id s \<in> (case bt_get R (lvl_idx l) of None \<Rightarrow> {} | Some ids \<Rightarrow> ids)) (lvl_table_infos l))) ls)"
  using assms
proof (induction ls arbitrary: R)
  case (Cons l ls)
  show ?case
  proof (cases "bt_get R (lvl_idx l)")
    case None
    then show ?thesis using Cons by simp
  next
    case (Some ids)
    have "bt_get (bt_remove (lvl_idx l) R) (lvl_idx k) = bt_get R (lvl_idx k)" if "k \<in> set ls" for k
      using Cons.prems(1,3) that by (auto simp: bt_get_remove image_iff)
    then show ?thesis using Cons.IH [of "bt_remove (lvl_idx l) R"] Cons.prems Some
      by (simp add: take_removed_correct bt_remove_ok cong: map_cong)
  qed
qed simp

lemma collect_delta_ok: "bt_ok (snd r) \<Longrightarrow> bt_ok (snd (snd (collect_delta (info, r) d)))"
proof (cases d)
  case (IntraLevel x)
  have "bt_ok (snd r) \<Longrightarrow> bt_ok (snd (foldl (collect_removed i) r ids))" for i ids
    by (induction ids arbitrary: r) (simp_all add: collect_removed_def bt_insert_ok)
  then show "bt_ok (snd r) \<Longrightarrow> ?thesis" by (simp add: IntraLevel)
qed simp_all

lemma collect_deltas_ok: "foldl collect_delta (info, r) ds = (info', r') \<Longrightarrow> bt_ok (snd r) \<Longrightarrow> bt_ok (snd r')"
proof (induction ds arbitrary: info r)
  case (Cons d ds)
  obtain info1 r1 where 1: "collect_delta (info, r) d = (info1, r1)" by (cases "collect_delta (info, r) d")
  then show ?case using Cons.IH [of info1 r1] Cons.prems collect_delta_ok [of r info d] by auto
qed simp

text \<open>The objects whose tables the deltas remove: level 0 first, then the other levels.\<close>

definition removed_objects :: "levels \<Rightarrow> group_delta list \<Rightarrow> u64 list" where
  "removed_objects ls ds =
     map sst_object_id (filter (\<lambda>s. sst_id s \<in> removed_ids 0 ds) (concat (map lvl_table_infos (l0_sub_levels (lvs_l0 ls)))))
     @ concat (map (\<lambda>l. map sst_object_id (filter (\<lambda>s. sst_id s \<in> removed_ids (lvl_idx l) ds) (lvl_table_infos l))) (lvs_levels ls))"

definition ids_unique :: "levels \<Rightarrow> bool" where
  "ids_unique ls = (distinct (map sst_id (concat (map lvl_table_infos (l0_sub_levels (lvs_l0 ls)))))
     \<and> (\<forall>l \<in> set (lvs_levels ls). distinct (map sst_id (lvl_table_infos l)) \<and> lvl_idx l \<noteq> 0)
     \<and> distinct (map lvl_idx (lvs_levels ls)))"

lemma sst_delta_info_of_correct:
  assumes "ids_unique ls"
  shows "sdi_insert_sst_infos (sst_delta_info_of ls ds) = concat (map delta_sst_infos ds)"
    and "sdi_delete_sst_object_ids (sst_delta_info_of ls ds) = removed_objects ls ds"
proof -
  let ?i = "\<lparr>sdi_insert_sst_level = 0, sdi_insert_sst_infos = [], sdi_delete_sst_object_ids = []\<rparr>"
  obtain info r0 r where f: "foldl collect_delta (?i, {}, []) ds = (info, r0, r)" by (cases "foldl collect_delta (?i, {}, []) ds") auto
  note c = collect_deltas_correct [OF f]
  have r0: "r0 = removed_ids 0 ds" using conjunct1 [OF c [of 0]] by (simp add: pending_def)
  have r: "(case bt_get r (lvl_idx l) of None \<Rightarrow> {} | Some s \<Rightarrow> s) = removed_ids (lvl_idx l) ds" if "lvl_idx l \<noteq> 0" for l
    using conjunct1 [OF c [of "lvl_idx l"]] that by (simp add: pending_def bt_get_def)
  have ok: "bt_ok r" using collect_deltas_ok [OF f] by simp
  show "sdi_insert_sst_infos (sst_delta_info_of ls ds) = concat (map delta_sst_infos ds)"
    using conjunct2 [OF c] by (simp add: sst_delta_info_of_def f)
  show "sdi_delete_sst_object_ids (sst_delta_info_of ls ds) = removed_objects ls ds"
    using assms take_removed_levels_correct [of "lvs_levels ls" r] ok
    by (simp add: sst_delta_info_of_def f removed_objects_def ids_unique_def take_removed_l0_correct r0 r cong: map_cong)
qed

section \<open>Watermarks at the safe epoch, exactly\<close>

lemma distinct_iter_vnodes:
  assumes "vw_ok n w" and "n \<le> 2 ^ 16"
  shows "distinct (iter_vnodes (vw_bitmap w))"
proof -
  have ok: "bm_ok (vw_bitmap w)" "bm_num_bits (vw_bitmap w) = n" using assms(1) by (simp_all add: vw_ok_def)
  have "inj_on vnode_from_index {0..<n}"
    by (rule inj_on_inverseI [of _ vnode_to_index]) (use assms(2) in \<open>simp add: vnode_index_less\<close>)
  then show ?thesis unfolding iter_vnodes_def iter_ones_correct [OF ok(1)] ok(2) distinct_map
    by (auto intro: inj_on_subset)
qed

lemma insert_vnode_watermarks_correct:
  assumes "bt_ok m" and "distinct vs"
  shows "case insert_vnode_watermarks w vs m of
      None \<Rightarrow> \<exists>v \<in> set vs. bt_get m v \<noteq> None
    | Some m' \<Rightarrow> bt_ok m' \<and> (\<forall>v \<in> set vs. bt_get m v = None) \<and> (\<forall>v. bt_get m' v = (if v \<in> set vs then Some w else bt_get m v))"
  using assms
proof (induction vs arbitrary: m)
  case (Cons v vs)
  show ?case
  proof (cases "bt_get m v")
    case None
    have "bt_ok (bt_insert v w m)" "distinct vs" using Cons.prems by (simp_all add: bt_insert_ok)
    from Cons.IH [OF this] None Cons.prems show ?thesis
      by (cases "insert_vnode_watermarks w vs (bt_insert v w m)") (auto simp: bt_get_insert split: if_splits)
  qed simp
qed simp

definition disjoint_vnodes :: "nat \<Rightarrow> vnode_watermark list \<Rightarrow> bool" where
  "disjoint_vnodes n ws = sorted_wrt (\<lambda>a b. \<forall>v. vnode_to_index v < n \<longrightarrow> \<not> (has_vnode v a \<and> has_vnode v b)) ws"

lemma collect_vnode_watermarks_correct:
  assumes "bt_ok m" and "list_all (vw_ok n) ws" and "n \<le> 2 ^ 16"
  shows "case collect_vnode_watermarks ws m of
      None \<Rightarrow> \<not> disjoint_vnodes n ws \<or> (\<exists>v. vnode_to_index v < n \<and> wm_find v ws \<noteq> None \<and> bt_get m v \<noteq> None)
    | Some m' \<Rightarrow> disjoint_vnodes n ws
        \<and> (\<forall>v. bt_get m' v = (if vnode_to_index v < n \<and> wm_find v ws \<noteq> None then wm_find v ws else bt_get m v))
        \<and> (\<forall>v. vnode_to_index v < n \<longrightarrow> wm_find v ws \<noteq> None \<longrightarrow> bt_get m v = None)"
  using assms(1,2)
proof (induction ws arbitrary: m)
  case (Cons w ws)
  have w: "vw_ok n w" "list_all (vw_ok n) ws" using Cons.prems(2) by simp_all
  note st = set_iter_vnodes [OF w(1) assms(3)]
  note ins = insert_vnode_watermarks_correct [OF Cons.prems(1) distinct_iter_vnodes [OF w(1) assms(3)], of "vw_watermark w"]
  show ?case
  proof (cases "insert_vnode_watermarks (vw_watermark w) (iter_vnodes (vw_bitmap w)) m")
    case None
    then show ?thesis using ins st by (auto simp: wm_find_Cons)
  next
    case (Some m1)
    then have m1: "bt_ok m1" "\<forall>v. vnode_to_index v < n \<and> has_vnode v w \<longrightarrow> bt_get m v = None"
      "\<forall>v. bt_get m1 v = (if vnode_to_index v < n \<and> has_vnode v w then Some (vw_watermark w) else bt_get m v)"
      using ins st by auto
    have d: "disjoint_vnodes n (w # ws) \<longleftrightarrow> disjoint_vnodes n ws
        \<and> (\<forall>v. vnode_to_index v < n \<longrightarrow> has_vnode v w \<longrightarrow> wm_find v ws = None)"
      by (auto simp: disjoint_vnodes_def wm_find_None)
    note IH = Cons.IH [OF m1(1) w(2)]
    show ?thesis
    proof (cases "collect_vnode_watermarks ws m1")
      case None
      then have "\<not> disjoint_vnodes n ws \<or> (\<exists>v. vnode_to_index v < n \<and> wm_find v ws \<noteq> None \<and> bt_get m1 v \<noteq> None)" using IH by simp
      then show ?thesis using None Some m1(3) by (auto simp: d wm_find_Cons)
    next
      case m2: (Some m2)
      then show ?thesis using IH Some m1(2,3) by (auto simp: d wm_find_Cons)
    qed
  qed
qed (simp add: disjoint_vnodes_def)

lemma read_table_watermark_of_correct:
  assumes "tw_ok n w" and "n \<le> 2 ^ 16" and "tw_watermarks w = [(epoch, ws)]"
  shows "read_table_watermark_of w = None \<longleftrightarrow> \<not> disjoint_vnodes n ws"
    and "read_table_watermark_of w = Some r \<Longrightarrow> rtw_direction r = tw_direction w
      \<and> bt_get (rtw_vnode_watermarks r) = (\<lambda>v. if vnode_to_index v < n then wm_find v ws else None)"
  using collect_vnode_watermarks_correct [of "[]" n ws] assms
  by (cases "collect_vnode_watermarks ws []"; auto simp: read_table_watermark_of_def tw_ok_def bt_get_def fun_eq_iff epochs_ok_def)+

lemma safe_epoch_read_correct:
  "case safe_epoch_read_table_watermarks_impl m of
      None \<Rightarrow> \<exists>(t, w) \<in> set m. read_table_watermark_of w = None
    | Some rs \<Rightarrow> map fst rs = map fst m \<and> (\<forall>t. map_of rs t = Option.bind (map_of m t) read_table_watermark_of)
        \<and> (\<forall>(t, w) \<in> set m. read_table_watermark_of w \<noteq> None)"
  by (induction m rule: safe_epoch_read_table_watermarks_impl.induct) (auto split: Option.bind_splits option.splits)

lemma distinct_safe_epoch: "distinct (map fst m) \<Longrightarrow> distinct (map fst (safe_epoch_table_watermarks_impl m ids))"
proof (induction m)
  case (Cons e m)
  have "fst ` set (safe_epoch_table_watermarks_impl m ids) \<subseteq> fst ` set m"
    by (force simp: safe_epoch_table_watermarks_impl_def map_filter_def split: if_splits)
  with Cons show ?case by (cases e) (auto simp: safe_epoch_table_watermarks_impl_def map_filter_simps split: option.split)
qed (simp add: safe_epoch_table_watermarks_impl_def map_filter_simps)

lemma safe_epoch_get:
  assumes "bt_ok m"
  shows "bt_get (safe_epoch_table_watermarks_impl m ids) t =
    (if t \<in> set ids then Option.bind (bt_get m t) extract_single_table_watermark else None)"
proof -
  have "distinct (map fst m) \<Longrightarrow> map_of (safe_epoch_table_watermarks_impl m ids) t =
      (if t \<in> set ids then Option.bind (map_of m t) extract_single_table_watermark else None)"
  proof (induction m)
    case (Cons e m)
    obtain k w where e: "e = (k, w)" by (cases e)
    have n: "map_of m t = None" if "t = k" using that Cons.prems e by (auto simp: map_of_eq_None_iff)
    then show ?case using Cons e
      by (cases "k \<in> set ids"; cases "extract_single_table_watermark w")
        (auto simp: safe_epoch_table_watermarks_impl_def map_filter_simps)
  qed (simp add: safe_epoch_table_watermarks_impl_def map_filter_simps)
  then show ?thesis using bt_ok_distinct [OF assms] by (simp add: bt_get_def)
qed

section \<open>Properties of reading a version\<close>

lemma sst_delta_infos_of_correct:
  assumes "\<forall>(g, ds) \<in> set m. list_all is_level_delta ds \<longrightarrow> (\<exists>ls. bt_get groups g = Some ls \<and> ids_unique ls)"
  shows "\<exists>infos. sst_delta_infos_of groups m = Some infos
    \<and> map (\<lambda>i. (sdi_insert_sst_infos i, sdi_delete_sst_object_ids i)) infos =
      map (\<lambda>(g, ds). (concat (map delta_sst_infos ds), removed_objects (the (bt_get groups g)) ds))
        (filter (\<lambda>(g, ds). list_all is_level_delta ds) m)"
  using assms
proof (induction m)
  case (Cons e m)
  obtain g ds where e: "e = (g, ds)" by (cases e)
  show ?case using Cons e sst_delta_info_of_correct by (cases "list_all is_level_delta ds") fastforce+
qed simp

text \<open>
  C34. Which objects the deltas of a version add and remove, as the cache refiller is told. For a delta
  that is no trivial move, when the groups it only changes levels of exist and have unique table ids:
  nothing panics, each such group is reported in order with all tables its deltas
  insert and exactly the objects of the tables its deltas remove from the level they name, and
  groups that are constructed, merged or destroyed are left out.
\<close>

theorem sst_delta_infos_exact:
  assumes "\<not> vd_trivial_move d"
    and "\<forall>(g, ds) \<in> set (vd_group_deltas d). list_all is_level_delta ds \<longrightarrow>
      (\<exists>ls. bt_get (ver_levels v) g = Some ls \<and> ids_unique ls)"
  shows "\<exists>infos. build_sst_delta_infos v d = Some infos
    \<and> map (\<lambda>i. (sdi_insert_sst_infos i, sdi_delete_sst_object_ids i)) infos =
      map (\<lambda>(g, ds). (concat (map delta_sst_infos ds), removed_objects (the (bt_get (ver_levels v) g)) ds))
        (filter (\<lambda>(g, ds). list_all is_level_delta ds) (vd_group_deltas d))"
  using sst_delta_infos_of_correct [OF assms(2)] assms(1) by (simp add: build_sst_delta_infos_def)

definition example_compact :: version_delta where
  "example_compact = (version_delta_after example_version)\<lparr>vd_group_deltas := [(2, [IntraLevel
     \<lparr>ild_level_idx = 1, ild_l0_sub_level_id = 0, ild_removed_table_ids = [1], ild_inserted_table_infos = [],
      ild_vnode_partition_count = 0\<rparr>])]\<rparr>"

lemma example_parent_levels:
  "l0_sub_levels (lvs_l0 example_parent) = []" "map lvl_table_infos (lvs_levels example_parent) = [[example_sst]]"
  "map lvl_idx (lvs_levels example_parent) = [1]" "sst_id example_sst = 1" "sst_object_id example_sst = 1"
  by (simp_all add: example_parent_def build_initial_compaction_group_levels_def example_sst_def sst_of_def)

theorem sst_delta_infos_exact_witness:
  "\<exists>i. build_sst_delta_infos example_version example_compact = Some [i] \<and> sdi_delete_sst_object_ids i = [1]"
proof -
  have g: "bt_get (ver_levels example_version) 2 = Some example_parent" by (simp add: example_version_def bt_get_def)
  have u: "ids_unique example_parent" by (simp add: ids_unique_def example_parent_levels) (simp add: example_parent_def)
  have "\<forall>(g, ds) \<in> set (vd_group_deltas example_compact). list_all is_level_delta ds \<longrightarrow>
      (\<exists>ls. bt_get (ver_levels example_version) g = Some ls \<and> ids_unique ls)"
    using g u by (simp add: example_compact_def)
  from sst_delta_infos_exact [OF _ this] obtain infos where i: "build_sst_delta_infos example_version example_compact = Some infos"
    "map (\<lambda>i. (sdi_insert_sst_infos i, sdi_delete_sst_object_ids i)) infos =
      [([], removed_objects example_parent [IntraLevel \<lparr>ild_level_idx = 1, ild_l0_sub_level_id = 0, ild_removed_table_ids = [1],
         ild_inserted_table_infos = [], ild_vnode_partition_count = 0\<rparr>])]"
    using g by (auto simp: example_compact_def version_delta_after_def)
  then show ?thesis
    by (auto simp: removed_objects_def removed_ids_def example_parent_levels(1))
      (simp add: example_parent_def example_parent_levels)
qed

text \<open>
  C35. \<open>build_branched_sst_info\<close> lists, for every object and group, exactly the ids of the group's tables
  of that object that are not the object's own id, in the order of the levels; an object
  without such a table, or a group without one of the object, has no entry.
\<close>

theorem branched_sst_info_exact:
  assumes "bt_ok (ver_levels v)"
  shows "Option.bind (bt_get (build_branched_sst_info v) obj) (\<lambda>e. bt_get e g) =
      (let ids = (case bt_get (ver_levels v) g of
                    None \<Rightarrow> []
                  | Some ls \<Rightarrow> map sst_id (filter (\<lambda>s. sst_object_id s = obj \<and> sst_id s \<noteq> obj)
                      (concat (map lvl_table_infos (l0_sub_levels (lvs_l0 ls) @ lvs_levels ls)))))
       in if ids = [] then None else Some ids)
    \<and> (bt_get (build_branched_sst_info v) obj \<noteq> None \<longleftrightarrow>
        (\<exists>g e. bt_get (build_branched_sst_info v) obj = Some e \<and> bt_get e g \<noteq> None))"
proof -
  let ?r = "build_branched_sst_info v"
  have ok: "branched_ok ?r" by (rule build_branched_sst_info_correct(1) [OF assms])
  have b: "branches ?r obj g = (case bt_get (ver_levels v) g of None \<Rightarrow> [] | Some ls \<Rightarrow> map sst_id
      (filter (\<lambda>s. sst_object_id s = obj \<and> sst_id s \<noteq> obj) (concat (map lvl_table_infos (l0_sub_levels (lvs_l0 ls) @ lvs_levels ls)))))"
    unfolding build_branched_sst_info_correct(2) [OF assms] branch_ids_def group_ssts_def ..
  have "Option.bind (bt_get ?r obj) (\<lambda>e. bt_get e g) = (if branches ?r obj g = [] then None else Some (branches ?r obj g))"
    using ok by (auto simp: branches_def branched_ok_def split: option.split Option.bind_split)
  moreover have "bt_get ?r obj \<noteq> None \<longleftrightarrow> (\<exists>g e. bt_get ?r obj = Some e \<and> bt_get e g \<noteq> None)"
    using ok by (auto simp: branched_ok_def)
  ultimately show ?thesis unfolding b Let_def by blast
qed

theorem branched_sst_info_exact_witness:
  "Option.bind (bt_get (build_branched_sst_info (example_version\<lparr>ver_levels := [(2, (build_initial_compaction_group_levels 2 1)
      \<lparr>lvs_l0 := \<lparr>l0_sub_levels = [new_sub_level 1 Overlapping [example_sst\<lparr>sst_id := 7\<rparr>, example_sst]],
        l0_total_file_size = 0, l0_uncompressed_file_size = 0\<rparr>\<rparr>)]\<rparr>)) 1) (\<lambda>e. bt_get e 2) = Some [7]"
  (is "Option.bind (bt_get (build_branched_sst_info ?v) 1) _ = _")
  using branched_sst_info_exact [of ?v 1 2]
  by (simp add: bt_get_def build_initial_compaction_group_levels_def new_sub_level_def example_sst_def sst_of_def)

text \<open>
  C36. The watermarks handed to compaction. For a well-formed version, the watermarks at the safe epoch
  are those of each listed table's oldest epoch. Turning them into a map by virtual node panics exactly when two
  of them cover the same virtual node; otherwise each listed table with watermarks is there, with its
  direction, and gives every virtual node the watermark its bitmap assigns.
\<close>

theorem safe_epoch_watermarks_exact:
  assumes "watermarks_ok n (ver_table_watermarks v)" and "\<forall>t. n t \<le> 2 ^ 16"
  shows "let oldest = (\<lambda>t. if t \<in> set ids then Option.bind (bt_get (ver_table_watermarks v) t)
           (\<lambda>w. case tw_watermarks w of [] \<Rightarrow> None | (_, ws) # _ \<Rightarrow> Some (tw_direction w, ws)) else None) in
    case safe_epoch_read_table_watermarks_impl (safe_epoch_table_watermarks v ids) of
      None \<Rightarrow> \<exists>t dir ws. oldest t = Some (dir, ws) \<and> \<not> disjoint_vnodes (n t) ws
    | Some rs \<Rightarrow> \<forall>t. (case bt_get rs t of
          None \<Rightarrow> oldest t = None
        | Some r \<Rightarrow> \<exists>ws. oldest t = Some (rtw_direction r, ws) \<and> disjoint_vnodes (n t) ws
            \<and> bt_get (rtw_vnode_watermarks r) = (\<lambda>vn. if vnode_to_index vn < n t then wm_find vn ws else None))"
proof -
  define oldest where "oldest = (\<lambda>t. if t \<in> set ids then Option.bind (bt_get (ver_table_watermarks v) t)
     (\<lambda>w. case tw_watermarks w of [] \<Rightarrow> None | (_, ws) # _ \<Rightarrow> Some (tw_direction w, ws)) else None)"
  let ?m = "safe_epoch_table_watermarks v ids"
  have ok: "bt_ok (ver_table_watermarks v)" and tw: "\<And>t w. bt_get (ver_table_watermarks v) t = Some w \<Longrightarrow> tw_ok (n t) w"
    using assms(1) by (simp_all add: watermarks_ok_def)
  note g = safe_epoch_get [OF ok, folded safe_epoch_table_watermarks_def]
  have one: "\<exists>ep ws. tw_watermarks w = [(ep, ws)] \<and> tw_ok (n t) w \<and> oldest t = Some (tw_direction w, ws)"
    if "bt_get ?m t = Some w" for t w
    using that tw [of t] by (auto simp: g oldest_def extract_single_table_watermark_def tw_ok_def epochs_ok_def
        split: if_splits Option.bind_splits list.splits)
  have none: "oldest t = None" if "bt_get ?m t = None" for t
    using that by (auto simp: g oldest_def extract_single_table_watermark_def split: if_splits Option.bind_splits list.splits)
  have mem: "bt_get ?m t = Some w" if "(t, w) \<in> set ?m" for t w
  proof -
    have "distinct (map fst ?m)" unfolding safe_epoch_table_watermarks_def by (rule distinct_safe_epoch [OF bt_ok_distinct [OF ok]])
    then show ?thesis using that by (simp add: bt_get_def)
  qed
  note rd = safe_epoch_read_correct [of ?m]
  have "case safe_epoch_read_table_watermarks_impl ?m of
      None \<Rightarrow> \<exists>t dir ws. oldest t = Some (dir, ws) \<and> \<not> disjoint_vnodes (n t) ws
    | Some rs \<Rightarrow> \<forall>t. (case bt_get rs t of
          None \<Rightarrow> oldest t = None
        | Some r \<Rightarrow> \<exists>ws. oldest t = Some (rtw_direction r, ws) \<and> disjoint_vnodes (n t) ws
            \<and> bt_get (rtw_vnode_watermarks r) = (\<lambda>vn. if vnode_to_index vn < n t then wm_find vn ws else None))"
  proof (cases "safe_epoch_read_table_watermarks_impl ?m")
    case None
    then obtain t w where w: "(t, w) \<in> set ?m" "read_table_watermark_of w = None" using rd by auto
    then show ?thesis using None one [OF mem [OF w(1)]] read_table_watermark_of_correct(1) assms(2) by fastforce
  next
    case (Some rs)
    have "case bt_get rs t of
          None \<Rightarrow> oldest t = None
        | Some r \<Rightarrow> \<exists>ws. oldest t = Some (rtw_direction r, ws) \<and> disjoint_vnodes (n t) ws
            \<and> bt_get (rtw_vnode_watermarks r) = (\<lambda>vn. if vnode_to_index vn < n t then wm_find vn ws else None)" for t
    proof (cases "bt_get ?m t")
      case None
      then show ?thesis using rd Some none by (simp add: bt_get_def)
    next
      case w: (Some w)
      then have "(t, w) \<in> set ?m" by (simp add: bt_get_def map_of_SomeD)
      then obtain r where r: "read_table_watermark_of w = Some r" "bt_get rs t = Some r"
        using rd Some w by (fastforce simp: bt_get_def)
      obtain ep ws where ws: "tw_watermarks w = [(ep, ws)]" "tw_ok (n t) w" "oldest t = Some (tw_direction w, ws)"
        using one [OF w] by blast
      have "n t \<le> 2 ^ 16" using assms(2) by blast
      note c = read_table_watermark_of_correct [OF ws(2) this ws(1)]
      show ?thesis using c(1) c(2) [OF r(1)] r ws(3) by simp
    qed
    then show ?thesis by (simp add: Some)
  qed
  then show ?thesis unfolding oldest_def Let_def .
qed

theorem safe_epoch_watermarks_exact_witness:
  "\<exists>rs r. safe_epoch_read_table_watermarks_impl (safe_epoch_table_watermarks
       (example_version\<lparr>ver_table_watermarks := [(1, example_watermarks)]\<rparr>) [1]) = Some rs
     \<and> bt_get rs 1 = Some r \<and> bt_get (rtw_vnode_watermarks r) 3 = Some [1]"
proof -
  let ?v = "example_version\<lparr>ver_table_watermarks := [(1, example_watermarks)]\<rparr>"
  have w: "watermarks_ok (\<lambda>t. 4) (ver_table_watermarks ?v)" using example_watermarks_ok by (simp add: watermarks_ok_def bt_get_def)
  note t = safe_epoch_watermarks_exact [OF w, of "[1]", unfolded Let_def]
  obtain rs where rs: "safe_epoch_read_table_watermarks_impl (safe_epoch_table_watermarks ?v [1]) = Some rs"
    using t by (cases "safe_epoch_read_table_watermarks_impl (safe_epoch_table_watermarks ?v [1])")
      (auto simp: bt_get_def example_watermarks_def disjoint_vnodes_def split: if_splits)
  obtain r where r: "bt_get rs 1 = Some r" "bt_get (rtw_vnode_watermarks r) = (\<lambda>vn. if vnode_to_index vn < 4 then wm_find vn [example_vw [1]] else None)"
    using t rs by (auto simp: bt_get_def example_watermarks_def dest!: spec [of _ 1] split: option.splits)
  show ?thesis using rs r by (auto simp: wm_find_Cons vnode_to_index_def)
qed

text \<open>
  C37. Validating a well-formed version. It does not panic and reports no overlapping key
  ranges, but every sub-level except the first of its group is reported as out of order: sub-level
  ids ascend in a version, and the check asks for descending ones.
\<close>

theorem validate_version_reports_order:
  assumes "version_inv n UNIV v" and "bt_get (ver_levels v) g = Some ls"
    and "l0_sub_levels (lvs_l0 ls) = s # ss" and "lvl_sub_level_id s \<noteq> -1"
  shows "\<exists>vs. validate_version v = Some vs \<and> list_all (\<lambda>x. \<not> key_ranges_overlap x) vs
    \<and> filter (sub_level_order_of g) vs = map (\<lambda>(p, l). SubLevelIdOrder g (lvl_idx l) (lvl_sub_level_id p)) (zip (s # ss) ss)"
  by (rule validate_version_order [OF assms])

definition example_two_sub_levels :: hummock_version where
  "example_two_sub_levels = example_version\<lparr>ver_levels := [(2, (build_initial_compaction_group_levels 2 1)
     \<lparr>lvs_l0 := \<lparr>l0_sub_levels = [new_sub_level 1 Overlapping [example_sst], new_sub_level 2 Overlapping [example_sst]],
       l0_total_file_size = 0, l0_uncompressed_file_size = 0\<rparr>\<rparr>)]\<rparr>"

lemma example_two_sub_levels_inv: "version_inv n UNIV example_two_sub_levels"
proof -
  have "levels_shape UNIV ((build_initial_compaction_group_levels 2 1)
     \<lparr>lvs_l0 := \<lparr>l0_sub_levels = [new_sub_level 1 Overlapping [example_sst], new_sub_level 2 Overlapping [example_sst]],
       l0_total_file_size = 0, l0_uncompressed_file_size = 0\<rparr>\<rparr>)"
    using build_initial_shape [of UNIV 2 1] example_sst_good(1) by (simp add: levels_shape_def subs_shape_def level_shape_def new_sub_level_def)
  then show ?thesis using create_init_version_inv [of n UNIV example_config]
    by (simp add: example_two_sub_levels_def example_version_def version_inv_def groups_ok_def bt_get_def)
qed

theorem validate_version_reports_order_witness:
  "\<exists>vs. validate_version example_two_sub_levels = Some vs \<and> SubLevelIdOrder 2 0 1 \<in> set vs"
proof -
  have "bt_get (ver_levels example_two_sub_levels) 2 = Some ((build_initial_compaction_group_levels 2 1)
     \<lparr>lvs_l0 := \<lparr>l0_sub_levels = [new_sub_level 1 Overlapping [example_sst], new_sub_level 2 Overlapping [example_sst]],
       l0_total_file_size = 0, l0_uncompressed_file_size = 0\<rparr>\<rparr>)"
    by (simp add: example_two_sub_levels_def bt_get_def)
  from validate_version_reports_order [OF example_two_sub_levels_inv this]
  obtain vs where vs: "validate_version example_two_sub_levels = Some vs"
    "filter (sub_level_order_of 2) vs = [SubLevelIdOrder 2 0 1]" by (auto simp: new_sub_level_def)
  then have "SubLevelIdOrder 2 0 1 \<in> set (filter (sub_level_order_of 2) vs)" by simp
  with vs(1) show ?thesis by auto
qed

end
