(* ===== verification/Sst_Block.thy ===== *)
theory Sst_Block
  imports Hummock_Key
begin

text \<open>
  The block of an SSTable (\<open>storage/src/hummock/sstable/block.rs\<close>, \<open>utils.rs\<close>): the widths of the
  lengths, the prefix-compressed entries, the restart points with their index of length types, the
  builder and the decoder. The theory describes the bytes of a block as a list of entries and shows
  that the decoder reads the block the builder wrote.
\<close>

section \<open>Lengths and key prefixes\<close>

datatype len_type = LenU8 | LenU16 | LenU32

fun len_type_to_u8 :: "len_type \<Rightarrow> u8" where
  "len_type_to_u8 LenU8 = 1"
| "len_type_to_u8 LenU16 = 2"
| "len_type_to_u8 LenU32 = 3"

definition len_type_from :: "u8 \<Rightarrow> len_type option" where
  "len_type_from v = (if v = 1 then Some LenU8 else if v = 2 then Some LenU16 else if v = 3 then Some LenU32 else None)"

text \<open>Values are cast to the width of the type.\<close>

fun len_type_put :: "len_type \<Rightarrow> nat \<Rightarrow> bytes" where
  "len_type_put LenU8 v = [word_of_nat v]"
| "len_type_put LenU16 v = be_u16 (word_of_nat v)"
| "len_type_put LenU32 v = be_u32 (word_of_nat v)"

fun len_type_get :: "len_type \<Rightarrow> bytes \<Rightarrow> (nat \<times> bytes) option" where
  "len_type_get LenU8 bs = map_option (\<lambda>(v, rest). (unat v, rest)) (get_u8 bs)"
| "len_type_get LenU16 bs = map_option (\<lambda>(v, rest). (unat v, rest)) (get_u16 bs)"
| "len_type_get LenU32 bs = map_option (\<lambda>(v, rest). (unat v, rest)) (get_u32 bs)"

definition len_type_put2 :: "len_type \<Rightarrow> nat \<Rightarrow> nat \<Rightarrow> bytes" where
  "len_type_put2 t v1 v2 = len_type_put t v1 @ len_type_put t v2"

definition len_type_get2 :: "len_type \<Rightarrow> bytes \<Rightarrow> ((nat \<times> nat) \<times> bytes) option" where
  "len_type_get2 t bs =
     do { (v1, bs) \<leftarrow> len_type_get t bs; (v2, bs) \<leftarrow> len_type_get t bs; Some ((v1, v2), bs) }"

definition len_type_new :: "nat \<Rightarrow> len_type option" where
  "len_type_new len =
     (if len < 2 ^ 8 then Some LenU8 else if len < 2 ^ 16 then Some LenU16
      else if len < 2 ^ 32 then Some LenU32 else None)"

fun len_type_len :: "len_type \<Rightarrow> nat" where
  "len_type_len LenU8 = 1"
| "len_type_len LenU16 = 2"
| "len_type_len LenU32 = 4"

record restart_point =
  rp_offset :: u32
  rp_key_len_type :: len_type
  rp_value_len_type :: len_type

definition restart_point_size :: nat where
  "restart_point_size = 4 + 1"

record key_prefix =
  kp_overlap :: nat
  kp_diff :: nat
  kp_value :: nat
  kp_offset :: nat
  kp_len :: nat

definition kp_new_without_len :: "nat \<Rightarrow> nat \<Rightarrow> nat \<Rightarrow> nat \<Rightarrow> key_prefix" where
  "kp_new_without_len overlap diff val offset =
     \<lparr>kp_overlap = overlap, kp_diff = diff, kp_value = val, kp_offset = offset, kp_len = 0\<rparr>"

definition kp_encode :: "key_prefix \<Rightarrow> len_type \<Rightarrow> len_type \<Rightarrow> bytes" where
  "kp_encode p key_len_type value_len_type =
     len_type_put2 key_len_type (kp_overlap p) (kp_diff p) @ len_type_put value_len_type (kp_value p)"

definition kp_decode :: "bytes \<Rightarrow> nat \<Rightarrow> len_type \<Rightarrow> len_type \<Rightarrow> key_prefix option" where
  "kp_decode buf offset key_len_type value_len_type =
     do { ((overlap, diff), buf) \<leftarrow> len_type_get2 key_len_type buf;
          (val, _) \<leftarrow> len_type_get value_len_type buf;
          Some \<lparr>kp_overlap = overlap, kp_diff = diff, kp_value = val, kp_offset = offset,
            kp_len = len_type_len key_len_type * 2 + len_type_len value_len_type\<rparr> }"

definition diff_key_range :: "key_prefix \<Rightarrow> nat \<times> nat" where
  "diff_key_range p = (kp_offset p + kp_len p, kp_offset p + kp_len p + kp_diff p)"

definition value_range :: "key_prefix \<Rightarrow> nat \<times> nat" where
  "value_range p = (kp_offset p + kp_len p + kp_diff p, kp_offset p + kp_len p + kp_diff p + kp_value p)"

definition entry_len :: "key_prefix \<Rightarrow> nat" where
  "entry_len p = kp_len p + kp_diff p + kp_value p"

section \<open>The common prefix of two keys\<close>

definition max_key_len :: nat where
  "max_key_len = 65535"

text \<open>
  Eight bytes at a time while they agree, then four once, then byte by byte. The reads are
  unaligned loads, which agree when the bytes do.
\<close>

function skip_words :: "bytes \<Rightarrow> bytes \<Rightarrow> nat \<Rightarrow> nat \<Rightarrow> nat" where
  "skip_words base target fin i =
     (if i + 8 \<le> fin \<and> take 8 (drop i base) = take 8 (drop i target) then skip_words base target fin (i + 8) else i)"
  by pat_completeness auto
termination
  by (relation "measure (\<lambda>(base, target, fin, i). fin - i)") auto

function skip_bytes :: "bytes \<Rightarrow> bytes \<Rightarrow> nat \<Rightarrow> nat \<Rightarrow> nat" where
  "skip_bytes base target fin i =
     (if i < fin \<and> base ! i = target ! i then skip_bytes base target fin (i + 1) else i)"
  by pat_completeness auto
termination
  by (relation "measure (\<lambda>(base, target, fin, i). fin - i)") auto

declare skip_words.simps [simp del] skip_bytes.simps [simp del]

definition bytes_diff_below_max_key_length :: "bytes \<Rightarrow> bytes \<Rightarrow> bytes" where
  "bytes_diff_below_max_key_length base target =
     (let fin = min (min (length base) (length target)) max_key_len;
          i = skip_words base target fin 0;
          i = (if i + 4 \<le> fin \<and> take 4 (drop i base) = take 4 (drop i target) then i + 4 else i)
      in drop (skip_bytes base target fin i) target)"

section \<open>Compression\<close>

datatype compression_algorithm = CompressionNone | Lz4 | Zstd

fun compression_encode :: "compression_algorithm \<Rightarrow> bytes" where
  "compression_encode CompressionNone = [0]"
| "compression_encode Lz4 = [1]"
| "compression_encode Zstd = [2]"

text \<open>The errors of reading a block or the metadata of a table (\<open>HummockError\<close>).\<close>

datatype block_error = ChecksumMismatch u64 u64 | DecodeError | MagicMismatch u32 u32 | InvalidFormatVersion u32

definition compression_decode :: "bytes \<Rightarrow> (block_error + compression_algorithm) option" where
  "compression_decode buf =
     do { (v, _) \<leftarrow> get_u8 buf;
          Some (if v = 0 then Inr CompressionNone else if v = 1 then Inr Lz4 else if v = 2 then Inr Zstd
                else Inl DecodeError) }"

definition checked_into_u32 :: "nat \<Rightarrow> u32 option" where
  "checked_into_u32 n = (if n < 2 ^ 32 then Some (word_of_nat n) else None)"

section \<open>Building a block\<close>

text \<open>
  \<open>compress_buf\<close> is a scratch buffer, cleared before each use. The compressors of the \<open>lz4\<close> and
  \<open>zstd\<close> crates and the hash of \<open>xxhash_rust\<close> are parameters.
\<close>

record block_builder =
  blb_buf :: bytes
  blb_restart_count :: nat
  blb_restart_points :: "u32 list"
  blb_last_key :: bytes
  blb_entry_count :: nat
  blb_compression_algorithm :: compression_algorithm
  blb_table_id :: "u32 option"
  blb_restart_points_type_index :: "restart_point list"

text \<open>The division by the interval in the capacity of the restart points panics on zero.\<close>

definition blb_new :: "nat \<Rightarrow> compression_algorithm \<Rightarrow> block_builder option" where
  "blb_new restart_interval alg =
     (if restart_interval = 0 then None
      else Some \<lparr>blb_buf = [], blb_restart_count = restart_interval, blb_restart_points = [], blb_last_key = [],
        blb_entry_count = 0, blb_compression_algorithm = alg, blb_table_id = None,
        blb_restart_points_type_index = []\<rparr>)"

definition blb_add :: "block_builder \<Rightarrow> full_key \<Rightarrow> bytes \<Rightarrow> block_builder option" where
  "blb_add b full_key val =
     do { let table_id = uk_table_id (fk_user_key full_key);
          b \<leftarrow> (case blb_table_id b of
                 Some current_table_id \<Rightarrow> if current_table_id = table_id then Some b else None
               | None \<Rightarrow> Some (b\<lparr>blb_table_id := Some table_id\<rparr>));
          let key = fk_encode_into_without_table_id full_key;
          k_type \<leftarrow> len_type_new (length key);
          v_type \<leftarrow> len_type_new (length val);
          let type_mismatch = (case rev (blb_restart_points_type_index b) of
              r # _ \<Rightarrow> k_type \<noteq> rp_key_len_type r \<or> v_type \<noteq> rp_value_len_type r
            | [] \<Rightarrow> True);
          (b, diff_key) \<leftarrow>
            (if blb_entry_count b mod blb_restart_count b = 0 \<or> type_mismatch then
               do { offset \<leftarrow> checked_into_u32 (length (blb_buf b));
                    Some (b\<lparr>blb_restart_points := blb_restart_points b @ [offset],
                            blb_restart_points_type_index := blb_restart_points_type_index b @
                              (if type_mismatch
                               then [\<lparr>rp_offset = offset, rp_key_len_type = k_type, rp_value_len_type = v_type\<rparr>]
                               else [])\<rparr>, key) }
             else Some (b, bytes_diff_below_max_key_length (blb_last_key b) key));
          let p = kp_new_without_len (length key - length diff_key) (length diff_key) (length val) (length (blb_buf b));
          Some (b\<lparr>blb_buf := blb_buf b @ kp_encode p k_type v_type @ diff_key @ val,
                  blb_last_key := key, blb_entry_count := blb_entry_count b + 1\<rparr>) }"

text \<open>
  \<open>add\<close> with debug assertions compiled in: \<open>debug_valid\<close> and the check that the keys ascend. A panic
  is \<open>None\<close> whichever assertion fails first.
\<close>

definition blb_debug_valid :: "block_builder \<Rightarrow> bool" where
  "blb_debug_valid b =
     (if blb_entry_count b = 0
      then blb_buf b = [] \<and> blb_restart_points b = [] \<and> blb_restart_points_type_index b = [] \<and> blb_last_key b = []
      else True)"

definition blb_add_debug :: "block_builder \<Rightarrow> full_key \<Rightarrow> bytes \<Rightarrow> block_builder option" where
  "blb_add_debug b full_key val =
     (let key = fk_encode_into_without_table_id full_key in
      if \<not> blb_debug_valid b then None
      else if blb_entry_count b > 0 \<and> (key = [] \<or> compare_encoded_full_key (blb_last_key b) key \<noteq> Some Less) then None
      else blb_add b full_key val)"

definition blb_get_last_key :: "block_builder \<Rightarrow> bytes" where
  "blb_get_last_key b = blb_last_key b"

definition blb_is_empty :: "block_builder \<Rightarrow> bool" where
  "blb_is_empty b = (blb_buf b = [])"

definition blb_clear :: "block_builder \<Rightarrow> block_builder" where
  "blb_clear b = b\<lparr>blb_buf := [], blb_restart_points := [], blb_table_id := None,
     blb_restart_points_type_index := [], blb_last_key := [], blb_entry_count := 0\<rparr>"

definition uncompressed_block_size :: "block_builder \<Rightarrow> nat" where
  "uncompressed_block_size b =
     length (blb_buf b) + (length (blb_restart_points b) + 1) * 4
     + restart_point_size * length (blb_restart_points_type_index b) + 4 + 4"

definition approximate_len :: "block_builder \<Rightarrow> nat" where
  "approximate_len b =
     length (blb_buf b) + 4 * length (blb_restart_points b) + 4
     + restart_point_size * length (blb_restart_points_type_index b) + 4 + 1 + 8 + 4"

definition block_compress ::
    "(compression_algorithm \<Rightarrow> bytes \<Rightarrow> bytes) \<Rightarrow> bytes \<Rightarrow> compression_algorithm \<Rightarrow> bytes option" where
  "block_compress compressor buf alg = (if alg = CompressionNone then None else Some (compressor alg buf))"

definition encode_type_index :: "restart_point \<Rightarrow> bytes" where
  "encode_type_index r =
     le_u32 (rp_offset r) @
     [push_bit 4 (len_type_to_u8 (rp_key_len_type r)) OR len_type_to_u8 (rp_value_len_type r)]"

text \<open>The entries and the footer, before compression.\<close>

definition blb_raw :: "block_builder \<Rightarrow> bytes option" where
  "blb_raw b =
     do { n_restarts \<leftarrow> checked_into_u32 (length (blb_restart_points b));
          n_index \<leftarrow> checked_into_u32 (length (blb_restart_points_type_index b));
          table_id \<leftarrow> blb_table_id b;
          Some (blb_buf b @ concat (map le_u32 (blb_restart_points b)) @ le_u32 n_restarts
                @ concat (map encode_type_index (blb_restart_points_type_index b)) @ le_u32 n_index
                @ le_u32 table_id) }"

text \<open>
  The block and the builder after it: without compression the trailer is appended to the write
  buffer itself.
\<close>

definition blb_build ::
    "(compression_algorithm \<Rightarrow> bytes \<Rightarrow> bytes) \<Rightarrow> (bytes \<Rightarrow> u64) \<Rightarrow> block_builder \<Rightarrow> (bytes \<times> block_builder) option" where
  "blb_build compressor xxh64 b =
     (if blb_entry_count b = 0 then None
      else do {
        raw \<leftarrow> blb_raw b;
        let alg = blb_compression_algorithm b;
        result \<leftarrow> (if alg \<noteq> CompressionNone then block_compress compressor raw alg else Some raw);
        let result = result @ compression_encode alg;
        let result = result @ le_u64 (xxh64 result);
        if \<not> length result < 2 ^ 32 - 1 then None
        else Some (result, b\<lparr>blb_buf := if alg \<noteq> CompressionNone then raw else result\<rparr>) })"

section \<open>Reading a block\<close>

text \<open>The counters of the block cache's hit map are left out.\<close>

record block =
  blk_data :: bytes
  blk_data_len :: nat
  blk_table_id :: u32
  blk_restart_points :: "restart_point list"

fun decode_type_index :: "nat \<Rightarrow> bytes \<Rightarrow> restart_point list option" where
  "decode_type_index 0 buf = Some []"
| "decode_type_index (Suc n) buf =
     do { (offset, buf) \<leftarrow> get_u32_le buf;
          (v, buf) \<leftarrow> get_u8 buf;
          key_len_type \<leftarrow> len_type_from (drop_bit 4 v);
          value_len_type \<leftarrow> len_type_from (v AND 15);
          rest \<leftarrow> decode_type_index n buf;
          Some (\<lparr>rp_offset = offset, rp_key_len_type = key_len_type, rp_value_len_type = value_len_type\<rparr> # rest) }"

text \<open>
  An empty index panics at the first restart point: \<open>len() - 1\<close> wraps around and the index after
  it is out of range.
\<close>

fun decode_restarts :: "restart_point list \<Rightarrow> nat \<Rightarrow> nat \<Rightarrow> bytes \<Rightarrow> restart_point list option" where
  "decode_restarts index type_index 0 buf = Some []"
| "decode_restarts index type_index (Suc n) buf =
     do { (offset, buf) \<leftarrow> get_u32_le buf;
          if index = [] then None
          else do {
            let i = (if type_index < length index - 1 \<and> offset \<ge> rp_offset (index ! (type_index + 1))
                     then type_index + 1 else type_index);
            rest \<leftarrow> decode_restarts index i n buf;
            Some (\<lparr>rp_offset = offset, rp_key_len_type = rp_key_len_type (index ! i),
                   rp_value_len_type = rp_value_len_type (index ! i)\<rparr> # rest) } }"

definition decode_from_raw :: "bytes \<Rightarrow> block option" where
  "decode_from_raw buf =
     (if length buf < 8 then None
      else do {
        (table_id, _) \<leftarrow> get_u32_le (drop (length buf - 4) buf);
        (n_index, _) \<leftarrow> get_u32_le (drop (length buf - 8) buf);
        let index_data_len = 4 + unat n_index * restart_point_size;
        if length buf < 4 + index_data_len then None
        else do {
          let data_len = length buf - 4 - index_data_len;
          index_buf \<leftarrow> slice_range buf data_len (length buf - 8);
          index \<leftarrow> decode_type_index (unat n_index) index_buf;
          if data_len < 4 then None
          else do {
            (n_restarts, _) \<leftarrow> get_u32_le (drop (data_len - 4) buf);
            let restart_points_len = 4 + unat n_restarts * 4;
            if data_len < restart_points_len then None
            else do {
              restarts_buf \<leftarrow> slice_range buf (data_len - restart_points_len) (data_len - 4);
              restarts \<leftarrow> decode_restarts index 0 (unat n_restarts) restarts_buf;
              Some \<lparr>blk_data = buf, blk_data_len = data_len - restart_points_len, blk_table_id = table_id,
                blk_restart_points = restarts\<rparr> } } } })"

definition xxhash64_verify :: "(bytes \<Rightarrow> u64) \<Rightarrow> bytes \<Rightarrow> u64 \<Rightarrow> block_error + unit" where
  "xxhash64_verify xxh64 data checksum =
     (if xxh64 data \<noteq> checksum then Inl (ChecksumMismatch checksum (xxh64 data)) else Inr ())"

definition get_algorithm :: "bytes \<Rightarrow> (block_error + compression_algorithm) option" where
  "get_algorithm buf =
     (if length buf < 9 then None else compression_decode (take 1 (drop (length buf - 9) buf)))"

definition decode_with_copy ::
    "(compression_algorithm \<Rightarrow> bytes \<Rightarrow> block_error + bytes) \<Rightarrow> (bytes \<Rightarrow> u64) \<Rightarrow> bytes \<Rightarrow> nat \<Rightarrow> (block_error + block) option" where
  "decode_with_copy decompressor xxh64 buf uncompressed_capacity =
     (if length buf < 8 then None
      else do {
        (checksum, _) \<leftarrow> get_u64_le (drop (length buf - 8) buf);
        case xxhash64_verify xxh64 (take (length buf - 8) buf) checksum of
          Inl e \<Rightarrow> Some (Inl e)
        | Inr _ \<Rightarrow> do {
            compression \<leftarrow> get_algorithm buf;
            case compression of
              Inl e \<Rightarrow> Some (Inl e)
            | Inr alg \<Rightarrow>
                let compressed_data = take (length buf - 9) buf in
                if alg = CompressionNone then map_option Inr (decode_from_raw compressed_data)
                else (case decompressor alg compressed_data of
                        Inl e \<Rightarrow> Some (Inl e)
                      | Inr decoded \<Rightarrow>
                          if length decoded \<noteq> uncompressed_capacity then None
                          else map_option Inr (decode_from_raw decoded)) } })"

definition compress_block ::
    "(compression_algorithm \<Rightarrow> bytes \<Rightarrow> bytes) \<Rightarrow> (bytes \<Rightarrow> u64) \<Rightarrow> bytes \<Rightarrow> compression_algorithm \<Rightarrow> (block_error + bytes) option" where
  "compress_block compressor xxh64 buf target =
     (if length buf < 8 then None
      else do {
        (checksum, _) \<leftarrow> get_u64_le (drop (length buf - 8) buf);
        case xxhash64_verify xxh64 (take (length buf - 8) buf) checksum of
          Inl e \<Rightarrow> Some (Inl e)
        | Inr _ \<Rightarrow> do {
            compression \<leftarrow> get_algorithm buf;
            case compression of
              Inl e \<Rightarrow> Some (Inl e)
            | Inr alg \<Rightarrow>
                if alg \<noteq> CompressionNone then None
                else do {
                  compressed \<leftarrow> block_compress compressor (take (length buf - 9) buf) target;
                  let out = compressed @ compression_encode target;
                  Some (Inr (out @ le_u64 (xxh64 out))) } } })"

definition blk_len :: "block \<Rightarrow> nat option" where
  "blk_len b = (if blk_data b = [] then None else Some (blk_data_len b))"

definition restart_point_at :: "block \<Rightarrow> nat \<Rightarrow> restart_point option" where
  "restart_point_at b i = (if i < length (blk_restart_points b) then Some (blk_restart_points b ! i) else None)"

definition blk_entries :: "block \<Rightarrow> bytes" where
  "blk_entries b = take (blk_data_len b) (blk_data b)"

section \<open>Lengths are read as written\<close>

definition fits :: "len_type \<Rightarrow> nat \<Rightarrow> bool" where
  "fits t n = (n < 256 ^ len_type_len t)"

lemma length_len_type_put [simp]: "length (len_type_put t n) = len_type_len t"
  by (cases t) simp_all

lemma length_len_type_put2 [simp]: "length (len_type_put2 t a b) = len_type_len t * 2"
  by (simp add: len_type_put2_def)

lemma len_type_get_put [simp]: "fits t n \<Longrightarrow> len_type_get t (len_type_put t n @ bs) = Some (n, bs)"
  by (cases t) (simp_all add: fits_def unat_of_nat)

lemma len_type_get2_put2 [simp]:
  "fits t a \<Longrightarrow> fits t b \<Longrightarrow> len_type_get2 t (len_type_put2 t a b @ bs) = Some ((a, b), bs)"
  by (simp add: len_type_get2_def len_type_put2_def)

lemma fits_mono: "fits t n \<Longrightarrow> m \<le> n \<Longrightarrow> fits t m"
  by (simp add: fits_def)

lemma len_type_new_fits: "len_type_new n = Some t \<Longrightarrow> fits t n"
  by (auto simp: len_type_new_def fits_def split: if_splits)

lemma len_type_new_total: "n < 2 ^ 32 \<Longrightarrow> \<exists>t. len_type_new n = Some t"
  by (simp add: len_type_new_def)

lemma len_type_round_trip [simp]:
  "len_type_from (drop_bit 4 (push_bit 4 (len_type_to_u8 k)) OR drop_bit 4 (len_type_to_u8 v)) = Some k"
  "len_type_from ((push_bit 4 (len_type_to_u8 k) OR len_type_to_u8 v) AND 15) = Some v"
  by (cases k; cases v; simp add: len_type_from_def push_bit_eq_mult drop_bit_eq_div)+

section \<open>The common prefix\<close>

lemma skip_words_prefix:
  "i \<le> fin \<Longrightarrow> fin \<le> length base \<Longrightarrow> fin \<le> length target \<Longrightarrow> take i base = take i target \<Longrightarrow>
     skip_words base target fin i \<le> fin
     \<and> take (skip_words base target fin i) base = take (skip_words base target fin i) target"
proof (induction base target fin i rule: skip_words.induct)
  case (1 base target fin i)
  show ?case
  proof (cases "i + 8 \<le> fin \<and> take 8 (drop i base) = take 8 (drop i target)")
    case True
    then have "take (i + 8) base = take (i + 8) target" using 1 by (simp add: take_add)
    then show ?thesis using 1 True by (subst (1 2 3) skip_words.simps) simp
  next
    case False
    then have "skip_words base target fin i = i" by (subst skip_words.simps) (rule if_not_P)
    then show ?thesis using 1 by simp
  qed
qed

lemma skip_bytes_prefix:
  "i \<le> fin \<Longrightarrow> fin \<le> length base \<Longrightarrow> fin \<le> length target \<Longrightarrow> take i base = take i target \<Longrightarrow>
     skip_bytes base target fin i \<le> fin
     \<and> take (skip_bytes base target fin i) base = take (skip_bytes base target fin i) target"
proof (induction base target fin i rule: skip_bytes.induct)
  case (1 base target fin i)
  show ?case
  proof (cases "i < fin \<and> base ! i = target ! i")
    case True
    then have "take (i + 1) base = take (i + 1) target" using 1 by (simp add: take_Suc_conv_app_nth)
    then show ?thesis using 1 True by (subst (1 2 3) skip_bytes.simps) simp
  next
    case False
    then have "skip_bytes base target fin i = i" by (subst skip_bytes.simps) (rule if_not_P)
    then show ?thesis using 1 by simp
  qed
qed

lemma bytes_diff_prefix:
  "\<exists>k \<le> length target. k \<le> length base \<and> take k base = take k target
     \<and> bytes_diff_below_max_key_length base target = drop k target"
proof -
  define fin where "fin = min (min (length base) (length target)) max_key_len"
  have l: "fin \<le> length base" "fin \<le> length target" by (simp_all add: fin_def)
  define i where "i = skip_words base target fin 0"
  have i: "i \<le> fin" "take i base = take i target" using skip_words_prefix [of 0 fin base target] l by (simp_all add: i_def)
  define j where "j = (if i + 4 \<le> fin \<and> take 4 (drop i base) = take 4 (drop i target) then i + 4 else i)"
  have j: "j \<le> fin" "take j base = take j target" using i by (auto simp: j_def take_add)
  define k where "k = skip_bytes base target fin j"
  have "k \<le> fin" "take k base = take k target" using skip_bytes_prefix [OF j(1) l j(2)] by (simp_all add: k_def)
  moreover have "bytes_diff_below_max_key_length base target = drop k target"
    unfolding bytes_diff_below_max_key_length_def Let_def k_def j_def i_def fin_def ..
  ultimately show ?thesis using l by (intro exI [of _ k]) simp
qed

section \<open>The layout of entries\<close>

text \<open>
  What the entries of a block look like: an entry shares a prefix with its predecessor and, unless
  it is a restart point, its length types.
\<close>

record entry =
  en_fresh :: bool
  en_kt :: len_type
  en_vt :: len_type
  en_overlap :: nat
  en_key :: bytes
  en_value :: bytes

definition en_head :: "entry \<Rightarrow> bytes" where
  "en_head e = len_type_put2 (en_kt e) (en_overlap e) (length (en_key e) - en_overlap e)
     @ len_type_put (en_vt e) (length (en_value e))"

definition en_bytes :: "entry \<Rightarrow> bytes" where
  "en_bytes e = en_head e @ drop (en_overlap e) (en_key e) @ en_value e"

definition en_ok :: "entry \<Rightarrow> bool" where
  "en_ok e = (fits (en_kt e) (length (en_key e)) \<and> fits (en_vt e) (length (en_value e))
     \<and> en_overlap e \<le> length (en_key e) \<and> (en_fresh e \<longrightarrow> en_overlap e = 0))"

definition en_follows :: "entry \<Rightarrow> entry \<Rightarrow> bool" where
  "en_follows p e = (en_overlap e \<le> length (en_key p) \<and> take (en_overlap e) (en_key p) = take (en_overlap e) (en_key e)
     \<and> (\<not> en_fresh e \<longrightarrow> en_kt e = en_kt p \<and> en_vt e = en_vt p))"

definition layout :: "entry list \<Rightarrow> bool" where
  "layout ps = ((\<forall>e \<in> set ps. en_ok e) \<and> (ps \<noteq> [] \<longrightarrow> en_fresh (hd ps))
     \<and> (\<forall>i. Suc i < length ps \<longrightarrow> en_follows (ps ! i) (ps ! Suc i)))"

definition entry_bytes :: "entry list \<Rightarrow> bytes" where
  "entry_bytes ps = concat (map en_bytes ps)"

definition off :: "entry list \<Rightarrow> nat \<Rightarrow> nat" where
  "off ps i = length (entry_bytes (take i ps))"

definition fresh_positions :: "entry list \<Rightarrow> nat list" where
  "fresh_positions ps = filter (\<lambda>i. en_fresh (ps ! i)) [0..<length ps]"

definition restart_at :: "entry list \<Rightarrow> nat \<Rightarrow> restart_point" where
  "restart_at ps i = \<lparr>rp_offset = word_of_nat (off ps i), rp_key_len_type = en_kt (ps ! i), rp_value_len_type = en_vt (ps ! i)\<rparr>"

definition restarts :: "entry list \<Rightarrow> restart_point list" where
  "restarts ps = map (restart_at ps) (fresh_positions ps)"

lemma length_en_head [simp]: "length (en_head e) = len_type_len (en_kt e) * 2 + len_type_len (en_vt e)"
  by (simp add: en_head_def)

lemma en_bytes_pos: "length (en_bytes e) > 0"
  by (cases "en_vt e") (simp_all add: en_bytes_def)

lemma off_0 [simp]: "off ps 0 = 0"
  by (simp add: off_def entry_bytes_def)

lemma off_Suc: "i < length ps \<Longrightarrow> off ps (Suc i) = off ps i + length (en_bytes (ps ! i))"
  by (simp add: off_def entry_bytes_def take_Suc_conv_app_nth)

lemma off_length: "off ps (length ps) = length (entry_bytes ps)"
  by (simp add: off_def)

lemma off_mono:
  assumes "i < j" and "j \<le> length ps"
  shows "off ps i < off ps j"
  using assms
proof (induction j)
  case (Suc j)
  have "off ps i \<le> off ps j" using Suc by (cases "i = j") simp_all
  moreover have "off ps (Suc j) = off ps j + length (en_bytes (ps ! j))" using Suc.prems by (simp add: off_Suc)
  ultimately show ?case using en_bytes_pos [of "ps ! j"] by linarith
qed simp

lemma off_less_iff: "i \<le> length ps \<Longrightarrow> j \<le> length ps \<Longrightarrow> off ps i < off ps j \<longleftrightarrow> i < j"
  by (metis off_mono linorder_neqE_nat not_less_iff_gr_or_eq)

lemma off_bound: "i < length ps \<Longrightarrow> off ps i < length (entry_bytes ps)"
  using off_mono [of i "length ps" ps] by (simp add: off_length)

lemma entry_bytes_snoc: "entry_bytes (ps @ [e]) = entry_bytes ps @ en_bytes e"
  by (simp add: entry_bytes_def)

lemma off_snoc: "i \<le> length ps \<Longrightarrow> off (ps @ [e]) i = off ps i"
  by (simp add: off_def)

lemma fresh_positions_snoc:
  "fresh_positions (ps @ [e]) = fresh_positions ps @ (if en_fresh e then [length ps] else [])"
  by (auto simp: fresh_positions_def nth_append intro!: filter_cong)

lemma restarts_snoc:
  "restarts (ps @ [e]) = restarts ps @
     (if en_fresh e then [\<lparr>rp_offset = word_of_nat (length (entry_bytes ps)), rp_key_len_type = en_kt e, rp_value_len_type = en_vt e\<rparr>] else [])"
proof -
  have "map (restart_at (ps @ [e])) (fresh_positions ps) = map (restart_at ps) (fresh_positions ps)"
    by (rule map_cong) (auto simp: fresh_positions_def restart_at_def off_snoc nth_append)
  moreover have "restart_at (ps @ [e]) (length ps) =
      \<lparr>rp_offset = word_of_nat (length (entry_bytes ps)), rp_key_len_type = en_kt e, rp_value_len_type = en_vt e\<rparr>"
    by (simp add: restart_at_def off_snoc off_length)
  ultimately show ?thesis by (simp add: restarts_def fresh_positions_snoc)
qed

lemma layout_snoc:
  "layout (ps @ [e]) \<longleftrightarrow> layout ps \<and> en_ok e \<and> (if ps = [] then en_fresh e else en_follows (last ps) e)"
proof (cases "ps = []")
  case False
  have *: "(\<forall>i. Suc i < length (ps @ [e]) \<longrightarrow> en_follows ((ps @ [e]) ! i) ((ps @ [e]) ! Suc i)) \<longleftrightarrow>
      (\<forall>i. Suc i < length ps \<longrightarrow> en_follows (ps ! i) (ps ! Suc i)) \<and> en_follows (last ps) e" (is "?l \<longleftrightarrow> ?r")
  proof
    assume l: ?l
    have "en_follows (ps ! i) (ps ! Suc i)" if "Suc i < length ps" for i using l that by (auto simp: nth_append dest: spec [of _ i])
    moreover have "en_follows (last ps) e" using l [rule_format, of "length ps - 1"] False by (simp add: nth_append last_conv_nth)
    ultimately show ?r by blast
  next
    assume r: ?r
    show ?l
    proof (intro allI impI)
      fix i assume i: "Suc i < length (ps @ [e])"
      show "en_follows ((ps @ [e]) ! i) ((ps @ [e]) ! Suc i)"
      proof (cases "Suc i < length ps")
        case False
        then have "i = length ps - 1" "Suc i = length ps" using i by simp_all
        then show ?thesis using r \<open>ps \<noteq> []\<close> by (simp add: nth_append last_conv_nth)
      qed (use r in \<open>simp add: nth_append\<close>)
    qed
  qed
  show ?thesis unfolding layout_def * using False by auto
qed (simp add: layout_def)

section \<open>The index of length types\<close>

definition same_types :: "restart_point \<Rightarrow> restart_point \<Rightarrow> bool" where
  "same_types a b = (rp_key_len_type a = rp_key_len_type b \<and> rp_value_len_type a = rp_value_len_type b)"

text \<open>The restart points at which the types change.\<close>

fun type_changes :: "restart_point option \<Rightarrow> restart_point list \<Rightarrow> restart_point list" where
  "type_changes p [] = []"
| "type_changes p (r # rs) =
     (if (case p of None \<Rightarrow> True | Some q \<Rightarrow> \<not> same_types q r) then [r] else []) @ type_changes (Some r) rs"

lemma type_changes_snoc:
  "type_changes p (rs @ [r]) = type_changes p rs @
     (if (case (if rs = [] then p else Some (last rs)) of None \<Rightarrow> True | Some q \<Rightarrow> \<not> same_types q r) then [r] else [])"
  by (induction rs arbitrary: p) auto

lemma set_type_changes: "set (type_changes p rs) \<subseteq> set rs"
  by (induction rs arbitrary: p) auto

lemma type_changes_nonempty: "rs \<noteq> [] \<Longrightarrow> type_changes None rs \<noteq> []"
  by (cases rs) simp_all

lemma type_changes_last:
  assumes "rs \<noteq> []"
  shows "same_types (last (type_changes None rs)) (last rs)"
  using assms
proof (induction rs rule: rev_induct)
  case (snoc r rs)
  then show ?case by (cases "rs = []") (auto simp: type_changes_snoc same_types_def)
qed simp

lemma length_type_changes: "length (type_changes p rs) \<le> length rs"
  by (induction rs arbitrary: p) (auto intro: le_SucI)

lemma decode_type_index_correct:
  "decode_type_index (length rs) (concat (map encode_type_index rs) @ bs) = Some rs"
  by (induction rs) (simp_all add: encode_type_index_def)

lemma decode_restarts_correct:
  assumes "index = pre @ c # type_changes (Some q) rs" and "same_types c q"
    and "sorted_wrt (<) (map rp_offset rs)"
  shows "decode_restarts index (length pre) (length rs) (concat (map (\<lambda>r. le_u32 (rp_offset r)) rs) @ bs) = Some rs"
  using assms
proof (induction rs arbitrary: pre c q)
  case (Cons r rs)
  show ?case
  proof (cases "same_types q r")
    case True
    have idx: "index = pre @ c # type_changes (Some r) rs" using Cons.prems(1) True by simp
    have "\<not> (length pre < length index - 1 \<and> rp_offset r \<ge> rp_offset (index ! (length pre + 1)))"
    proof
      assume *: "length pre < length index - 1 \<and> rp_offset r \<ge> rp_offset (index ! (length pre + 1))"
      then have "type_changes (Some r) rs \<noteq> []" using idx by auto
      then have "index ! (length pre + 1) \<in> set rs"
        using idx set_type_changes [of "Some r" rs] by (cases "type_changes (Some r) rs") (auto simp: nth_append)
      then have "rp_offset r < rp_offset (index ! (length pre + 1))" using Cons.prems(3) by simp
      with * show False using leD by blast
    qed
    moreover have "decode_restarts index (length pre) (length rs) (concat (map (\<lambda>r. le_u32 (rp_offset r)) rs) @ bs) = Some rs"
      by (rule Cons.IH [of pre c r, OF idx]) (use Cons.prems(2,3) True in \<open>auto simp: same_types_def\<close>)
    moreover have "index ! length pre = c" "index \<noteq> []" using idx by simp_all
    ultimately show ?thesis using Cons.prems(2) True by (auto simp: same_types_def Let_def)
  next
    case False
    have idx: "index = (pre @ [c]) @ r # type_changes (Some r) rs" using Cons.prems(1) False by simp
    have at: "index ! (length pre + 1) = r" "length pre < length index - 1" "index \<noteq> []" using idx by (simp_all add: nth_append)
    have "decode_restarts index (length (pre @ [c])) (length rs) (concat (map (\<lambda>r. le_u32 (rp_offset r)) rs) @ bs) = Some rs"
      by (rule Cons.IH [of "pre @ [c]" r r, OF idx]) (use Cons.prems(3) in \<open>auto simp: same_types_def\<close>)
    then show ?thesis using at by (simp add: Let_def)
  qed
qed simp

section \<open>The builder keeps the layout\<close>

text \<open>The builder holds the entries \<open>ps\<close> for the full keys and values \<open>kvs\<close>.\<close>

definition builder_rep :: "u32 \<Rightarrow> block_builder \<Rightarrow> entry list \<Rightarrow> bool" where
  "builder_rep t b ps = (layout ps \<and> blb_restart_count b > 0 \<and> blb_buf b = entry_bytes ps
     \<and> blb_restart_points b = map rp_offset (restarts ps)
     \<and> blb_restart_points_type_index b = type_changes None (restarts ps)
     \<and> blb_last_key b = (if ps = [] then [] else en_key (last ps)) \<and> blb_entry_count b = length ps
     \<and> blb_table_id b = (if ps = [] then None else Some t))"

definition holds :: "u32 \<Rightarrow> entry list \<Rightarrow> (full_key \<times> bytes) list \<Rightarrow> bool" where
  "holds t ps kvs = list_all2 (\<lambda>e (k, x). en_key e = fk_encode_into_without_table_id k \<and> en_value e = x
     \<and> uk_table_id (fk_user_key k) = t) ps kvs"

lemma builder_rep_new: "blb_new n alg = Some b \<Longrightarrow> builder_rep t b []"
  by (auto simp: blb_new_def builder_rep_def layout_def entry_bytes_def restarts_def fresh_positions_def split: if_splits)

lemma last_restart_types:
  assumes "layout ps" and "ps \<noteq> []"
  shows "restarts ps \<noteq> [] \<and> rp_key_len_type (last (restarts ps)) = en_kt (last ps)
    \<and> rp_value_len_type (last (restarts ps)) = en_vt (last ps)"
  using assms
proof (induction ps rule: rev_induct)
  case (snoc e ps)
  show ?case
  proof (cases "en_fresh e")
    case False
    then have "ps \<noteq> []" "layout ps" "en_kt e = en_kt (last ps)" "en_vt e = en_vt (last ps)"
      using snoc.prems(1) by (auto simp: layout_snoc en_follows_def split: if_splits)
    then show ?thesis using snoc.IH False by (simp add: restarts_snoc)
  qed (simp add: restarts_snoc)
qed simp

definition type_mismatch :: "block_builder \<Rightarrow> len_type \<Rightarrow> len_type \<Rightarrow> bool" where
  "type_mismatch b kt vt = (case rev (blb_restart_points_type_index b) of
     r # _ \<Rightarrow> kt \<noteq> rp_key_len_type r \<or> vt \<noteq> rp_value_len_type r | [] \<Rightarrow> True)"

lemma type_mismatch_table_id [simp]: "type_mismatch (b\<lparr>blb_table_id := t\<rparr>) = type_mismatch b"
  by (simp add: type_mismatch_def fun_eq_iff)

lemma type_mismatch_rep:
  assumes "builder_rep t b ps"
  shows "type_mismatch b kt vt \<longleftrightarrow> (ps = [] \<or> kt \<noteq> en_kt (last ps) \<or> vt \<noteq> en_vt (last ps))"
proof (cases "ps = []")
  case True
  then show ?thesis using assms by (simp add: type_mismatch_def builder_rep_def restarts_def fresh_positions_def)
next
  case False
  have "layout ps" using assms by (simp add: builder_rep_def)
  note r = last_restart_types [OF this False]
  have ne: "type_changes None (restarts ps) \<noteq> []" using r type_changes_nonempty by blast
  then obtain xs x where x: "type_changes None (restarts ps) = xs @ [x]" by (cases "type_changes None (restarts ps)" rule: rev_cases) auto
  have "same_types x (last (restarts ps))" using type_changes_last [of "restarts ps"] r x by simp
  then show ?thesis using r x assms False by (simp add: type_mismatch_def builder_rep_def same_types_def)
qed

lemma blb_add_rep:
  assumes "builder_rep t b ps" and "uk_table_id (fk_user_key k) = t"
    and "length (fk_encode_into_without_table_id k) < 2 ^ 32" and "length x < 2 ^ 32" and "length (blb_buf b) < 2 ^ 32"
  shows "\<exists>b' e. blb_add b k x = Some b' \<and> builder_rep t b' (ps @ [e]) \<and> en_key e = fk_encode_into_without_table_id k
    \<and> en_value e = x \<and> blb_restart_count b' = blb_restart_count b \<and> blb_compression_algorithm b' = blb_compression_algorithm b"
proof -
  let ?key = "fk_encode_into_without_table_id k"
  obtain kt vt where ty: "len_type_new (length ?key) = Some kt" "len_type_new (length x) = Some vt"
    using len_type_new_total assms(3,4) by blast
  note fit = len_type_new_fits [OF ty(1)] len_type_new_fits [OF ty(2)]
  note rep = assms(1) [unfolded builder_rep_def]
  have tid: "(case blb_table_id b of Some c \<Rightarrow> if c = t then Some b else None | None \<Rightarrow> Some (b\<lparr>blb_table_id := Some t\<rparr>))
      = Some (b\<lparr>blb_table_id := Some t\<rparr>)"
    using rep by (cases "ps = []") simp_all
  define fresh where "fresh = (blb_entry_count b mod blb_restart_count b = 0 \<or> type_mismatch b kt vt)"
  obtain i where i: "i \<le> length ?key" "i \<le> length (blb_last_key b)" "take i (blb_last_key b) = take i ?key"
    "bytes_diff_below_max_key_length (blb_last_key b) ?key = drop i ?key"
    using bytes_diff_prefix [of ?key "blb_last_key b"] by blast
  define e where "e = \<lparr>en_fresh = fresh, en_kt = kt, en_vt = vt, en_overlap = (if fresh then 0 else i), en_key = ?key, en_value = x\<rparr>"
  have ok: "en_ok e" using fit i(1) by (simp add: en_ok_def e_def)
  have nm: "ps \<noteq> []" "kt = en_kt (last ps)" "vt = en_vt (last ps)" if "\<not> fresh"
    using that type_mismatch_rep [OF assms(1)] by (auto simp: fresh_def)
  have "en_follows (last ps) e" if "ps \<noteq> []"
  proof (cases fresh)
    case False
    have "blb_last_key b = en_key (last ps)" using rep that by simp
    then show ?thesis using i(2,3) nm False by (simp add: en_follows_def e_def)
  qed (simp add: en_follows_def e_def)
  moreover have "en_fresh e" if "ps = []" using nm(1) that by (auto simp: e_def)
  ultimately have lay: "layout (ps @ [e])" using conjunct1 [OF rep] ok by (simp add: layout_snoc)
  have bytes: "en_bytes e = kp_encode (kp_new_without_len (length ?key - length (drop (en_overlap e) ?key)) (length (drop (en_overlap e) ?key)) (length x) (length (blb_buf b))) kt vt
      @ drop (en_overlap e) ?key @ x"
    using i(1) by (simp add: en_bytes_def en_head_def kp_encode_def kp_new_without_len_def e_def)
  have off32: "checked_into_u32 (length (blb_buf b)) = Some (word_of_nat (length (entry_bytes ps)))"
    using assms(5) rep by (simp add: checked_into_u32_def)
  have tc: "type_changes None (restarts ps @ [r]) = type_changes None (restarts ps) @ (if type_mismatch b kt vt then [r] else [])"
    if "rp_key_len_type r = kt" "rp_value_len_type r = vt" for r
  proof (cases "ps = []")
    case True
    then show ?thesis using type_mismatch_rep [OF assms(1)] by (simp add: restarts_def fresh_positions_def)
  next
    case False
    note lr = last_restart_types [OF conjunct1 [OF rep] False]
    then show ?thesis using type_mismatch_rep [OF assms(1), of kt vt] that False by (auto simp: type_changes_snoc same_types_def)
  qed
  define b' where "b' = (b\<lparr>blb_table_id := Some t,
      blb_restart_points := map rp_offset (restarts (ps @ [e])),
      blb_restart_points_type_index := type_changes None (restarts (ps @ [e])),
      blb_buf := entry_bytes (ps @ [e]), blb_last_key := ?key, blb_entry_count := length ps + 1\<rparr>)"
  have "blb_add b k x = Some b'"
  proof (cases fresh)
    case True
    let ?r = "\<lparr>rp_offset = word_of_nat (length (entry_bytes ps)), rp_key_len_type = kt, rp_value_len_type = vt\<rparr>"
    have f: "(blb_entry_count b mod blb_restart_count b = 0 \<or> type_mismatch b kt vt) = True" using True by (simp only: fresh_def)
    have "blb_add b k x = Some (b\<lparr>blb_table_id := Some t, blb_restart_points := blb_restart_points b @ [word_of_nat (length (entry_bytes ps))],
        blb_restart_points_type_index := blb_restart_points_type_index b @ (if type_mismatch b kt vt then [?r] else []),
        blb_buf := blb_buf b @ kp_encode (kp_new_without_len (length ?key - length ?key) (length ?key) (length x) (length (blb_buf b))) kt vt @ ?key @ x,
        blb_last_key := ?key, blb_entry_count := blb_entry_count b + 1\<rparr>)"
      unfolding blb_add_def assms(2) Let_def tid ty
      by (cases "type_mismatch b kt vt") (use f in \<open>simp_all add: ty off32 flip: type_mismatch_def\<close>)
    also have "\<dots> = Some b'"
      using rep tc [of ?r] bytes True by (simp add: b'_def restarts_snoc entry_bytes_snoc e_def)
    finally show ?thesis .
  next
    case False
    have f: "(blb_entry_count b mod blb_restart_count b = 0 \<or> type_mismatch b kt vt) = False" using False by (simp only: fresh_def)
    have "blb_add b k x = Some (b\<lparr>blb_table_id := Some t,
        blb_buf := blb_buf b @ kp_encode (kp_new_without_len (length ?key - length (drop i ?key)) (length (drop i ?key)) (length x) (length (blb_buf b))) kt vt @ drop i ?key @ x,
        blb_last_key := ?key, blb_entry_count := blb_entry_count b + 1\<rparr>)"
      unfolding blb_add_def assms(2) Let_def tid ty using f by (simp add: ty i(4) flip: type_mismatch_def)
    also have "\<dots> = Some b'"
      using rep bytes False by (simp add: b'_def restarts_snoc entry_bytes_snoc e_def)
    finally show ?thesis .
  qed
  moreover have "builder_rep t b' (ps @ [e])" using lay rep by (simp add: builder_rep_def b'_def e_def)
  ultimately show ?thesis by (intro exI [of _ b'] exI [of _ e]) (simp add: b'_def e_def)
qed

section \<open>A built block is read back\<close>

text \<open>A decoded block that holds the entries \<open>ps\<close> of table \<open>t\<close>.\<close>

definition block_rep :: "u32 \<Rightarrow> block \<Rightarrow> entry list \<Rightarrow> bool" where
  "block_rep t blk ps = (layout ps \<and> ps \<noteq> [] \<and> length (entry_bytes ps) < 2 ^ 32
     \<and> blk_entries blk = entry_bytes ps \<and> blk_data_len blk = length (entry_bytes ps) \<and> blk_data blk \<noteq> []
     \<and> blk_table_id blk = t \<and> blk_restart_points blk = restarts ps)"

lemma length_concat_const: "\<forall>x \<in> set xs. length (f x) = n \<Longrightarrow> length (concat (map f xs)) = length xs * n"
  by (induction xs) simp_all

lemma length_le_list [simp]: "length (concat (map le_u32 xs)) = length xs * 4"
  by (rule length_concat_const) simp

lemma length_index_list [simp]: "length (concat (map encode_type_index xs)) = length xs * 5"
  by (rule length_concat_const) (simp add: encode_type_index_def)

lemma fresh_offsets_sorted:
  assumes "length (entry_bytes ps) < 2 ^ 32"
  shows "sorted_wrt (<) (map rp_offset (restarts ps))"
proof -
  have "sorted_wrt (<) (fresh_positions ps)" by (auto simp: fresh_positions_def intro: sorted_wrt_filter)
  moreover have "(word_of_nat (off ps i) :: u32) < word_of_nat (off ps j)"
    if "i \<in> set (fresh_positions ps)" "j \<in> set (fresh_positions ps)" "i < j" for i j
  proof -
    have b: "off ps i < 2 ^ 32" "off ps j < 2 ^ 32"
      using that(1,2) assms off_bound [of i ps] off_bound [of j ps] by (auto simp: fresh_positions_def)
    have "off ps i < off ps j" using that by (intro off_mono) (auto simp: fresh_positions_def)
    then show ?thesis using b by (simp add: word_less_nat_alt unat_of_nat)
  qed
  ultimately show ?thesis unfolding restarts_def by (simp add: sorted_wrt_map restart_at_def sorted_wrt_mono_rel [of _ "(<)"])
qed

lemma length_restarts: "length (restarts ps) \<le> length ps"
  by (simp add: restarts_def fresh_positions_def length_filter_le [THEN order_trans])

lemma length_le_entry_bytes: "length ps \<le> length (entry_bytes ps)"
proof (induction ps)
  case (Cons e ps)
  have "length (entry_bytes (e # ps)) = length (en_bytes e) + length (entry_bytes ps)" by (simp add: entry_bytes_def)
  then show ?case using Cons en_bytes_pos [of e] by (simp only: list.size)
qed simp

lemma restarts_first:
  assumes "layout ps" and "ps \<noteq> []"
  shows "\<exists>rs. restarts ps = restart_at ps 0 # rs"
proof -
  have "[0..<length ps] = 0 # [1..<length ps]" using assms(2) by (simp add: upt_rec)
  then show ?thesis using assms by (simp add: restarts_def fresh_positions_def layout_def hd_conv_nth)
qed

lemma decode_raw_correct:
  assumes "builder_rep t b ps" and "ps \<noteq> []" and "length (entry_bytes ps) < 2 ^ 32"
  shows "\<exists>raw blk. blb_raw b = Some raw \<and> length raw = uncompressed_block_size b
    \<and> decode_from_raw raw = Some blk \<and> block_rep t blk ps"
proof -
  note rep = assms(1) [unfolded builder_rep_def]
  let ?rs = "restarts ps" and ?idx = "type_changes None (restarts ps)"
  have lay: "layout ps" using rep by blast
  have n: "length ?rs < 2 ^ 32" "length ?idx < 2 ^ 32"
    using length_restarts [of ps] length_le_entry_bytes [of ps] length_type_changes [of None ?rs] assms(3) by linarith+
  define e where "e = entry_bytes ps"
  define r where "r = concat (map le_u32 (map rp_offset ?rs))"
  define i where "i = concat (map encode_type_index ?idx)"
  define nr ni :: u32 where "nr = word_of_nat (length ?rs)" and "ni = word_of_nat (length ?idx)"
  define raw where "raw = e @ r @ le_u32 nr @ i @ le_u32 ni @ le_u32 t"
  have raw: "blb_raw b = Some raw"
    using rep assms(2) n by (simp add: blb_raw_def checked_into_u32_def raw_def e_def r_def i_def nr_def ni_def)
  have len: "length r = length ?rs * 4" "length i = length ?idx * 5" by (simp_all add: r_def i_def del: map_map)
  have un: "unat nr = length ?rs" "unat ni = length ?idx" using n by (simp_all add: nr_def ni_def unat_of_nat)
  have size: "length raw = uncompressed_block_size b"
    using rep by (simp add: raw_def uncompressed_block_size_def restart_point_size_def e_def len)
  define data_len where "data_len = length e + length r + 4"
  have s1: "drop (length raw - 4) raw = le_u32 t" "drop (length raw - 8) raw = le_u32 ni @ le_u32 t"
    by (simp_all add: raw_def)
  have s2: "slice_range raw data_len (length raw - 8) = Some i"
    by (simp add: slice_range_def raw_def data_len_def)
  have s3: "drop (data_len - 4) raw = le_u32 nr @ i @ le_u32 ni @ le_u32 t" by (simp add: raw_def data_len_def)
  have s4: "slice_range raw (length e) (data_len - 4) = Some r" by (simp add: slice_range_def raw_def data_len_def)
  have l: "length raw - 4 - (4 + length ?idx * restart_point_size) = data_len"
    "\<not> length raw < 4 + (4 + length ?idx * restart_point_size)" "\<not> length raw < 8" "data_len - (4 + length ?rs * 4) = length e"
    "\<not> data_len < 4" "\<not> data_len < 4 + length ?rs * 4"
    by (simp_all add: raw_def len restart_point_size_def data_len_def)
  have idx: "decode_type_index (length ?idx) i = Some ?idx"
    using decode_type_index_correct [of ?idx "[]"] by (simp add: i_def)
  obtain rs where rs: "?rs = restart_at ps 0 # rs" using restarts_first [OF lay assms(2)] by blast
  have "decode_restarts ?idx 0 (length ?rs) (concat (map (\<lambda>r. le_u32 (rp_offset r)) ?rs)) = Some ?rs"
    using decode_restarts_correct [of ?idx "[]" "restart_at ps 0" "restart_at ps 0" ?rs "[]"] fresh_offsets_sorted [OF assms(3)] rs
    by (simp add: same_types_def)
  then have dr: "decode_restarts ?idx 0 (length ?rs) r = Some ?rs" by (simp add: r_def comp_def)
  have "decode_from_raw raw = Some \<lparr>blk_data = raw, blk_data_len = length e, blk_table_id = t, blk_restart_points = ?rs\<rparr>"
    using l by (simp add: decode_from_raw_def Let_def s1 s2 s3 s4 un idx dr)
  moreover have "block_rep t \<lparr>blk_data = raw, blk_data_len = length e, blk_table_id = t, blk_restart_points = ?rs\<rparr> ps"
  proof -
    have "raw \<noteq> []" using l(3) by auto
    moreover have "take (length e) raw = e" by (simp add: raw_def)
    ultimately show ?thesis using lay assms(2,3) by (simp add: block_rep_def blk_entries_def e_def)
  qed
  ultimately show ?thesis using raw size by blast
qed

text \<open>What the code relies on: the decompressor of an algorithm inverts its compressor.\<close>

definition inverts :: "(compression_algorithm \<Rightarrow> bytes \<Rightarrow> bytes) \<Rightarrow> (compression_algorithm \<Rightarrow> bytes \<Rightarrow> block_error + bytes) \<Rightarrow> bool" where
  "inverts compressor decompressor = (\<forall>alg data. decompressor alg (compressor alg data) = Inr data)"

lemma compression_round_trip [simp]: "compression_decode (compression_encode alg) = Some (Inr alg)"
  by (cases alg) (simp_all add: compression_decode_def)

lemma length_compression_encode [simp]: "length (compression_encode alg) = 1"
  by (cases alg) simp_all

lemma decode_sealed:
  assumes "inverts compressor decompressor" and "decode_from_raw raw = Some blk"
    and "body = (if alg = CompressionNone then raw else compressor alg raw)"
  shows "decode_with_copy decompressor xxh64 (body @ compression_encode alg @ le_u64 (xxh64 (body @ compression_encode alg))) (length raw)
    = Some (Inr blk)"
proof -
  let ?buf = "body @ compression_encode alg @ le_u64 (xxh64 (body @ compression_encode alg))"
  have l: "length ?buf = length body + 9" by simp
  have d8: "drop (length ?buf - 8) ?buf = le_u64 (xxh64 (body @ compression_encode alg))" unfolding l by simp
  have t8: "take (length ?buf - 8) ?buf = body @ compression_encode alg" unfolding l by simp
  have t9: "take (length ?buf - 9) ?buf = body" unfolding l by simp
  have d9: "take 1 (drop (length ?buf - 9) ?buf) = compression_encode alg" unfolding l by simp
  have g: "get_algorithm ?buf = Some (Inr alg)" unfolding get_algorithm_def d9 using l by simp
  show ?thesis unfolding decode_with_copy_def d8 t8 t9 g
    using assms by (simp add: xxhash64_verify_def inverts_def Let_def)
qed

lemma build_decode:
  assumes "builder_rep t b ps" and "ps \<noteq> []" and "length (entry_bytes ps) < 2 ^ 32"
    and "inverts compressor decompressor" and "blb_build compressor xxh64 b = Some (out, b')"
  shows "\<exists>blk. decode_with_copy decompressor xxh64 out (uncompressed_block_size b) = Some (Inr blk) \<and> block_rep t blk ps"
proof -
  obtain raw blk where raw: "blb_raw b = Some raw" "length raw = uncompressed_block_size b"
    "decode_from_raw raw = Some blk" "block_rep t blk ps" using decode_raw_correct [OF assms(1-3)] by blast
  define alg where "alg = blb_compression_algorithm b"
  define body where "body = (if alg = CompressionNone then raw else compressor alg raw)"
  have "out = body @ compression_encode alg @ le_u64 (xxh64 (body @ compression_encode alg))"
    using assms(5) raw(1) by (cases "alg = CompressionNone")
      (auto simp: blb_build_def block_compress_def Let_def body_def simp flip: alg_def split: if_splits)
  then show ?thesis using decode_sealed [OF assms(4) raw(3) body_def] raw by simp
qed

lemma build_total:
  assumes "builder_rep t b ps" and "ps \<noteq> []" and "length (entry_bytes ps) < 2 ^ 32" and "blb_compression_algorithm b = CompressionNone"
  shows "(\<exists>out b'. blb_build compressor xxh64 b = Some (out, b')) \<longleftrightarrow> approximate_len b < 2 ^ 32 - 1"
proof -
  obtain raw where raw: "blb_raw b = Some raw" "length raw = uncompressed_block_size b"
    using decode_raw_correct [OF assms(1-3)] by blast
  have "approximate_len b = length raw + 9" by (simp add: raw(2) approximate_len_def uncompressed_block_size_def)
  then show ?thesis using raw(1) assms(1,2,4) by (simp add: blb_build_def builder_rep_def Let_def)
qed

section \<open>Adding a sequence of entries\<close>

fun blb_add_all :: "block_builder \<Rightarrow> (full_key \<times> bytes) list \<Rightarrow> block_builder option" where
  "blb_add_all b [] = Some b"
| "blb_add_all b ((k, x) # kvs) = do { b \<leftarrow> blb_add b k x; blb_add_all b kvs }"

fun blb_add_all_debug :: "block_builder \<Rightarrow> (full_key \<times> bytes) list \<Rightarrow> block_builder option" where
  "blb_add_all_debug b [] = Some b"
| "blb_add_all_debug b ((k, x) # kvs) = do { b \<leftarrow> blb_add_debug b k x; blb_add_all_debug b kvs }"

text \<open>A bound on the bytes of the entries.\<close>

definition kvs_size :: "(full_key \<times> bytes) list \<Rightarrow> nat" where
  "kvs_size kvs = sum_list (map (\<lambda>(k, x). length (fk_encode_into_without_table_id k) + length x + 12) kvs)"

lemma len_type_len_le: "len_type_len t \<le> 4"
  by (cases t) simp_all

lemma length_en_bytes_le: "length (en_bytes e) \<le> length (en_key e) + length (en_value e) + 12"
  using len_type_len_le [of "en_kt e"] len_type_len_le [of "en_vt e"] by (simp add: en_bytes_def)

lemma blb_add_step:
  assumes "builder_rep t b ps" and "\<forall>(k, x) \<in> set ((k, x) # kvs). uk_table_id (fk_user_key k) = t"
    and "length (blb_buf b) + kvs_size ((k, x) # kvs) < 2 ^ 32"
  shows "\<exists>b' e. blb_add b k x = Some b' \<and> builder_rep t b' (ps @ [e]) \<and> holds t [e] [(k, x)]
    \<and> length (blb_buf b') + kvs_size kvs < 2 ^ 32 \<and> blb_compression_algorithm b' = blb_compression_algorithm b"
proof -
  have len: "length (fk_encode_into_without_table_id k) < 2 ^ 32" "length x < 2 ^ 32" "length (blb_buf b) < 2 ^ 32"
    using assms(3) by (simp_all add: kvs_size_def)
  obtain b' e where b': "blb_add b k x = Some b'" "builder_rep t b' (ps @ [e])" "en_key e = fk_encode_into_without_table_id k"
    "en_value e = x" "blb_compression_algorithm b' = blb_compression_algorithm b"
    using blb_add_rep [OF assms(1) _ len] assms(2) by auto
  have "length (blb_buf b') \<le> length (blb_buf b) + (length (fk_encode_into_without_table_id k) + length x + 12)"
    using b'(2-4) assms(1) length_en_bytes_le [of e] by (simp add: builder_rep_def entry_bytes_snoc)
  then have "length (blb_buf b') + kvs_size kvs < 2 ^ 32" using assms(3) by (simp add: kvs_size_def)
  with b' show ?thesis using assms(2) by (intro exI [of _ b'] exI [of _ e]) (simp add: holds_def)
qed

lemma blb_add_all_rep:
  assumes "builder_rep t b ps" and "\<forall>(k, x) \<in> set kvs. uk_table_id (fk_user_key k) = t"
    and "length (blb_buf b) + kvs_size kvs < 2 ^ 32"
  shows "\<exists>b' es. blb_add_all b kvs = Some b' \<and> builder_rep t b' (ps @ es) \<and> holds t es kvs
    \<and> length (entry_bytes (ps @ es)) < 2 ^ 32 \<and> blb_compression_algorithm b' = blb_compression_algorithm b"
  using assms
proof (induction kvs arbitrary: b ps)
  case Nil
  then show ?case by (intro exI [of _ b] exI [of _ "[]"]) (simp add: holds_def builder_rep_def kvs_size_def)
next
  case (Cons kx kvs)
  obtain k x where kx: "kx = (k, x)" by (cases kx)
  obtain b1 e where b1: "blb_add b k x = Some b1" "builder_rep t b1 (ps @ [e])" "holds t [e] [(k, x)]"
    "length (blb_buf b1) + kvs_size kvs < 2 ^ 32" "blb_compression_algorithm b1 = blb_compression_algorithm b"
    using blb_add_step [OF Cons.prems [unfolded kx]] by blast
  then obtain b' es where b': "blb_add_all b1 kvs = Some b'" "builder_rep t b' ((ps @ [e]) @ es)" "holds t es kvs"
    "length (entry_bytes ((ps @ [e]) @ es)) < 2 ^ 32" "blb_compression_algorithm b' = blb_compression_algorithm b1"
    using Cons.IH [OF b1(2) _ b1(4)] Cons.prems(2) by auto
  then show ?case using b1 by (intro exI [of _ b'] exI [of _ "e # es"]) (simp add: kx holds_def)
qed

lemma compare_without_table_id:
  assumes "uk_table_id (fk_user_key a) = uk_table_id (fk_user_key b)"
  shows "compare_encoded_full_key (fk_encode_into_without_table_id a) (fk_encode_into_without_table_id b) = Some Less \<longleftrightarrow> a < b"
proof -
  obtain t k e where a: "a = FullKey (UserKey t k) e" by (metis full_key.exhaust user_key.exhaust)
  obtain k' e' where b: "b = FullKey (UserKey t k') e'" using assms a by (metis full_key.exhaust user_key.exhaust full_key.sel(1) user_key.sel(1))
  show ?thesis
    by (auto simp: a b fk_encode_into_without_table_id_def compare_split_keys cmp_be_u64 less_full_key_def less_user_key_def cmp_def)
qed

lemma blb_add_all_debug_eq:
  assumes "builder_rep t b ps" and "holds t ps seen" and "\<forall>(k, x) \<in> set kvs. uk_table_id (fk_user_key k) = t"
    and "length (blb_buf b) + kvs_size kvs < 2 ^ 32"
  shows "blb_add_all_debug b kvs =
    (if sorted_wrt (<) (map fst ((if seen = [] then [] else [last seen]) @ kvs)) then blb_add_all b kvs else None)"
  using assms
proof (induction kvs arbitrary: b ps seen)
  case (Cons kx kvs)
  obtain k x where kx: "kx = (k, x)" by (cases kx)
  have t: "uk_table_id (fk_user_key k) = t" using Cons.prems(3) by (simp add: kx)
  have len: "length ps = length seen" using Cons.prems(2) by (simp add: holds_def list_all2_lengthD)
  have ne: "fk_encode_into_without_table_id k \<noteq> []" by (auto simp: fk_encode_into_without_table_id_def simp flip: length_0_conv)
  have valid: "blb_debug_valid b" using Cons.prems(1)
    by (auto simp: blb_debug_valid_def builder_rep_def entry_bytes_def restarts_def fresh_positions_def)
  have last: "compare_encoded_full_key (blb_last_key b) (fk_encode_into_without_table_id k) = Some Less \<longleftrightarrow> fst (last seen) < k"
    if "seen \<noteq> []"
  proof -
    from that len have "ps \<noteq> []" by auto
    then have "en_key (last ps) = fk_encode_into_without_table_id (fst (last seen)) \<and> uk_table_id (fk_user_key (fst (last seen))) = t"
      using Cons.prems(2) len that by (cases ps rule: rev_cases; cases seen rule: rev_cases) (auto simp: holds_def list_all2_append)
    then show ?thesis using Cons.prems(1) \<open>ps \<noteq> []\<close> compare_without_table_id [of "fst (last seen)" k] t by (simp add: builder_rep_def)
  qed
  have cnt: "blb_entry_count b = length seen" using Cons.prems(1) len by (simp add: builder_rep_def)
  show ?case
  proof (cases "seen \<noteq> [] \<and> \<not> fst (last seen) < k")
    case True
    then show ?thesis using last cnt by (simp add: kx blb_add_debug_def Let_def)
  next
    case False
    then have add: "blb_add_debug b k x = blb_add b k x" using valid ne last cnt by (auto simp: blb_add_debug_def Let_def)
    obtain b1 e where b1: "blb_add b k x = Some b1" "builder_rep t b1 (ps @ [e])" "holds t [e] [(k, x)]"
      "length (blb_buf b1) + kvs_size kvs < 2 ^ 32" using blb_add_step [OF Cons.prems(1)] Cons.prems(3,4) kx by blast
    have "holds t (ps @ [e]) (seen @ [(k, x)])" using Cons.prems(2) b1(3) by (simp add: holds_def list_all2_appendI)
    from Cons.IH [OF b1(2) this _ b1(4)] Cons.prems(3)
    have "blb_add_all_debug b1 kvs = (if sorted_wrt (<) (k # map fst kvs) then blb_add_all b1 kvs else None)" by (simp add: kx)
    moreover have "sorted_wrt (<) (map fst ((if seen = [] then [] else [last seen]) @ kx # kvs)) \<longleftrightarrow> sorted_wrt (<) (k # map fst kvs)"
      using False by (auto simp: kx intro: less_trans)
    ultimately show ?thesis using add b1(1) by (simp add: kx)
  qed
qed simp

text \<open>Recompressing an uncompressed block keeps what it decodes to.\<close>

lemma compress_block_decode:
  assumes "inverts compressor decompressor" and "decode_from_raw raw = Some blk" and "target \<noteq> CompressionNone"
    and "buf = raw @ compression_encode CompressionNone @ le_u64 (xxh64 (raw @ compression_encode CompressionNone))"
  shows "\<exists>out. compress_block compressor xxh64 buf target = Some (Inr out)
    \<and> decode_with_copy decompressor xxh64 out (length raw) = Some (Inr blk)"
proof -
  define body where "body = compressor target raw"
  have l: "length buf = length raw + 9" by (simp add: assms(4))
  have d8: "drop (length buf - 8) buf = le_u64 (xxh64 (raw @ compression_encode CompressionNone))" unfolding l by (simp add: assms(4))
  have t8: "take (length buf - 8) buf = raw @ compression_encode CompressionNone" unfolding l by (simp add: assms(4))
  have t9: "take (length buf - 9) buf = raw" unfolding l by (simp add: assms(4))
  have a: "get_algorithm buf = Some (Inr CompressionNone)"
    using compression_round_trip [of CompressionNone] by (simp add: get_algorithm_def l) (simp add: assms(4))
  have "compress_block compressor xxh64 buf target
    = Some (Inr (body @ compression_encode target @ le_u64 (xxh64 (body @ compression_encode target))))"
    unfolding compress_block_def t8 d8 t9 a using l assms(3) get_le(2) [of "xxh64 (raw @ compression_encode CompressionNone)" "[]"]
    by (simp add: xxhash64_verify_def block_compress_def body_def)
  then show ?thesis using decode_sealed [OF assms(1,2), of body target xxh64] assms(3) by (simp add: body_def)
qed

end
