(* ===== verification/Block_Iterator.thy ===== *)
theory Block_Iterator
  imports Sst_Block
begin

text \<open>
  The iterator over a block (\<open>storage/src/hummock/sstable/block_iterator.rs\<close>): moves in both
  directions, the search over the restart points and the seeks. The moves are described by the entry
  the iterator stands at; reading a block that was built returns what was added.
\<close>

section \<open>Iterating over a block\<close>

text \<open>The local counters of the hit map are left out.\<close>

record block_iterator =
  it_block :: block
  it_restart_point_index :: nat
  it_offset :: nat
  it_key :: bytes
  it_value_range :: "nat \<times> nat"
  it_entry_len :: nat
  it_last_key_len_type :: len_type
  it_last_value_len_type :: len_type

definition usize_max :: nat where
  "usize_max = 2 ^ 64 - 1"

definition it_new :: "block \<Rightarrow> block_iterator" where
  "it_new blk = \<lparr>it_block = blk, it_restart_point_index = usize_max, it_offset = usize_max, it_key = [],
     it_value_range = (0, 0), it_entry_len = 0, it_last_key_len_type = LenU8, it_last_value_len_type = LenU8\<rparr>"

definition it_is_valid :: "block_iterator \<Rightarrow> bool option" where
  "it_is_valid it = map_option (\<lambda>n. it_offset it < n) (blk_len (it_block it))"

definition it_full_key :: "block_iterator \<Rightarrow> full_key option" where
  "it_full_key it =
     do { valid \<leftarrow> it_is_valid it;
          if valid then fk_from_slice_without_table_id (blk_table_id (it_block it)) (it_key it) else None }"

definition it_value :: "block_iterator \<Rightarrow> bytes option" where
  "it_value it =
     do { valid \<leftarrow> it_is_valid it;
          if valid then slice_range (blk_entries (it_block it)) (fst (it_value_range it)) (snd (it_value_range it)) else None }"

definition it_invalidate :: "block_iterator \<Rightarrow> block_iterator option" where
  "it_invalidate it =
     do { n \<leftarrow> blk_len (it_block it);
          Some (it\<lparr>it_offset := n, it_restart_point_index := length (blk_restart_points (it_block it)), it_key := [],
                   it_value_range := (0, 0), it_entry_len := 0\<rparr>) }"

definition it_decode_prefix_at :: "block_iterator \<Rightarrow> nat \<Rightarrow> len_type \<Rightarrow> len_type \<Rightarrow> key_prefix option" where
  "it_decode_prefix_at it offset key_len_type value_len_type =
     do { buf \<leftarrow> slice_from (blk_entries (it_block it)) offset;
          kp_decode buf offset key_len_type value_len_type }"

definition it_update_restart_point :: "block_iterator \<Rightarrow> nat \<Rightarrow> block_iterator option" where
  "it_update_restart_point it index =
     do { r \<leftarrow> restart_point_at (it_block it) index;
          Some (it\<lparr>it_restart_point_index := index, it_last_key_len_type := rp_key_len_type r,
                   it_last_value_len_type := rp_value_len_type r\<rparr>) }"

definition it_seek_restart_point_by_index :: "block_iterator \<Rightarrow> nat \<Rightarrow> block_iterator option" where
  "it_seek_restart_point_by_index it index =
     do { r \<leftarrow> restart_point_at (it_block it) index;
          let offset = unat (rp_offset r);
          p \<leftarrow> it_decode_prefix_at it offset (rp_key_len_type r) (rp_value_len_type r);
          key \<leftarrow> slice_range (blk_entries (it_block it)) (fst (diff_key_range p)) (snd (diff_key_range p));
          it_update_restart_point
            (it\<lparr>it_key := key, it_value_range := value_range p, it_offset := offset, it_entry_len := entry_len p\<rparr>) index }"

definition it_try_next_inner :: "block_iterator \<Rightarrow> (block_iterator \<times> bool) option" where
  "it_try_next_inner it =
     do { n \<leftarrow> blk_len (it_block it);
          let offset = it_offset it + it_entry_len it;
          if offset \<ge> n then Some (it, False)
          else do {
            it \<leftarrow> (if it_restart_point_index it + 1 < length (blk_restart_points (it_block it)) then
                     do { r \<leftarrow> restart_point_at (it_block it) (it_restart_point_index it + 1);
                          if offset \<ge> unat (rp_offset r)
                          then it_update_restart_point it (it_restart_point_index it + 1) else Some it }
                   else Some it);
            p \<leftarrow> it_decode_prefix_at it offset (it_last_key_len_type it) (it_last_value_len_type it);
            diff \<leftarrow> slice_range (blk_entries (it_block it)) (fst (diff_key_range p)) (snd (diff_key_range p));
            Some (it\<lparr>it_key := take (kp_overlap p) (it_key it) @ diff, it_value_range := value_range p,
                     it_offset := offset, it_entry_len := entry_len p\<rparr>, True) } }"

definition it_next_inner :: "block_iterator \<Rightarrow> block_iterator option" where
  "it_next_inner it = do { (it, moved) \<leftarrow> it_try_next_inner it; if moved then Some it else it_invalidate it }"

partial_function (option) it_next_until_key :: "block_iterator \<Rightarrow> full_key \<Rightarrow> block_iterator option" where
  "it_next_until_key it key =
     do { valid \<leftarrow> it_is_valid it;
          if valid then do {
            k \<leftarrow> it_full_key it;
            if fk_cmp k key = Less then do { it \<leftarrow> it_next_inner it; it_next_until_key it key } else Some it }
          else Some it }"

partial_function (option) it_next_until_prev_offset :: "block_iterator \<Rightarrow> nat \<Rightarrow> block_iterator option" where
  "it_next_until_prev_offset it offset =
     do { n \<leftarrow> blk_len (it_block it);
          if it_offset it + it_entry_len it < min n offset
          then do { it \<leftarrow> it_next_inner it; it_next_until_prev_offset it offset }
          else Some it }"

text \<open>At restart point 0 the decrement wraps around, and the next access is out of range.\<close>

definition it_try_prev_inner :: "block_iterator \<Rightarrow> (block_iterator \<times> bool) option" where
  "it_try_prev_inner it =
     (if it_offset it = 0 then Some (it, False)
      else do {
        r \<leftarrow> restart_point_at (it_block it) (it_restart_point_index it);
        index \<leftarrow> (if unat (rp_offset r) = it_offset it
                 then (if it_restart_point_index it = 0 then None else Some (it_restart_point_index it - 1))
                 else Some (it_restart_point_index it));
        it' \<leftarrow> it_seek_restart_point_by_index it index;
        it' \<leftarrow> it_next_until_prev_offset it' (it_offset it);
        Some (it', True) })"

definition it_prev_inner :: "block_iterator \<Rightarrow> block_iterator option" where
  "it_prev_inner it = do { (it, moved) \<leftarrow> it_try_prev_inner it; if moved then Some it else it_invalidate it }"

partial_function (option) it_prev_until_key :: "block_iterator \<Rightarrow> full_key \<Rightarrow> block_iterator option" where
  "it_prev_until_key it key =
     do { valid \<leftarrow> it_is_valid it;
          if valid then do {
            k \<leftarrow> it_full_key it;
            if fk_cmp k key = Greater then do { it \<leftarrow> it_prev_inner it; it_prev_until_key it key } else Some it }
          else Some it }"

definition it_probe :: "block_iterator \<Rightarrow> full_key \<Rightarrow> restart_point \<Rightarrow> bool option" where
  "it_probe it key r =
     do { p \<leftarrow> it_decode_prefix_at it (unat (rp_offset r)) (rp_key_len_type r) (rp_value_len_type r);
          probe_key \<leftarrow> slice_range (blk_entries (it_block it)) (fst (diff_key_range p)) (snd (diff_key_range p));
          k \<leftarrow> fk_from_slice_without_table_id (blk_table_id (it_block it)) probe_key;
          Some (fk_cmp k key \<noteq> Greater) }"

definition it_search_restart_point_index_by_key :: "block_iterator \<Rightarrow> full_key \<Rightarrow> nat option" where
  "it_search_restart_point_index_by_key it key =
     map_option (\<lambda>n. n - 1) (partition_point_opt (it_probe it key) (blk_restart_points (it_block it)))"

definition it_seek_restart_point_by_key :: "block_iterator \<Rightarrow> full_key \<Rightarrow> block_iterator option" where
  "it_seek_restart_point_by_key it key =
     do { index \<leftarrow> it_search_restart_point_index_by_key it key; it_seek_restart_point_by_index it index }"

definition it_next :: "block_iterator \<Rightarrow> block_iterator option" where
  "it_next it = do { valid \<leftarrow> it_is_valid it; if valid then it_next_inner it else None }"

definition it_try_next :: "block_iterator \<Rightarrow> (block_iterator \<times> bool) option" where
  "it_try_next it = do { valid \<leftarrow> it_is_valid it; if valid then it_try_next_inner it else None }"

definition it_prev :: "block_iterator \<Rightarrow> block_iterator option" where
  "it_prev it = do { valid \<leftarrow> it_is_valid it; if valid then it_prev_inner it else None }"

definition it_try_prev :: "block_iterator \<Rightarrow> (block_iterator \<times> bool) option" where
  "it_try_prev it = do { valid \<leftarrow> it_is_valid it; if valid then it_try_prev_inner it else None }"

definition it_seek_to_first :: "block_iterator \<Rightarrow> block_iterator option" where
  "it_seek_to_first it = it_seek_restart_point_by_index it 0"

definition it_seek_to_last :: "block_iterator \<Rightarrow> block_iterator option" where
  "it_seek_to_last it =
     (if blk_restart_points (it_block it) = [] then None
      else do { n \<leftarrow> blk_len (it_block it);
                it \<leftarrow> it_seek_restart_point_by_index it (length (blk_restart_points (it_block it)) - 1);
                it_next_until_prev_offset it n })"

definition it_seek :: "block_iterator \<Rightarrow> full_key \<Rightarrow> block_iterator option" where
  "it_seek it key = do { it \<leftarrow> it_seek_restart_point_by_key it key; it_next_until_key it key }"

definition it_seek_le :: "block_iterator \<Rightarrow> full_key \<Rightarrow> block_iterator option" where
  "it_seek_le it key =
     do { it \<leftarrow> it_seek_restart_point_by_key it key;
          it \<leftarrow> it_next_until_key it key;
          valid \<leftarrow> it_is_valid it;
          it \<leftarrow> (if valid then Some it else it_seek_to_last it);
          it_prev_until_key it key }"

section \<open>Positions and restart points\<close>

definition rank :: "entry list \<Rightarrow> nat \<Rightarrow> nat" where
  "rank ps i = length (filter (\<lambda>j. en_fresh (ps ! j)) [0..<Suc i]) - 1"

lemma fresh_sorted: "sorted_wrt (<) (fresh_positions ps)"
  by (auto simp: fresh_positions_def intro: sorted_wrt_filter)

lemma fresh_first: "layout ps \<Longrightarrow> ps \<noteq> [] \<Longrightarrow> en_fresh (ps ! 0)"
  by (simp add: layout_def hd_conv_nth)

lemma fresh_up_to:
  assumes "layout ps" and "i < length ps"
  shows "filter (\<lambda>j. en_fresh (ps ! j)) [0..<Suc i] \<noteq> []"
proof -
  have "en_fresh (ps ! 0)" using assms by (intro fresh_first) auto
  then have "0 \<in> set (filter (\<lambda>j. en_fresh (ps ! j)) [0..<Suc i])" by (simp del: upt_Suc)
  then show ?thesis by (metis empty_iff list.set(1))
qed

lemma rank_prop:
  assumes "layout ps" and "i < length ps"
  shows "rank ps i < length (fresh_positions ps)" and "fresh_positions ps ! rank ps i \<le> i"
    and "rank ps i < s \<Longrightarrow> s < length (fresh_positions ps) \<Longrightarrow> i < fresh_positions ps ! s"
proof -
  let ?P = "\<lambda>j. en_fresh (ps ! j)"
  define A B where "A = filter ?P [0..<Suc i]" and "B = filter ?P [Suc i..<length ps]"
  have ne: "A \<noteq> []" unfolding A_def by (rule fresh_up_to [OF assms])
  have "[0..<length ps] = [0..<Suc i] @ [Suc i..<length ps]"
    using assms(2) upt_add_eq_append [of 0 "Suc i" "length ps - Suc i"]
    by (metis le_add_diff_inverse less_eq_Suc_le zero_le)
  then have sp: "fresh_positions ps = A @ B" unfolding fresh_positions_def A_def B_def by (metis filter_append)
  have rk: "rank ps i = length A - 1" unfolding rank_def A_def ..
  have lo: "x \<le> i" if "x \<in> set A" for x using that unfolding A_def set_filter set_upt by simp
  have hi: "i < x" if "x \<in> set B" for x using that by (auto simp: B_def)
  have r: "rank ps i < length A" using ne by (simp add: rk)
  then show "rank ps i < length (fresh_positions ps)" by (simp add: sp)
  show "fresh_positions ps ! rank ps i \<le> i" using lo [OF nth_mem [OF r]] r by (simp add: sp nth_append)
  assume s: "rank ps i < s" "s < length (fresh_positions ps)"
  then have "length A \<le> s" "s - length A < length B" by (simp_all add: rk sp)
  then show "i < fresh_positions ps ! s" using hi [OF nth_mem [of "s - length A" B]] by (simp add: sp nth_append)
qed

lemma rank_Suc:
  assumes "layout ps" and "Suc i < length ps"
  shows "rank ps (Suc i) = (if en_fresh (ps ! Suc i) then rank ps i + 1 else rank ps i)"
proof -
  define A where "A = filter (\<lambda>j. en_fresh (ps ! j)) [0..<Suc i]"
  have "A \<noteq> []" unfolding A_def using assms by (intro fresh_up_to) auto
  moreover have e: "filter (\<lambda>j. en_fresh (ps ! j)) [0..<Suc (Suc i)] = A @ (if en_fresh (ps ! Suc i) then [Suc i] else [])"
    by (simp add: A_def)
  have "rank ps (Suc i) = length (A @ (if en_fresh (ps ! Suc i) then [Suc i] else [])) - 1" unfolding rank_def e ..
  moreover have "rank ps i = length A - 1" unfolding rank_def A_def ..
  ultimately show ?thesis by (cases "en_fresh (ps ! Suc i)") simp_all
qed

lemma fresh_position:
  "r < length (fresh_positions ps) \<Longrightarrow> fresh_positions ps ! r < length ps \<and> en_fresh (ps ! (fresh_positions ps ! r))"
  using nth_mem [of r "fresh_positions ps"] by (auto simp: fresh_positions_def)

lemma rank_fresh:
  assumes "layout ps" and "r < length (fresh_positions ps)"
  shows "rank ps (fresh_positions ps ! r) = r"
proof -
  let ?F = "fresh_positions ps"
  have i: "?F ! r < length ps" using fresh_position [OF assms(2)] by blast
  note p = rank_prop [OF assms(1) i]
  show ?thesis
  proof (cases "rank ps (?F ! r)" r rule: linorder_cases)
    case less
    then show ?thesis using p(3) [of r] assms(2) by simp
  next
    case greater
    then have "?F ! r < ?F ! rank ps (?F ! r)" using sorted_wrt_nth_less [OF fresh_sorted greater p(1)] by simp
    then show ?thesis using p(2) by simp
  qed
qed

lemma fresh_0: "layout ps \<Longrightarrow> ps \<noteq> [] \<Longrightarrow> fresh_positions ps ! 0 = 0 \<and> fresh_positions ps \<noteq> []"
  using restarts_first [of ps] by (cases "fresh_positions ps") (auto simp: fresh_positions_def layout_def hd_conv_nth upt_rec [of 0])

section \<open>The iterator at an entry\<close>

definition prefix_at :: "entry list \<Rightarrow> nat \<Rightarrow> key_prefix" where
  "prefix_at ps i = \<lparr>kp_overlap = en_overlap (ps ! i), kp_diff = length (en_key (ps ! i)) - en_overlap (ps ! i),
     kp_value = length (en_value (ps ! i)), kp_offset = off ps i, kp_len = length (en_head (ps ! i))\<rparr>"

definition it_at :: "u32 \<Rightarrow> entry list \<Rightarrow> block_iterator \<Rightarrow> nat \<Rightarrow> bool" where
  "it_at t ps it i = (block_rep t (it_block it) ps \<and> i < length ps \<and> it_offset it = off ps i \<and> it_key it = en_key (ps ! i)
     \<and> it_entry_len it = length (en_bytes (ps ! i)) \<and> it_value_range it = value_range (prefix_at ps i)
     \<and> it_restart_point_index it = rank ps i \<and> it_last_key_len_type it = en_kt (ps ! i)
     \<and> it_last_value_len_type it = en_vt (ps ! i))"

definition it_invalid :: "u32 \<Rightarrow> entry list \<Rightarrow> block_iterator \<Rightarrow> bool" where
  "it_invalid t ps it = (block_rep t (it_block it) ps \<and> it_offset it = length (entry_bytes ps))"

lemma block_rep_len: "block_rep t blk ps \<Longrightarrow> blk_len blk = Some (length (entry_bytes ps))"
  by (simp add: block_rep_def blk_len_def)

lemma entry_split: "i < length ps \<Longrightarrow> entry_bytes ps = entry_bytes (take i ps) @ en_bytes (ps ! i) @ entry_bytes (drop (Suc i) ps)"
  unfolding entry_bytes_def by (metis concat.simps(2) concat_append id_take_nth_drop list.simps(9) map_append)

lemma layout_nth: "layout ps \<Longrightarrow> i < length ps \<Longrightarrow> en_ok (ps ! i)"
  by (simp add: layout_def)

lemma decode_prefix_at:
  assumes "block_rep t (it_block it) ps" and "i < length ps"
  shows "it_decode_prefix_at it (off ps i) (en_kt (ps ! i)) (en_vt (ps ! i)) = Some (prefix_at ps i)"
proof -
  let ?e = "ps ! i"
  have lay: "layout ps" and data: "blk_entries (it_block it) = entry_bytes ps" using assms(1) by (simp_all add: block_rep_def)
  have ok: "fits (en_kt ?e) (en_overlap ?e)" "fits (en_kt ?e) (length (en_key ?e) - en_overlap ?e)" "fits (en_vt ?e) (length (en_value ?e))"
    using layout_nth [OF lay assms(2)] by (auto simp: en_ok_def intro: fits_mono)
  have "slice_from (entry_bytes ps) (off ps i) = Some (en_bytes ?e @ entry_bytes (drop (Suc i) ps))"
    using off_bound [OF assms(2)] entry_split [OF assms(2)] by (simp add: slice_from_def off_def)
  then show ?thesis using ok
    by (simp add: it_decode_prefix_at_def data kp_decode_def en_bytes_def en_head_def prefix_at_def)
qed

lemma prefix_slices:
  assumes "block_rep t blk ps" and "i < length ps"
  shows "slice_range (blk_entries blk) (fst (diff_key_range (prefix_at ps i))) (snd (diff_key_range (prefix_at ps i)))
      = Some (drop (en_overlap (ps ! i)) (en_key (ps ! i)))"
    and "slice_range (blk_entries blk) (fst (value_range (prefix_at ps i))) (snd (value_range (prefix_at ps i))) = Some (en_value (ps ! i))"
    and "entry_len (prefix_at ps i) = length (en_bytes (ps ! i))"
proof -
  let ?e = "ps ! i"
  have lay: "layout ps" and data: "blk_entries blk = entry_bytes ps" using assms(1) by (simp_all add: block_rep_def)
  have o: "en_overlap ?e \<le> length (en_key ?e)" using layout_nth [OF lay assms(2)] by (simp add: en_ok_def)
  have sp: "entry_bytes ps = entry_bytes (take i ps) @ en_head ?e @ drop (en_overlap ?e) (en_key ?e) @ en_value ?e @ entry_bytes (drop (Suc i) ps)"
    using entry_split [OF assms(2)] by (simp add: en_bytes_def)
  have l: "length (entry_bytes (take i ps)) = off ps i" by (simp add: off_def)
  show "slice_range (blk_entries blk) (fst (diff_key_range (prefix_at ps i))) (snd (diff_key_range (prefix_at ps i)))
      = Some (drop (en_overlap ?e) (en_key ?e))"
    unfolding data slice_range_def by (subst (1 2) sp) (simp add: diff_key_range_def prefix_at_def l)
  show "slice_range (blk_entries blk) (fst (value_range (prefix_at ps i))) (snd (value_range (prefix_at ps i))) = Some (en_value ?e)"
    unfolding data slice_range_def by (subst (1 2) sp) (simp add: value_range_def prefix_at_def l)
  show "entry_len (prefix_at ps i) = length (en_bytes ?e)"
    using o by (simp add: entry_len_def prefix_at_def en_bytes_def)
qed

lemma restart_at_nth:
  assumes "block_rep t blk ps" and "r < length (fresh_positions ps)"
  shows "restart_point_at blk r = Some (restart_at ps (fresh_positions ps ! r))"
    and "unat (rp_offset (restart_at ps (fresh_positions ps ! r))) = off ps (fresh_positions ps ! r)"
proof -
  show "restart_point_at blk r = Some (restart_at ps (fresh_positions ps ! r))"
    using assms by (simp add: block_rep_def restart_point_at_def restarts_def)
  have "off ps (fresh_positions ps ! r) < 2 ^ 32"
    using off_bound [of "fresh_positions ps ! r" ps] fresh_position [OF assms(2)] assms(1) by (simp add: block_rep_def)
  then show "unat (rp_offset (restart_at ps (fresh_positions ps ! r))) = off ps (fresh_positions ps ! r)"
    by (simp add: restart_at_def unat_of_nat)
qed

lemma seek_restart_at:
  assumes "block_rep t (it_block it) ps" and "r < length (fresh_positions ps)"
  shows "\<exists>it'. it_seek_restart_point_by_index it r = Some it' \<and> it_at t ps it' (fresh_positions ps ! r)"
proof -
  let ?i = "fresh_positions ps ! r"
  have lay: "layout ps" using assms(1) by (simp add: block_rep_def)
  have i: "?i < length ps" "en_fresh (ps ! ?i)" using fresh_position [OF assms(2)] by simp_all
  have o: "en_overlap (ps ! ?i) = 0" using layout_nth [OF lay i(1)] i(2) by (simp add: en_ok_def)
  have ty: "rp_key_len_type (restart_at ps ?i) = en_kt (ps ! ?i)" "rp_value_len_type (restart_at ps ?i) = en_vt (ps ! ?i)"
    by (simp_all add: restart_at_def)
  show ?thesis
    using i assms(1) rank_fresh [OF lay assms(2)]
    by (simp add: it_seek_restart_point_by_index_def it_update_restart_point_def restart_at_nth [OF assms] ty Let_def
        decode_prefix_at [OF assms(1) i(1)] prefix_slices [OF assms(1) i(1)] o it_at_def)
qed

lemma next_restart:
  assumes "layout ps" and "Suc i < length ps" and "rank ps i + 1 < length (fresh_positions ps)"
  shows "off ps (Suc i) \<ge> off ps (fresh_positions ps ! (rank ps i + 1)) \<longleftrightarrow> en_fresh (ps ! Suc i)"
proof -
  let ?f = "fresh_positions ps ! (rank ps i + 1)"
  have f: "i < ?f" using rank_prop(3) [OF assms(1), of i "rank ps i + 1"] assms(2,3) by simp
  have b: "?f < length ps" "en_fresh (ps ! ?f)" using fresh_position [OF assms(3)] by simp_all
  have le: "off ps ?f \<le> off ps (Suc i) \<longleftrightarrow> ?f \<le> Suc i"
    using off_less_iff [of "Suc i" ps ?f] b(1) assms(2) by (simp add: not_less [symmetric])
  show ?thesis
  proof (cases "en_fresh (ps ! Suc i)")
    case True
    then have "rank ps (Suc i) = rank ps i + 1" using rank_Suc [OF assms(1,2)] by simp
    then show ?thesis using rank_prop(2) [OF assms(1,2)] le True by simp
  next
    case False
    then have "?f \<noteq> Suc i" using b(2) by metis
    then show ?thesis using le f False by simp
  qed
qed

lemma fresh_has_rank:
  assumes "layout ps" and "Suc i < length ps" and "en_fresh (ps ! Suc i)"
  shows "rank ps i + 1 < length (fresh_positions ps)" and "fresh_positions ps ! (rank ps i + 1) = Suc i"
proof -
  have "Suc i \<in> set (fresh_positions ps)" using assms(2,3) by (simp add: fresh_positions_def)
  then obtain r where r: "r < length (fresh_positions ps)" "fresh_positions ps ! r = Suc i" by (auto simp: in_set_conv_nth)
  have "rank ps (Suc i) = r" using rank_fresh [OF assms(1) r(1)] r(2) by simp
  then have "r = rank ps i + 1" using rank_Suc [OF assms(1,2)] assms(3) by simp
  with r show "rank ps i + 1 < length (fresh_positions ps)" "fresh_positions ps ! (rank ps i + 1) = Suc i" by simp_all
qed

lemma try_next_at:
  assumes "it_at t ps it i" and "Suc i < length ps"
  shows "\<exists>it'. it_try_next_inner it = Some (it', True) \<and> it_at t ps it' (Suc i)"
proof -
  note a = assms(1) [unfolded it_at_def]
  have rep: "block_rep t (it_block it) ps" using a by blast
  then have lay: "layout ps" and rl: "length (blk_restart_points (it_block it)) = length (fresh_positions ps)"
    by (simp_all add: block_rep_def restarts_def)
  have off: "it_offset it + it_entry_len it = off ps (Suc i)" using a assms(2) by (simp add: off_Suc)
  have fol: "en_follows (ps ! i) (ps ! Suc i)" using lay assms(2) by (simp add: layout_def)
  define it1 where "it1 = it\<lparr>it_restart_point_index := rank ps (Suc i), it_last_key_len_type := en_kt (ps ! Suc i),
      it_last_value_len_type := en_vt (ps ! Suc i)\<rparr>"
  have up: "(if it_restart_point_index it + 1 < length (blk_restart_points (it_block it)) then
       do { r \<leftarrow> restart_point_at (it_block it) (it_restart_point_index it + 1);
            if off ps (Suc i) \<ge> unat (rp_offset r) then it_update_restart_point it (it_restart_point_index it + 1) else Some it }
     else Some it) = Some it1"
  proof (cases "en_fresh (ps ! Suc i)")
    case True
    note fr = fresh_has_rank [OF lay assms(2) True]
    have ra: "restart_point_at (it_block it) (rank ps i + 1) = Some (restart_at ps (Suc i))"
      "unat (rp_offset (restart_at ps (Suc i))) = off ps (Suc i)"
      using restart_at_nth [OF rep fr(1)] by (simp_all add: fr(2) del: One_nat_def)
    have ty: "rp_key_len_type (restart_at ps (Suc i)) = en_kt (ps ! Suc i)" "rp_value_len_type (restart_at ps (Suc i)) = en_vt (ps ! Suc i)"
      by (simp_all add: restart_at_def)
    show ?thesis using a fr(1) rank_Suc [OF lay assms(2)] True
      by (simp add: rl ra [simplified] it_update_restart_point_def it1_def ty)
  next
    case False
    have "it1 = it" using a rank_Suc [OF lay assms(2)] False fol by (simp add: it1_def en_follows_def)
    moreover have "\<not> off ps (Suc i) \<ge> unat (rp_offset (restart_at ps (fresh_positions ps ! (rank ps i + 1))))"
      if "rank ps i + 1 < length (fresh_positions ps)"
      using next_restart [OF lay assms(2) that] False restart_at_nth(2) [OF rep that] by simp
    ultimately show ?thesis using a restart_at_nth(1) [OF rep, of "rank ps i + 1"] by (auto simp: rl)
  qed
  have b1: "it_block it1 = it_block it" "it_key it1 = en_key (ps ! i)" using a by (simp_all add: it1_def)
  have rep1: "block_rep t (it_block it1) ps" using rep b1 by simp
  have key: "take (en_overlap (ps ! Suc i)) (en_key (ps ! i)) @ drop (en_overlap (ps ! Suc i)) (en_key (ps ! Suc i)) = en_key (ps ! Suc i)"
    using fol by (simp add: en_follows_def)
  have lt: "\<not> off ps (Suc i) \<ge> length (entry_bytes ps)" using off_bound [OF assms(2)] by simp
  have dec: "it_decode_prefix_at it1 (off ps (Suc i)) (it_last_key_len_type it1) (it_last_value_len_type it1) = Some (prefix_at ps (Suc i))"
    using decode_prefix_at [OF rep1 assms(2)] by (simp add: it1_def)
  have "it_try_next_inner it = Some (it1\<lparr>it_key := en_key (ps ! Suc i), it_value_range := value_range (prefix_at ps (Suc i)),
      it_offset := off ps (Suc i), it_entry_len := length (en_bytes (ps ! Suc i))\<rparr>, True)"
    unfolding it_try_next_inner_def Let_def block_rep_len [OF rep] Option.bind.simps off up if_not_P [OF lt] dec
      prefix_slices [OF rep1 assms(2)] using key b1(2) by (simp add: prefix_at_def)
  moreover have "it_at t ps (it1\<lparr>it_key := en_key (ps ! Suc i), it_value_range := value_range (prefix_at ps (Suc i)),
      it_offset := off ps (Suc i), it_entry_len := length (en_bytes (ps ! Suc i))\<rparr>) (Suc i)"
    using rep assms(2) by (simp add: it_at_def it1_def)
  ultimately show ?thesis by blast
qed

lemma try_next_end:
  assumes "it_at t ps it i" and "Suc i = length ps"
  shows "it_try_next_inner it = Some (it, False)"
proof -
  have "it_offset it + it_entry_len it = length (entry_bytes ps)" "block_rep t (it_block it) ps"
    using assms off_Suc [of i ps] by (auto simp: it_at_def off_length)
  then show ?thesis using block_rep_len [of t "it_block it" ps] by (simp add: it_try_next_inner_def)
qed

section \<open>Moving the iterator\<close>

lemma it_valid_at: "it_at t ps it i \<Longrightarrow> it_is_valid it = Some True"
  using off_bound [of i ps] by (auto simp: it_at_def it_is_valid_def block_rep_len)

lemma it_valid_invalid: "it_invalid t ps it \<Longrightarrow> it_is_valid it = Some False"
  by (auto simp: it_invalid_def it_is_valid_def block_rep_len)

lemma it_invalidate_rep: "block_rep t (it_block it) ps \<Longrightarrow> \<exists>it'. it_invalidate it = Some it' \<and> it_invalid t ps it'"
  by (simp add: it_invalidate_def block_rep_len it_invalid_def)

lemma it_at_block: "it_at t ps it i \<Longrightarrow> block_rep t (it_block it) ps"
  by (simp add: it_at_def)

text \<open>Where the iterator stands: at an entry, or past the end.\<close>

definition it_pos :: "u32 \<Rightarrow> entry list \<Rightarrow> block_iterator \<Rightarrow> nat option \<Rightarrow> bool" where
  "it_pos t ps it p = (case p of None \<Rightarrow> it_invalid t ps it | Some i \<Rightarrow> it_at t ps it i)"

lemma it_pos_simps [simp]: "it_pos t ps it None = it_invalid t ps it" "it_pos t ps it (Some i) = it_at t ps it i"
  by (simp_all add: it_pos_def)

lemma next_inner_at:
  assumes "it_at t ps it i"
  shows "\<exists>it'. it_next_inner it = Some it' \<and> it_pos t ps it' (if Suc i < length ps then Some (Suc i) else None)"
proof (cases "Suc i < length ps")
  case True
  then show ?thesis using try_next_at [OF assms] by (auto simp: it_next_inner_def)
next
  case False
  then have "Suc i = length ps" using assms by (simp add: it_at_def)
  then show ?thesis using try_next_end [OF assms] it_invalidate_rep [OF it_at_block [OF assms]] by (simp add: it_next_inner_def)
qed

lemma next_until_prev_offset_at:
  assumes "it_at t ps it i" and "i < k" and "k \<le> length ps"
  shows "\<exists>it'. it_next_until_prev_offset it (off ps k) = Some it' \<and> it_at t ps it' (k - 1)"
  using assms
proof (induction "k - i" arbitrary: it i)
  case (Suc d)
  note a = Suc.prems(1) [unfolded it_at_def]
  have n: "blk_len (it_block it) = Some (length (entry_bytes ps))" using block_rep_len a by blast
  have o: "it_offset it + it_entry_len it = off ps (Suc i)" using a by (simp add: off_Suc)
  have m: "off ps (Suc i) < length (entry_bytes ps)" if "Suc i < k" using off_bound [of "Suc i" ps] that Suc.prems(3) by simp
  have c: "off ps (Suc i) < off ps k \<longleftrightarrow> Suc i < k" using off_less_iff [of "Suc i" ps k] a Suc.prems(2,3) by simp
  show ?case
  proof (cases "Suc i < k")
    case True
    then obtain it1 where it1: "it_next_inner it = Some it1" "it_at t ps it1 (Suc i)"
      using next_inner_at [OF Suc.prems(1)] Suc.prems(3) by auto
    have "d = k - Suc i" using Suc.hyps(2) by simp
    from Suc.hyps(1) [OF this it1(2) True Suc.prems(3)] show ?thesis
      by (subst it_next_until_prev_offset.simps) (simp add: n o m c True it1(1))
  next
    case False
    then have ik: "k - 1 = i" using Suc.prems(2) by simp
    show ?thesis unfolding ik using Suc.prems(1) False by (subst it_next_until_prev_offset.simps) (simp add: n o c)
  qed
qed simp

lemma seek_to_first_at:
  assumes "block_rep t (it_block it) ps"
  shows "\<exists>it'. it_seek_to_first it = Some it' \<and> it_at t ps it' 0"
proof -
  have "fresh_positions ps ! 0 = 0" "fresh_positions ps \<noteq> []" using fresh_0 [of ps] assms by (simp_all add: block_rep_def)
  then show ?thesis using seek_restart_at [OF assms, of 0] by (simp add: it_seek_to_first_def)
qed

lemma seek_to_last_at:
  assumes "block_rep t (it_block it) ps"
  shows "\<exists>it'. it_seek_to_last it = Some it' \<and> it_at t ps it' (length ps - 1)"
proof -
  let ?F = "fresh_positions ps"
  have F: "?F \<noteq> []" using fresh_0 [of ps] assms by (simp add: block_rep_def)
  have rl: "length (blk_restart_points (it_block it)) = length ?F" using assms by (simp add: block_rep_def restarts_def)
  then have ne: "blk_restart_points (it_block it) \<noteq> []" using F by auto
  obtain it1 where it1: "it_seek_restart_point_by_index it (length ?F - 1) = Some it1" "it_at t ps it1 (?F ! (length ?F - 1))"
    using seek_restart_at [OF assms, of "length ?F - 1"] F by auto
  have "?F ! (length ?F - 1) < length ps" using it1(2) by (simp add: it_at_def)
  from next_until_prev_offset_at [OF it1(2) this order_refl] it1(1) show ?thesis
    by (simp add: it_seek_to_last_def rl ne block_rep_len [OF assms] off_length)
qed

lemma prev_inner_at:
  assumes "it_at t ps it i"
  shows "\<exists>it'. it_prev_inner it = Some it' \<and> it_pos t ps it' (if i = 0 then None else Some (i - 1))"
proof (cases "i = 0")
  case True
  then have "it_try_prev_inner it = Some (it, False)" using assms by (simp add: it_try_prev_inner_def it_at_def)
  then show ?thesis using True it_invalidate_rep [OF it_at_block [OF assms]] by (simp add: it_prev_inner_def)
next
  case False
  note a = assms [unfolded it_at_def]
  have rep: "block_rep t (it_block it) ps" and i: "i < length ps" using a by simp_all
  then have lay: "layout ps" and ne: "ps \<noteq> []" by (simp_all add: block_rep_def)
  let ?F = "fresh_positions ps" and ?r = "rank ps i"
  note rp = rank_prop [OF lay i]
  note ra = restart_at_nth [OF rep rp(1)]
  have fl: "?F ! ?r < length ps" using fresh_position [OF rp(1)] by blast
  have o: "off ps i \<noteq> 0" using off_mono [of 0 i ps] False i by simp
  have same: "off ps (?F ! ?r) = off ps i \<longleftrightarrow> ?F ! ?r = i"
    using off_less_iff [of "?F ! ?r" ps i] off_less_iff [of i ps "?F ! ?r"] fl i by (metis less_imp_le nat_neq_iff)
  obtain s where s: "(if off ps (?F ! ?r) = off ps i then (if ?r = 0 then None else Some (?r - 1)) else Some ?r) = Some s"
    "s < length ?F" "?F ! s < i"
  proof (cases "?F ! ?r = i")
    case True
    then have "?r \<noteq> 0" using False fresh_0 [OF lay ne] by (cases ?r) auto
    then have "?F ! (?r - 1) < ?F ! ?r" using sorted_wrt_nth_less [OF fresh_sorted, of "?r - 1" ?r] rp(1) by simp
    then show ?thesis using that [of "?r - 1"] True same \<open>?r \<noteq> 0\<close> rp(1) by simp
  next
    case False
    then show ?thesis using that [of ?r] same rp(1,2) by simp
  qed
  obtain it1 where it1: "it_seek_restart_point_by_index it s = Some it1" "it_at t ps it1 (?F ! s)"
    using seek_restart_at [OF rep s(2)] by blast
  obtain it2 where it2: "it_next_until_prev_offset it1 (off ps i) = Some it2" "it_at t ps it2 (i - 1)"
    using next_until_prev_offset_at [OF it1(2) s(3)] i by auto
  have "it_try_prev_inner it = Some (it2, True)"
    using a o s(1) it1(1) it2(1) by (auto simp: it_try_prev_inner_def ra split: if_splits)
  then show ?thesis using it2(2) False by (simp add: it_prev_inner_def)
qed

section \<open>Seeking a key\<close>

lemma it_full_key_at:
  assumes "it_at t ps it i" and "holds t ps kvs"
  shows "it_full_key it = Some (fst (kvs ! i))" and "it_value it = Some (snd (kvs ! i))"
proof -
  have i: "i < length ps" and rep: "block_rep t (it_block it) ps" using assms(1) by (simp_all add: it_at_def)
  have h: "en_key (ps ! i) = fk_encode_into_without_table_id (fst (kvs ! i))" "en_value (ps ! i) = snd (kvs ! i)"
    "uk_table_id (fk_user_key (fst (kvs ! i))) = t"
    using assms(2) i by (auto simp: holds_def list_all2_conv_all_nth split_beta)
  then show "it_full_key it = Some (fst (kvs ! i))"
    using assms(1) it_valid_at [OF assms(1)] fk_from_slice_encode_without_table_id [of "fst (kvs ! i)"]
    by (simp add: it_full_key_def it_at_def block_rep_def)
  show "it_value it = Some (snd (kvs ! i))"
    using assms(1) it_valid_at [OF assms(1)] prefix_slices(2) [OF rep i] h(2) by (simp add: it_value_def it_at_def)
qed

lemma next_until_key_at:
  assumes "it_at t ps it i" and "holds t ps kvs"
  shows "\<exists>it'. it_next_until_key it key = Some it'
    \<and> it_pos t ps it' (let j = i + length (takeWhile (\<lambda>(k, x). k < key) (drop i kvs)) in if j < length ps then Some j else None)"
  using assms
proof (induction "length ps - i" arbitrary: it i)
  case 0
  then show ?case by (simp add: it_at_def)
next
  case (Suc d)
  have i: "i < length ps" using Suc.prems(1) by (simp add: it_at_def)
  have len: "length kvs = length ps" using assms(2) by (simp add: holds_def list_all2_lengthD)
  have dr: "drop i kvs = kvs ! i # drop (Suc i) kvs" using i len by (simp add: Cons_nth_drop_Suc)
  note f = it_valid_at [OF Suc.prems(1)] it_full_key_at(1) [OF Suc.prems]
  show ?case
  proof (cases "fst (kvs ! i) < key")
    case True
    obtain it1 where it1: "it_next_inner it = Some it1" "it_pos t ps it1 (if Suc i < length ps then Some (Suc i) else None)"
      using next_inner_at [OF Suc.prems(1)] by blast
    have tw: "length (takeWhile (\<lambda>(k, x). k < key) (drop i kvs)) = Suc (length (takeWhile (\<lambda>(k, x). k < key) (drop (Suc i) kvs)))"
      using True by (simp add: dr split_beta)
    show ?thesis
    proof (cases "Suc i < length ps")
      case l: True
      have "d = length ps - Suc i" using Suc.hyps(2) by simp
      from Suc.hyps(1) [OF this _ assms(2), of it1] it1(2) l show ?thesis
        by (subst it_next_until_key.simps) (simp add: f True it1(1) tw)
    next
      case l: False
      then have "it_invalid t ps it1" using it1(2) by simp
      then have "it_next_until_key it1 key = Some it1"
        by (subst it_next_until_key.simps) (simp add: it_valid_invalid [of t ps])
      then show ?thesis using l it1 by (subst it_next_until_key.simps) (simp add: f True tw)
    qed
  next
    case False
    then show ?thesis using Suc.prems(1) i
      by (subst it_next_until_key.simps) (simp add: f dr split_beta)
  qed
qed

lemma it_probe_at:
  assumes "block_rep t (it_block it) ps" and "holds t ps kvs" and "i \<in> set (fresh_positions ps)"
  shows "it_probe it key (restart_at ps i) = Some (fst (kvs ! i) \<le> key)"
proof -
  obtain r where r: "r < length (fresh_positions ps)" "fresh_positions ps ! r = i" using assms(3) by (auto simp: in_set_conv_nth)
  have lay: "layout ps" and t: "blk_table_id (it_block it) = t" using assms(1) by (simp_all add: block_rep_def)
  have i: "i < length ps" "en_fresh (ps ! i)" using fresh_position [OF r(1)] r(2) by simp_all
  have o: "en_overlap (ps ! i) = 0" using layout_nth [OF lay i(1)] i(2) by (simp add: en_ok_def)
  have ty: "rp_key_len_type (restart_at ps i) = en_kt (ps ! i)" "rp_value_len_type (restart_at ps i) = en_vt (ps ! i)"
    by (simp_all add: restart_at_def)
  have h: "en_key (ps ! i) = fk_encode_into_without_table_id (fst (kvs ! i))" "uk_table_id (fk_user_key (fst (kvs ! i))) = t"
    using assms(2) i by (auto simp: holds_def list_all2_conv_all_nth split_beta)
  show ?thesis using fk_from_slice_encode_without_table_id [of "fst (kvs ! i)"] h restart_at_nth(2) [OF assms(1) r(1)]
    by (simp add: it_probe_def ty r(2) decode_prefix_at [OF assms(1) i(1)] prefix_slices(1) [OF assms(1) i(1)] o t fk_cmp_eq_cmp not_less)
qed

lemma seek_restart_key:
  assumes "block_rep t (it_block it) ps" and "holds t ps kvs" and "sorted_wrt (<) (map fst kvs)"
  shows "\<exists>it' i. it_seek_restart_point_by_key it key = Some it' \<and> it_at t ps it' i \<and> (\<forall>j < i. fst (kvs ! j) < key)"
proof -
  let ?F = "fresh_positions ps" and ?q = "\<lambda>r. the (it_probe it key r)"
  have len: "length kvs = length ps" using assms(2) by (simp add: holds_def list_all2_lengthD)
  have lay: "layout ps" "ps \<noteq> []" and rs: "blk_restart_points (it_block it) = restarts ps" using assms(1) by (simp_all add: block_rep_def)
  have F: "?F \<noteq> []" "?F ! 0 = 0" using fresh_0 [OF lay] by simp_all
  have lt: "fst (kvs ! i) < fst (kvs ! j)" if "i < j" "j < length ps" for i j
    using sorted_wrt_nth_less [OF assms(3), of i j] that len by simp
  have pr: "it_probe it key x = Some (?q x)" if "x \<in> set (restarts ps)" for x
    using that it_probe_at [OF assms(1,2)] by (auto simp: restarts_def)
  have q: "?q (restarts ps ! r) = (fst (kvs ! (?F ! r)) \<le> key)" if "r < length ?F" for r
    using it_probe_at [OF assms(1,2), of "?F ! r" key] that by (simp add: restarts_def)
  have part: "partitioned ?q (restarts ps)"
    unfolding partitioned_def
  proof (intro allI impI)
    fix i j assume ij: "i \<le> j" "j < length (restarts ps)" "?q (restarts ps ! j)"
    have "fst (kvs ! (?F ! i)) \<le> fst (kvs ! (?F ! j))"
      using ij(1,2) lt [of "?F ! i" "?F ! j"] sorted_wrt_nth_less [OF fresh_sorted, of i j ps] fresh_position [of j ps]
      by (cases "i = j") (auto simp: restarts_def)
    then show "?q (restarts ps ! i)" using q [of i] q [of j] ij by (auto simp: restarts_def intro: order_trans)
  qed
  define n where "n = partition_point ?q (restarts ps)"
  have s: "it_search_restart_point_index_by_key it key = Some (n - 1)"
    using partition_point_opt_total [of "restarts ps" "it_probe it key" ?q] pr
    by (simp add: it_search_restart_point_index_by_key_def rs n_def)
  have n: "n \<le> length ?F" using partition_point_le_length [OF part] by (simp add: n_def restarts_def)
  then have n1: "n - 1 < length ?F" using F(1) by (cases "?F") auto
  obtain it' where it': "it_seek_restart_point_by_index it (n - 1) = Some it'" "it_at t ps it' (?F ! (n - 1))"
    using seek_restart_at [OF assms(1) n1] by blast
  have "fst (kvs ! j) < key" if "j < ?F ! (n - 1)" for j
  proof (cases "n = 0")
    case False
    then have "?q (restarts ps ! (n - 1))"
      using partition_point_less_iff [OF part, of "n - 1"] n1 by (simp add: n_def restarts_def)
    then have "fst (kvs ! (?F ! (n - 1))) \<le> key" using q [OF n1] by simp
    then show ?thesis using lt [OF that] fresh_position [OF n1] by (meson less_le_trans)
  qed (use that F in simp)
  then show ?thesis using it' s by (auto simp: it_seek_restart_point_by_key_def)
qed

lemma takeWhile_skip:
  "\<forall>j < i. P (xs ! j) \<Longrightarrow> i \<le> length xs \<Longrightarrow> length (takeWhile P xs) = i + length (takeWhile P (drop i xs))"
proof (induction i arbitrary: xs)
  case (Suc i)
  obtain x ys where xs: "xs = x # ys" using Suc.prems(2) by (cases xs) simp_all
  have "P x" "\<forall>j < i. P (ys ! j)" using Suc.prems(1) xs by (auto dest: spec [of _ 0] spec [of _ "Suc _"])
  then show ?case using Suc.IH [of ys] Suc.prems(2) xs by simp
qed simp

lemma seek_at:
  assumes "block_rep t (it_block it) ps" and "holds t ps kvs" and "sorted_wrt (<) (map fst kvs)"
  shows "\<exists>it'. it_seek it key = Some it'
    \<and> it_pos t ps it' (let j = length (takeWhile (\<lambda>(k, x). k < key) kvs) in if j < length ps then Some j else None)"
proof -
  obtain it1 i where it1: "it_seek_restart_point_by_key it key = Some it1" "it_at t ps it1 i" "\<forall>j < i. fst (kvs ! j) < key"
    using seek_restart_key [OF assms] by blast
  have "length (takeWhile (\<lambda>(k, x). k < key) kvs) = i + length (takeWhile (\<lambda>(k, x). k < key) (drop i kvs))"
    by (rule takeWhile_skip) (use it1(2,3) list_all2_lengthD [OF assms(2) [unfolded holds_def]] in \<open>auto simp: it_at_def split_beta\<close>)
  then show ?thesis using next_until_key_at [OF it1(2) assms(2), of key] it1(1) by (simp add: it_seek_def)
qed

lemma prev_until_key_at:
  assumes "it_at t ps it i" and "holds t ps kvs" and "\<forall>j < length ps. fst (kvs ! j) \<le> key \<longleftrightarrow> j < m" and "m \<le> Suc i"
  shows "\<exists>it'. it_prev_until_key it key = Some it' \<and> it_pos t ps it' (if m = 0 then None else Some (m - 1))"
  using assms(1,4)
proof (induction i arbitrary: it)
  case 0
  have len: "0 < length ps" using 0(1) by (simp add: it_at_def)
  note f = it_valid_at [OF 0(1)] it_full_key_at(1) [OF 0(1) assms(2)]
  show ?case
  proof (cases "m = 0")
    case True
    then have g: "key < fst (kvs ! 0)" using assms(3) len by (simp add: not_le)
    obtain it1 where it1: "it_prev_inner it = Some it1" "it_invalid t ps it1" using prev_inner_at [OF 0(1)] by auto
    then have "it_prev_until_key it1 key = Some it1" by (subst it_prev_until_key.simps) (simp add: it_valid_invalid [of t ps])
    then show ?thesis using True g it1 by (subst it_prev_until_key.simps) (simp add: f fk_cmp_eq_cmp)
  next
    case False
    then have "m = 1" using 0(2) by simp
    then have "\<not> key < fst (kvs ! 0)" using assms(3) len by (simp add: not_less)
    then show ?thesis using \<open>m = 1\<close> 0(1) by (subst it_prev_until_key.simps) (simp add: f fk_cmp_eq_cmp)
  qed
next
  case (Suc i)
  have len: "Suc i < length ps" using Suc.prems(1) by (simp add: it_at_def)
  note f = it_valid_at [OF Suc.prems(1)] it_full_key_at(1) [OF Suc.prems(1) assms(2)]
  show ?case
  proof (cases "m = Suc (Suc i)")
    case True
    then have "\<not> key < fst (kvs ! Suc i)" using assms(3) len by (simp add: not_less)
    then show ?thesis using True Suc.prems(1) by (subst it_prev_until_key.simps) (simp add: f fk_cmp_eq_cmp)
  next
    case False
    then have m: "m \<le> Suc i" using Suc.prems(2) by simp
    then have "\<not> fst (kvs ! Suc i) \<le> key" using assms(3) len by simp
    then have g: "key < fst (kvs ! Suc i)" by (simp add: not_le)
    obtain it1 where it1: "it_prev_inner it = Some it1" "it_at t ps it1 i" using prev_inner_at [OF Suc.prems(1)] by auto
    from Suc.IH [OF it1(2) m] g it1(1) show ?thesis by (subst it_prev_until_key.simps) (simp add: f fk_cmp_eq_cmp)
  qed
qed

lemma seek_le_at:
  assumes "block_rep t (it_block it) ps" and "holds t ps kvs" and "sorted_wrt (<) (map fst kvs)"
  shows "\<exists>it'. it_seek_le it key = Some it'
    \<and> it_pos t ps it' (let m = length (takeWhile (\<lambda>(k, x). k \<le> key) kvs) in if m = 0 then None else Some (m - 1))"
proof -
  let ?m = "length (takeWhile (\<lambda>(k, x). k \<le> key) kvs)" and ?n = "length (takeWhile (\<lambda>(k, x). k < key) kvs)"
  have len: "length kvs = length ps" using assms(2) by (simp add: holds_def list_all2_lengthD)
  have part: "partitioned (\<lambda>(k, x). k \<le> key) kvs"
    by (rule partitioned_sortedI [of "\<lambda>a b. fst a < fst b"]) (use assms(3) in \<open>auto simp: sorted_wrt_map\<close>)
  have cut: "\<forall>j < length ps. fst (kvs ! j) \<le> key \<longleftrightarrow> j < ?m"
    using partition_point_less_iff [OF part] by (simp add: partition_point_takeWhile [OF part] len split_beta)
  obtain it1 where it1: "it_seek it key = Some it1" "it_pos t ps it1 (if ?n < length ps then Some ?n else None)"
    using seek_at [OF assms, of key] by (auto simp: Let_def)
  have nm: "?m \<le> Suc ?n" if "?n < length ps"
  proof (rule ccontr)
    assume "\<not> ?m \<le> Suc ?n"
    then have m: "Suc ?n < ?m" by simp
    have "?m \<le> length ps" using length_takeWhile_le [of "\<lambda>(k, x). k \<le> key" kvs] len by simp
    then have s: "Suc ?n < length ps" using m by simp
    have "fst (kvs ! Suc ?n) \<le> key" using cut s m by simp
    moreover have "\<not> fst (kvs ! ?n) < key" using nth_length_takeWhile [of "\<lambda>(k, x). k < key" kvs] that len by (simp add: split_beta)
    moreover have "fst (kvs ! ?n) < fst (kvs ! Suc ?n)" using sorted_wrt_nth_less [OF assms(3), of ?n "Suc ?n"] s len by simp
    ultimately show False by (meson less_le_trans not_less)
  qed
  obtain it2 i where it2: "(if ?n < length ps then Some it1 else it_seek_to_last it1) = Some it2" "it_at t ps it2 i" "?m \<le> Suc i"
  proof (cases "?n < length ps")
    case True
    then show ?thesis using that [of it1 ?n] it1(2) nm by simp
  next
    case False
    then have "block_rep t (it_block it1) ps" using it1(2) by (simp add: it_invalid_def)
    then obtain it2 where "it_seek_to_last it1 = Some it2" "it_at t ps it2 (length ps - 1)" using seek_to_last_at by blast
    moreover have "?m \<le> Suc (length ps - 1)" using length_takeWhile_le [of "\<lambda>(k, x). k \<le> key" kvs] len by simp
    ultimately show ?thesis using that False by simp
  qed
  have valid: "it_is_valid it1 = Some (?n < length ps)"
    using it1(2) it_valid_at [of t ps it1] it_valid_invalid [of t ps it1] by (cases "?n < length ps") auto
  have "it_seek_le it key = it_prev_until_key it2 key"
    using it1(1) valid it2(1) by (cases "?n < length ps") (auto simp: it_seek_le_def it_seek_def split: Option.bind_splits)
  then show ?thesis using prev_until_key_at [OF it2(2) assms(2) cut it2(3)] by (simp add: Let_def)
qed


section \<open>Reading a block that was built\<close>

text \<open>A reader's loops over the iterator, forwards and backwards.\<close>

partial_function (option) it_to_list :: "block_iterator \<Rightarrow> (full_key \<times> bytes) list option" where
  "it_to_list it =
     do { valid \<leftarrow> it_is_valid it;
          if valid then do {
            k \<leftarrow> it_full_key it; x \<leftarrow> it_value it; it \<leftarrow> it_next it; kvs \<leftarrow> it_to_list it; Some ((k, x) # kvs) }
          else Some [] }"

partial_function (option) it_to_list_back :: "block_iterator \<Rightarrow> (full_key \<times> bytes) list option" where
  "it_to_list_back it =
     do { valid \<leftarrow> it_is_valid it;
          if valid then do {
            k \<leftarrow> it_full_key it; x \<leftarrow> it_value it; it \<leftarrow> it_prev it; kvs \<leftarrow> it_to_list_back it; Some ((k, x) # kvs) }
          else Some [] }"

lemma it_to_list_end: "it_invalid t ps it \<Longrightarrow> it_to_list it = Some []" "it_invalid t ps it \<Longrightarrow> it_to_list_back it = Some []"
  by (subst it_to_list.simps it_to_list_back.simps, simp add: it_valid_invalid [of t ps])+

lemma it_to_list_at:
  assumes "it_at t ps it i" and "holds t ps kvs"
  shows "it_to_list it = Some (drop i kvs)"
  using assms(1)
proof (induction "length ps - i" arbitrary: it i)
  case (Suc d)
  have i: "i < length ps" "length kvs = length ps"
    using Suc.prems assms(2) by (simp_all add: it_at_def holds_def list_all2_lengthD)
  obtain it1 where it1: "it_next_inner it = Some it1" "it_pos t ps it1 (if Suc i < length ps then Some (Suc i) else None)"
    using next_inner_at [OF Suc.prems] by blast
  have "it_to_list it1 = Some (drop (Suc i) kvs)"
    using it1(2) Suc.hyps(1) [of "Suc i" it1] Suc.hyps(2) it_to_list_end(1) [of t ps it1] i by (cases "Suc i < length ps") auto
  then show ?case using it_valid_at [OF Suc.prems] it_full_key_at [OF Suc.prems assms(2)] it1(1) i
    by (subst it_to_list.simps) (simp add: it_next_def Cons_nth_drop_Suc)
qed (simp add: it_at_def)

lemma it_to_list_back_at:
  assumes "it_at t ps it i" and "holds t ps kvs"
  shows "it_to_list_back it = Some (rev (take (Suc i) kvs))"
  using assms(1)
proof (induction i arbitrary: it)
  case 0
  have i: "0 < length kvs" using 0 assms(2) list_all2_lengthD [OF assms(2) [unfolded holds_def]] by (simp add: it_at_def)
  obtain it1 where it1: "it_prev_inner it = Some it1" "it_invalid t ps it1" using prev_inner_at [OF 0] by auto
  then show ?case using it_valid_at [OF 0] it_full_key_at [OF 0 assms(2)] it_to_list_end(2) [OF it1(2)] i
    by (subst it_to_list_back.simps) (simp add: it_prev_def take_Suc_conv_app_nth)
next
  case (Suc i)
  have i: "Suc i < length kvs" using Suc.prems list_all2_lengthD [OF assms(2) [unfolded holds_def]] by (simp add: it_at_def)
  obtain it1 where it1: "it_prev_inner it = Some it1" "it_at t ps it1 i" using prev_inner_at [OF Suc.prems] by auto
  from Suc.IH [OF it1(2)] show ?case using it_valid_at [OF Suc.prems] it_full_key_at [OF Suc.prems assms(2)] it1(1) i
    by (subst it_to_list_back.simps) (simp add: it_prev_def take_Suc_conv_app_nth [of "Suc i"])
qed

lemma drop_takeWhile: "drop (length (takeWhile P xs)) xs = dropWhile P xs"
  by (induction xs) simp_all

lemma take_takeWhile: "take (length (takeWhile P xs)) xs = takeWhile P xs"
  by (metis append_eq_conv_conj takeWhile_dropWhile_id)

text \<open>What the builder writes for a run of entries, and the size it reports for the reader.\<close>

definition blb_write ::
    "(compression_algorithm \<Rightarrow> bytes \<Rightarrow> bytes) \<Rightarrow> (bytes \<Rightarrow> u64) \<Rightarrow> nat \<Rightarrow> compression_algorithm
     \<Rightarrow> (full_key \<times> bytes) list \<Rightarrow> (bytes \<times> nat) option" where
  "blb_write compressor xxh64 interval alg kvs =
     do { b \<leftarrow> blb_new interval alg;
          b \<leftarrow> blb_add_all b kvs;
          (out, _) \<leftarrow> blb_build compressor xxh64 b;
          Some (out, uncompressed_block_size b) }"

lemma write_rep:
  assumes "0 < interval" and "kvs \<noteq> []" and "\<forall>(k, x) \<in> set kvs. uk_table_id (fk_user_key k) = t" and "kvs_size kvs < 2 ^ 32"
  shows "\<exists>b ps. blb_new interval alg \<bind> (\<lambda>b. blb_add_all b kvs) = Some b \<and> builder_rep t b ps \<and> ps \<noteq> [] \<and> holds t ps kvs
    \<and> length (entry_bytes ps) < 2 ^ 32 \<and> blb_compression_algorithm b = alg"
proof -
  obtain b0 where b0: "blb_new interval alg = Some b0" "blb_buf b0 = []" "blb_compression_algorithm b0 = alg" "builder_rep t b0 []"
    using assms(1) builder_rep_new [of interval alg _ t] by (simp add: blb_new_def)
  from blb_add_all_rep [OF b0(4) assms(3)] b0(2,3) assms(4) obtain b ps where
    "blb_add_all b0 kvs = Some b" "builder_rep t b ps" "holds t ps kvs" "length (entry_bytes ps) < 2 ^ 32" "blb_compression_algorithm b = alg"
    by auto
  then show ?thesis using b0(1) assms(2) by (intro exI [of _ b] exI [of _ ps]) (auto simp: holds_def)
qed

lemma write_decode:
  assumes "inverts compressor decompressor" and "0 < interval" and "kvs \<noteq> []"
    and "\<forall>(k, x) \<in> set kvs. uk_table_id (fk_user_key k) = t" and "kvs_size kvs < 2 ^ 32"
    and "blb_write compressor xxh64 interval alg kvs = Some (out, n)"
  shows "\<exists>blk ps. decode_with_copy decompressor xxh64 out n = Some (Inr blk) \<and> block_rep t blk ps \<and> holds t ps kvs"
proof -
  obtain b ps where b: "blb_new interval alg \<bind> (\<lambda>b. blb_add_all b kvs) = Some b" "builder_rep t b ps" "ps \<noteq> []" "holds t ps kvs"
    "length (entry_bytes ps) < 2 ^ 32" using write_rep [OF assms(2-5)] by blast
  then obtain b' where "blb_build compressor xxh64 b = Some (out, b')" "n = uncompressed_block_size b"
    using assms(6) by (auto simp: blb_write_def bind_eq_Some_conv)
  then show ?thesis using build_decode [OF b(2,3,5) assms(1)] b(4) by blast
qed

lemma length_entries_le:
  "holds t ps kvs \<Longrightarrow> length (entry_bytes ps) \<le> kvs_size kvs"
proof (induction ps arbitrary: kvs)
  case (Cons e ps)
  then obtain k x kvs' where kvs: "kvs = (k, x) # kvs'" "en_key e = fk_encode_into_without_table_id k" "en_value e = x" "holds t ps kvs'"
    by (auto simp: holds_def list_all2_Cons1)
  then show ?case using Cons.IH [OF kvs(4)] length_en_bytes_le [of e] by (simp add: entry_bytes_def kvs_size_def)
qed (simp add: entry_bytes_def)

text \<open>Without compression a block of entries well below 4 GiB is always written.\<close>

lemma write_total:
  assumes "0 < interval" and "kvs \<noteq> []" and "\<forall>(k, x) \<in> set kvs. uk_table_id (fk_user_key k) = t"
    and "kvs_size kvs + 9 * length kvs + 25 < 2 ^ 32"
  shows "\<exists>out n. blb_write compressor xxh64 interval CompressionNone kvs = Some (out, n)"
proof -
  obtain b ps where b: "blb_new interval CompressionNone \<bind> (\<lambda>b. blb_add_all b kvs) = Some b" "builder_rep t b ps" "ps \<noteq> []" "holds t ps kvs"
    "length (entry_bytes ps) < 2 ^ 32" "blb_compression_algorithm b = CompressionNone"
    using write_rep [OF assms(1-3), of CompressionNone] assms(4) by auto
  have "length ps = length kvs" using b(4) by (simp add: holds_def list_all2_lengthD)
  then have "approximate_len b < 2 ^ 32 - 1"
    using b(2) length_restarts [of ps] length_type_changes [of None "restarts ps"] length_entries_le [OF b(4)] assms(4)
    by (simp add: approximate_len_def builder_rep_def restart_point_size_def)
  then show ?thesis using build_total [OF b(2,3,5,6)] b(1) by (auto simp: blb_write_def bind_eq_Some_conv)
qed

text \<open>An input for the examples.\<close>

definition sample_block :: "(full_key \<times> bytes) list" where
  "sample_block = [(FullKey (UserKey 7 [1, 2]) 512, [9]),
     (FullKey (UserKey 7 [1, 3]) 512, [8, 8]),
     (FullKey (UserKey 7 [1, 3]) 256, [])]"

lemma sample_block_ok:
  "\<forall>(k, x) \<in> set sample_block. uk_table_id (fk_user_key k) = 7" "kvs_size sample_block < 2 ^ 32" "sample_block \<noteq> []"
  "\<exists>out n. blb_write compressor xxh64 2 CompressionNone sample_block = Some (out, n)"
proof -
  show t: "\<forall>(k, x) \<in> set sample_block. uk_table_id (fk_user_key k) = 7" "sample_block \<noteq> []" by (simp_all add: sample_block_def)
  have s: "kvs_size sample_block = 69" by (simp add: sample_block_def kvs_size_def fk_encode_into_without_table_id_def)
  then show "kvs_size sample_block < 2 ^ 32" by simp
  show "\<exists>out n. blb_write compressor xxh64 2 CompressionNone sample_block = Some (out, n)"
    by (rule write_total [OF _ t(2,1)]) (simp_all add: s, simp add: sample_block_def)
qed

lemma kvs_size_rev: "kvs_size (rev kvs) = kvs_size kvs"
  by (simp add: kvs_size_def flip: rev_map)

lemma add_debug:
  assumes "0 < interval" and "\<forall>(k, x) \<in> set kvs. uk_table_id (fk_user_key k) = t" and "kvs_size kvs < 2 ^ 32"
  shows "blb_new interval alg \<bind> (\<lambda>b. blb_add_all_debug b kvs) =
    (if sorted_wrt (<) (map fst kvs) then blb_new interval alg \<bind> (\<lambda>b. blb_add_all b kvs) else None)"
proof -
  obtain b0 where b0: "blb_new interval alg = Some b0" "blb_buf b0 = []" "builder_rep t b0 []"
    using assms(1) builder_rep_new [of interval alg _ t] by (simp add: blb_new_def)
  then show ?thesis using blb_add_all_debug_eq [OF b0(3), of "[]" kvs] assms(2,3) by (simp add: holds_def)
qed

text \<open>
  C38. A block holds what was added to it. Take a non-empty run of entries of one table, of fewer than
  4 GiB in all. Without debug assertions the builder takes every one of them, in whatever order the
  keys are; with debug assertions it takes the run, with the same result, if the keys ascend strictly
  and panics otherwise. Without compression it then writes a block whenever its estimate of the size is
  below the limit of the length field. What it writes, with any compressor that the decompressor
  inverts and with any checksum, decodes without error, and an iterator from the first entry of the
  decoded block returns exactly the entries that were added, in their order: the prefix compression,
  the restart points, the variable widths of the lengths and the footer are transparent.
\<close>

theorem block_build_decode_exact:
  assumes "inverts compressor decompressor" and "0 < interval" and "kvs \<noteq> []"
    and "\<forall>(k, x) \<in> set kvs. uk_table_id (fk_user_key k) = t" and "kvs_size kvs < 2 ^ 32"
  shows "(\<exists>b. blb_new interval alg \<bind> (\<lambda>b. blb_add_all b kvs) = Some b
        \<and> blb_new interval alg \<bind> (\<lambda>b. blb_add_all_debug b kvs) = (if sorted_wrt (<) (map fst kvs) then Some b else None)
        \<and> (alg = CompressionNone \<and> approximate_len b < 2 ^ 32 - 1 \<longrightarrow>
             (\<exists>out. blb_write compressor xxh64 interval alg kvs = Some (out, uncompressed_block_size b))))
    \<and> (\<forall>out n. blb_write compressor xxh64 interval alg kvs = Some (out, n) \<longrightarrow>
         (\<exists>blk it. decode_with_copy decompressor xxh64 out n = Some (Inr blk)
           \<and> it_seek_to_first (it_new blk) = Some it \<and> it_to_list it = Some kvs))"
proof (intro conjI allI impI)
  obtain b ps where b: "blb_new interval alg \<bind> (\<lambda>b. blb_add_all b kvs) = Some b" "builder_rep t b ps" "ps \<noteq> []"
    "length (entry_bytes ps) < 2 ^ 32" "blb_compression_algorithm b = alg" using write_rep [OF assms(2-5)] by blast
  then show "\<exists>b. blb_new interval alg \<bind> (\<lambda>b. blb_add_all b kvs) = Some b
        \<and> blb_new interval alg \<bind> (\<lambda>b. blb_add_all_debug b kvs) = (if sorted_wrt (<) (map fst kvs) then Some b else None)
        \<and> (alg = CompressionNone \<and> approximate_len b < 2 ^ 32 - 1 \<longrightarrow>
             (\<exists>out. blb_write compressor xxh64 interval alg kvs = Some (out, uncompressed_block_size b)))"
    using build_total [OF b(2,3,4)] add_debug [OF assms(2,4,5), of alg] by (auto simp: blb_write_def bind_eq_Some_conv)
next
  fix out n assume "blb_write compressor xxh64 interval alg kvs = Some (out, n)"
  from write_decode [OF assms this] obtain blk ps where blk: "decode_with_copy decompressor xxh64 out n = Some (Inr blk)"
    "block_rep t blk ps" "holds t ps kvs" by blast
  then have "block_rep t (it_block (it_new blk)) ps" by (simp add: it_new_def)
  from seek_to_first_at [OF this] it_to_list_at [OF _ blk(3)] blk(1)
  show "\<exists>blk it. decode_with_copy decompressor xxh64 out n = Some (Inr blk)
           \<and> it_seek_to_first (it_new blk) = Some it \<and> it_to_list it = Some kvs" by fastforce
qed

theorem block_build_decode_exact_witness:
  "(\<exists>out n blk it. blb_write (\<lambda>_ d. d) (\<lambda>_. 0) 2 CompressionNone sample_block = Some (out, n)
    \<and> decode_with_copy (\<lambda>_ d. Inr d) (\<lambda>_. 0) out n = Some (Inr blk)
    \<and> it_seek_to_first (it_new blk) = Some it \<and> it_to_list it = Some sample_block)
   \<and> blb_new 2 CompressionNone \<bind> (\<lambda>b. blb_add_all b (rev sample_block)) \<noteq> None
   \<and> blb_new 2 CompressionNone \<bind> (\<lambda>b. blb_add_all_debug b (rev sample_block)) = None"
proof -
  obtain out n where w: "blb_write (\<lambda>_ d. d) (\<lambda>_. 0) 2 CompressionNone sample_block = Some (out, n)" using sample_block_ok(4) by blast
  have inv: "inverts (\<lambda>_ d. d) (\<lambda>_ d. Inr d)" by (simp add: inverts_def)
  note t = block_build_decode_exact [OF inv _ sample_block_ok(3,1,2), of 2 CompressionNone "\<lambda>_. 0"]
  have "rev sample_block \<noteq> []" "\<forall>(k, x) \<in> set (rev sample_block). uk_table_id (fk_user_key k) = 7" "kvs_size (rev sample_block) < 2 ^ 32"
    using sample_block_ok(1-3) by (simp_all add: kvs_size_rev)
  note r = block_build_decode_exact [OF inv _ this, of 2 CompressionNone "\<lambda>_. 0"]
  have "\<not> sorted_wrt (<) (map fst (rev sample_block))"
    by (simp add: sample_block_def less_full_key_def less_user_key_def)
  with t w r show ?thesis by auto
qed

text \<open>
  C39. Seeking in a block is exact. In the decoded block of strictly ascending entries, \<open>seek\<close> puts a
  fresh iterator on the first entry whose key is at least the one asked for (or past the end), so that
  reading forwards returns the entries from there on; \<open>seek_le\<close> puts it on the last entry whose key is
  at most the one asked for, so that reading backwards returns the entries up to there in descending
  order; and from \<open>seek_to_last\<close> reading backwards returns the whole block. The binary search over the
  restart points, the scan after it and the re-scan of a restart run behind \<open>prev\<close> always end and
  never panic.
\<close>

theorem block_seek_exact:
  assumes "inverts compressor decompressor" and "0 < interval" and "kvs \<noteq> []"
    and "\<forall>(k, x) \<in> set kvs. uk_table_id (fk_user_key k) = t" and "kvs_size kvs < 2 ^ 32"
    and "sorted_wrt (<) (map fst kvs)" and "blb_write compressor xxh64 interval alg kvs = Some (out, n)"
  shows "\<exists>blk. decode_with_copy decompressor xxh64 out n = Some (Inr blk)
    \<and> it_seek (it_new blk) key \<bind> it_to_list = Some (dropWhile (\<lambda>(k, x). k < key) kvs)
    \<and> it_seek_le (it_new blk) key \<bind> it_to_list_back = Some (rev (takeWhile (\<lambda>(k, x). k \<le> key) kvs))
    \<and> it_seek_to_last (it_new blk) \<bind> it_to_list_back = Some (rev kvs)"
proof -
  from write_decode [OF assms(1-5,7)] obtain blk ps where blk: "decode_with_copy decompressor xxh64 out n = Some (Inr blk)"
    "block_rep t blk ps" and h: "holds t ps kvs" by blast
  have rep: "block_rep t (it_block (it_new blk)) ps" using blk(2) by (simp add: it_new_def)
  have len: "length ps = length kvs" using h by (simp add: holds_def list_all2_lengthD)
  let ?j = "length (takeWhile (\<lambda>(k, x). k < key) kvs)" and ?m = "length (takeWhile (\<lambda>(k, x). k \<le> key) kvs)"
  obtain it1 where it1: "it_seek (it_new blk) key = Some it1" "it_pos t ps it1 (if ?j < length ps then Some ?j else None)"
    using seek_at [OF rep h assms(6), of key] by (auto simp: Let_def)
  have "it_to_list it1 = Some (drop ?j kvs)"
    using it1(2) it_to_list_at [OF _ h, of it1] it_to_list_end(1) [of t ps it1] len by (cases "?j < length ps") auto
  moreover obtain it2 where it2: "it_seek_le (it_new blk) key = Some it2" "it_pos t ps it2 (if ?m = 0 then None else Some (?m - 1))"
    using seek_le_at [OF rep h assms(6), of key] by (auto simp: Let_def)
  moreover have "it_to_list_back it2 = Some (rev (take ?m kvs))"
    using it2(2) it_to_list_back_at [OF _ h, of it2 "?m - 1"] it_to_list_end(2) [of t ps it2] by (cases "?m = 0") auto
  moreover obtain it3 where it3: "it_seek_to_last (it_new blk) = Some it3" "it_at t ps it3 (length ps - 1)"
    using seek_to_last_at [OF rep] by blast
  moreover have "it_to_list_back it3 = Some (rev kvs)"
    using it_to_list_back_at [OF it3(2) h] len assms(3) by simp
  ultimately show ?thesis using blk(1) it1(1) by (simp add: drop_takeWhile take_takeWhile)
qed

theorem block_seek_exact_witness:
  "\<exists>out n blk. blb_write (\<lambda>_ d. d) (\<lambda>_. 0) 2 CompressionNone sample_block = Some (out, n)
    \<and> decode_with_copy (\<lambda>_ d. Inr d) (\<lambda>_. 0) out n = Some (Inr blk)
    \<and> it_seek (it_new blk) (FullKey (UserKey 7 [1, 3]) 300) \<bind> it_to_list = Some (drop 2 sample_block)"
proof -
  have s: "sorted_wrt (<) (map fst sample_block)" by (simp add: sample_block_def less_full_key_def less_user_key_def)
  have d: "dropWhile (\<lambda>(k, x). k < FullKey (UserKey 7 [1, 3]) 300) sample_block = drop 2 sample_block"
    by (simp add: sample_block_def less_full_key_def less_user_key_def)
  obtain out n where w: "blb_write (\<lambda>_ d. d) (\<lambda>_. 0) 2 CompressionNone sample_block = Some (out, n)" using sample_block_ok(4) by blast
  from block_seek_exact [OF _ _ sample_block_ok(3,1,2) s w, of "\<lambda>_ d. Inr d" "FullKey (UserKey 7 [1, 3]) 300"] w d
  show ?thesis by (auto simp: inverts_def)
qed

end
