(* ===== verification/Sst_Meta.thy ===== *)
theory Sst_Meta
  imports Block_Iterator
begin

text \<open>
  The metadata block of an SSTable (\<open>storage/src/hummock/sstable/mod.rs\<close>): length-prefixed slices,
  the entry of each block, delete events, and the encoder and decoder of the whole with its checksum,
  version and magic number.
\<close>

section \<open>Length-prefixed slices\<close>

definition put_length_prefixed_slice :: "bytes \<Rightarrow> bytes option" where
  "put_length_prefixed_slice sl = do { len \<leftarrow> checked_into_u32 (length sl); Some (le_u32 len @ sl) }"

definition get_length_prefixed_slice :: "bytes \<Rightarrow> (bytes \<times> bytes) option" where
  "get_length_prefixed_slice buf =
     do { (len, buf) \<leftarrow> get_u32_le buf;
          if unat len \<le> length buf then Some (take (unat len) buf, drop (unat len) buf) else None }"

text \<open>The loops that write and read a counted run of items.\<close>

fun put_all :: "('a \<Rightarrow> bytes option) \<Rightarrow> 'a list \<Rightarrow> bytes option" where
  "put_all put [] = Some []"
| "put_all put (x # xs) = do { b \<leftarrow> put x; bs \<leftarrow> put_all put xs; Some (b @ bs) }"

fun get_many :: "(bytes \<Rightarrow> ('a \<times> bytes) option) \<Rightarrow> nat \<Rightarrow> bytes \<Rightarrow> ('a list \<times> bytes) option" where
  "get_many get 0 buf = Some ([], buf)"
| "get_many get (Suc n) buf =
     do { (x, buf) \<leftarrow> get buf; (xs, buf) \<leftarrow> get_many get n buf; Some (x # xs, buf) }"

section \<open>Delete events\<close>

record monotonic_delete_event =
  mde_left_user_key :: user_key
  mde_is_exclude_left_key :: bool
  mde_new_epoch :: hummock_epoch

definition mde_encode :: "monotonic_delete_event \<Rightarrow> bytes" where
  "mde_encode e =
     uk_encode_length_prefixed (mde_left_user_key e) @ [if mde_is_exclude_left_key e then 1 else 0] @ le_u64 (mde_new_epoch e)"

definition mde_decode :: "bytes \<Rightarrow> (monotonic_delete_event \<times> bytes) option" where
  "mde_decode buf =
     do { (user_key, buf) \<leftarrow> uk_decode_length_prefixed buf;
          (flag, buf) \<leftarrow> get_u8 buf;
          is_exclude \<leftarrow> (if flag = 0 then Some False else if flag = 1 then Some True else None);
          (new_epoch, buf) \<leftarrow> get_u64_le buf;
          Some (\<lparr>mde_left_user_key = user_key, mde_is_exclude_left_key = is_exclude, mde_new_epoch = new_epoch\<rparr>, buf) }"

section \<open>The metadata of a block\<close>

record block_meta =
  bm_smallest_key :: bytes
  bm_offset :: u32
  bm_len :: u32
  bm_uncompressed_size :: u32
  bm_total_key_count :: u32
  bm_stale_key_count :: u32

definition bm_encode :: "block_meta \<Rightarrow> bytes option" where
  "bm_encode m =
     do { key \<leftarrow> put_length_prefixed_slice (bm_smallest_key m);
          Some (le_u32 (bm_offset m) @ le_u32 (bm_len m) @ le_u32 (bm_uncompressed_size m)
                @ le_u32 (bm_total_key_count m) @ le_u32 (bm_stale_key_count m) @ key) }"

definition bm_decode :: "bytes \<Rightarrow> (block_meta \<times> bytes) option" where
  "bm_decode buf =
     do { (offset, buf) \<leftarrow> get_u32_le buf;
          (len, buf) \<leftarrow> get_u32_le buf;
          (uncompressed_size, buf) \<leftarrow> get_u32_le buf;
          (total_key_count, buf) \<leftarrow> get_u32_le buf;
          (stale_key_count, buf) \<leftarrow> get_u32_le buf;
          (smallest_key, buf) \<leftarrow> get_length_prefixed_slice buf;
          Some (\<lparr>bm_smallest_key = smallest_key, bm_offset = offset, bm_len = len, bm_uncompressed_size = uncompressed_size,
                 bm_total_key_count = total_key_count, bm_stale_key_count = stale_key_count\<rparr>, buf) }"

definition bm_decode_from_v1 :: "bytes \<Rightarrow> (block_meta \<times> bytes) option" where
  "bm_decode_from_v1 buf =
     do { (offset, buf) \<leftarrow> get_u32_le buf;
          (len, buf) \<leftarrow> get_u32_le buf;
          (uncompressed_size, buf) \<leftarrow> get_u32_le buf;
          (smallest_key, buf) \<leftarrow> get_length_prefixed_slice buf;
          Some (\<lparr>bm_smallest_key = smallest_key, bm_offset = offset, bm_len = len, bm_uncompressed_size = uncompressed_size,
                 bm_total_key_count = 0, bm_stale_key_count = 0\<rparr>, buf) }"

definition bm_encoded_size :: "block_meta \<Rightarrow> nat" where
  "bm_encoded_size m = 24 + length (bm_smallest_key m)"

definition bm_table_id :: "block_meta \<Rightarrow> table_id option" where
  "bm_table_id m = map_option (\<lambda>k. uk_table_id (fk_user_key k)) (fk_decode (bm_smallest_key m))"

section \<open>The metadata of an SSTable\<close>

definition magic :: u32 where "magic = 0x5785ab73"
definition old_version :: u32 where "old_version = 1"
definition version :: u32 where "version = 2"

record sstable_meta =
  sm_block_metas :: "block_meta list"
  sm_bloom_filter :: bytes
  sm_estimated_size :: u32
  sm_key_count :: u32
  sm_smallest_key :: bytes
  sm_largest_key :: bytes
  sm_meta_offset :: u64
  sm_monotonic_tombstone_events :: "monotonic_delete_event list"
  sm_version :: u32

text \<open>What is written before the checksum.\<close>

definition sm_encode_body :: "sstable_meta \<Rightarrow> bytes option" where
  "sm_encode_body m =
     do { n \<leftarrow> checked_into_u32 (length (sm_block_metas m));
          block_metas \<leftarrow> put_all bm_encode (sm_block_metas m);
          bloom_filter \<leftarrow> put_length_prefixed_slice (sm_bloom_filter m);
          smallest_key \<leftarrow> put_length_prefixed_slice (sm_smallest_key m);
          largest_key \<leftarrow> put_length_prefixed_slice (sm_largest_key m);
          k \<leftarrow> checked_into_u32 (length (sm_monotonic_tombstone_events m));
          Some (le_u32 n @ block_metas @ bloom_filter @ le_u32 (sm_estimated_size m) @ le_u32 (sm_key_count m)
                @ smallest_key @ largest_key @ le_u32 k @ concat (map mde_encode (sm_monotonic_tombstone_events m))
                @ le_u64 (sm_meta_offset m)) }"

definition sm_encode_to :: "(bytes \<Rightarrow> u64) \<Rightarrow> sstable_meta \<Rightarrow> bytes option" where
  "sm_encode_to xxh64 m =
     do { body \<leftarrow> sm_encode_body m;
          Some (body @ le_u64 (xxh64 body) @ le_u32 version @ le_u32 magic) }"

definition sm_decode_body :: "u32 \<Rightarrow> bytes \<Rightarrow> sstable_meta option" where
  "sm_decode_body ver buf =
     do { (n, buf) \<leftarrow> get_u32_le buf;
          (block_metas, buf) \<leftarrow> (if ver = old_version then get_many bm_decode_from_v1 (unat n) buf
                                else get_many bm_decode (unat n) buf);
          (bloom_filter, buf) \<leftarrow> get_length_prefixed_slice buf;
          (estimated_size, buf) \<leftarrow> get_u32_le buf;
          (key_count, buf) \<leftarrow> get_u32_le buf;
          (smallest_key, buf) \<leftarrow> get_length_prefixed_slice buf;
          (largest_key, buf) \<leftarrow> get_length_prefixed_slice buf;
          (k, buf) \<leftarrow> get_u32_le buf;
          (events, buf) \<leftarrow> get_many mde_decode (unat k) buf;
          (meta_offset, buf) \<leftarrow> get_u64_le buf;
          Some \<lparr>sm_block_metas = block_metas, sm_bloom_filter = bloom_filter, sm_estimated_size = estimated_size,
                sm_key_count = key_count, sm_smallest_key = smallest_key, sm_largest_key = largest_key,
                sm_meta_offset = meta_offset, sm_monotonic_tombstone_events = events, sm_version = ver\<rparr> }"

definition sm_decode :: "(bytes \<Rightarrow> u64) \<Rightarrow> bytes \<Rightarrow> (block_error + sstable_meta) option" where
  "sm_decode xxh64 buf =
     (if length buf < 4 then None
      else do {
        (found, _) \<leftarrow> get_u32_le (drop (length buf - 4) buf);
        if found \<noteq> magic then Some (Inl (MagicMismatch magic found))
        else if length buf < 8 then None
        else do {
          (ver, _) \<leftarrow> get_u32_le (drop (length buf - 8) buf);
          if ver \<noteq> version \<and> ver \<noteq> old_version then Some (Inl (InvalidFormatVersion ver))
          else if length buf < 16 then None
          else do {
            (checksum, _) \<leftarrow> get_u64_le (drop (length buf - 16) buf);
            case xxhash64_verify xxh64 (take (length buf - 16) buf) checksum of
              Inl e \<Rightarrow> Some (Inl e)
            | Inr _ \<Rightarrow> map_option Inr (sm_decode_body ver (take (length buf - 16) buf)) } } })"

definition sm_encoded_size :: "sstable_meta \<Rightarrow> nat" where
  "sm_encoded_size m =
     4 + sum_list (map bm_encoded_size (sm_block_metas m)) + 4 + 4 + length (sm_bloom_filter m) + 4 + 4
     + 4 + length (sm_smallest_key m) + 4 + length (sm_largest_key m) + 8 + 8 + 4 + 4"

definition calculate_block_info :: "sstable_meta \<Rightarrow> nat \<Rightarrow> ((nat \<times> nat) \<times> nat) option" where
  "calculate_block_info m i =
     (if i < length (sm_block_metas m)
      then (let b = sm_block_metas m ! i in
            Some ((unat (bm_offset b), unat (bm_offset b) + unat (bm_len b)), unat (bm_uncompressed_size b)))
      else None)"

section \<open>The metadata is read as written\<close>

lemma put_length_prefixed_slice_eq:
  "put_length_prefixed_slice sl = (if length sl < 2 ^ 32 then Some (le_u32 (word_of_nat (length sl)) @ sl) else None)"
  by (simp add: put_length_prefixed_slice_def checked_into_u32_def)

lemma get_put_length_prefixed:
  "length sl < 2 ^ 32 \<Longrightarrow> get_length_prefixed_slice (le_u32 (word_of_nat (length sl)) @ sl @ rest) = Some (sl, rest)"
  by (simp add: get_length_prefixed_slice_def unat_word_of_nat_less)

lemma put_all_some: "(\<exists>bs. put_all put xs = Some bs) \<longleftrightarrow> (\<forall>x \<in> set xs. \<exists>b. put x = Some b)"
  by (induction xs) (auto simp: bind_eq_Some_conv)

lemma get_many_put_all:
  assumes "put_all put xs = Some bs" and "\<forall>x \<in> set xs. \<forall>b rest. put x = Some b \<longrightarrow> get (b @ rest) = Some (x, rest)"
  shows "get_many get (length xs) (bs @ rest) = Some (xs, rest)"
  using assms by (induction xs arbitrary: bs) (auto simp: bind_eq_Some_conv)

lemma put_all_length:
  assumes "put_all put xs = Some bs" and "\<forall>x \<in> set xs. \<forall>b. put x = Some b \<longrightarrow> length b = size_of x"
  shows "length bs = sum_list (map size_of xs)"
  using assms by (induction xs arbitrary: bs) (auto simp: bind_eq_Some_conv)

lemma put_all_Some: "put_all (\<lambda>x. Some (f x)) xs = Some (concat (map f xs))"
  by (induction xs) simp_all

lemma bm_codec:
  "(\<exists>b. bm_encode m = Some b) \<longleftrightarrow> length (bm_smallest_key m) < 2 ^ 32"
  "bm_encode m = Some b \<Longrightarrow> bm_decode (b @ rest) = Some (m, rest)"
  "bm_encode m = Some b \<Longrightarrow> length b = bm_encoded_size m"
  by (auto simp: bm_encode_def bm_decode_def bm_encoded_size_def put_length_prefixed_slice_eq get_put_length_prefixed split: if_splits)

text \<open>A version 1 block entry is one of version 2 without the two counts.\<close>

lemma bm_decode_v1:
  assumes "length key < 2 ^ 32"
  shows "bm_decode_from_v1 (le_u32 a @ le_u32 b @ le_u32 c @ le_u32 (word_of_nat (length key)) @ key @ rest)
    = Some (\<lparr>bm_smallest_key = key, bm_offset = a, bm_len = b, bm_uncompressed_size = c, bm_total_key_count = 0, bm_stale_key_count = 0\<rparr>, rest)"
  using assms by (simp add: bm_decode_from_v1_def get_put_length_prefixed)

lemma mde_codec: "length (uk_table_key (mde_left_user_key e)) < 2 ^ 32 \<Longrightarrow> mde_decode (mde_encode e @ rest) = Some (e, rest)"
  by (simp add: mde_encode_def mde_decode_def uk_length_prefixed_round_trip)

definition meta_fits :: "sstable_meta \<Rightarrow> bool" where
  "meta_fits m = (length (sm_block_metas m) < 2 ^ 32 \<and> (\<forall>b \<in> set (sm_block_metas m). length (bm_smallest_key b) < 2 ^ 32)
     \<and> length (sm_bloom_filter m) < 2 ^ 32 \<and> length (sm_smallest_key m) < 2 ^ 32 \<and> length (sm_largest_key m) < 2 ^ 32
     \<and> length (sm_monotonic_tombstone_events m) < 2 ^ 32)"

lemma sm_encode_body_some: "(\<exists>body. sm_encode_body m = Some body) \<longleftrightarrow> meta_fits m"
proof -
  have "(\<exists>bs. put_all bm_encode (sm_block_metas m) = Some bs) \<longleftrightarrow> (\<forall>b \<in> set (sm_block_metas m). length (bm_smallest_key b) < 2 ^ 32)"
    by (simp add: put_all_some bm_codec(1))
  then show ?thesis unfolding sm_encode_body_def meta_fits_def checked_into_u32_def put_length_prefixed_slice_eq
    by (cases "put_all bm_encode (sm_block_metas m)") auto
qed

lemma sm_decode_encode_body:
  assumes "sm_encode_body m = Some body"
    and "\<forall>e \<in> set (sm_monotonic_tombstone_events m). length (uk_table_key (mde_left_user_key e)) < 2 ^ 32"
  shows "sm_decode_body version body = Some (m\<lparr>sm_version := version\<rparr>)"
    and "length body + 16 = sm_encoded_size m + sum_list (map (\<lambda>e. length (mde_encode e)) (sm_monotonic_tombstone_events m))"
proof -
  have fit: "meta_fits m" using assms(1) sm_encode_body_some by blast
  obtain bs where bs: "put_all bm_encode (sm_block_metas m) = Some bs" using assms(1) by (auto simp: sm_encode_body_def bind_eq_Some_conv)
  have b: "get_many bm_decode (length (sm_block_metas m)) (bs @ rest) = Some (sm_block_metas m, rest)" for rest
    by (rule get_many_put_all [OF bs]) (use bm_codec(2) in blast)
  have e: "get_many mde_decode (length (sm_monotonic_tombstone_events m)) (concat (map mde_encode (sm_monotonic_tombstone_events m)) @ rest)
      = Some (sm_monotonic_tombstone_events m, rest)" for rest
    by (rule get_many_put_all [OF put_all_Some]) (use mde_codec assms(2) in auto)
  have u: "unat (word_of_nat n :: u32) = n" if "n < 2 ^ 32" for n using that by (simp add: unat_word_of_nat_less)
  have body: "body = le_u32 (word_of_nat (length (sm_block_metas m))) @ bs @ le_u32 (word_of_nat (length (sm_bloom_filter m))) @ sm_bloom_filter m
      @ le_u32 (sm_estimated_size m) @ le_u32 (sm_key_count m)
      @ le_u32 (word_of_nat (length (sm_smallest_key m))) @ sm_smallest_key m @ le_u32 (word_of_nat (length (sm_largest_key m))) @ sm_largest_key m
      @ le_u32 (word_of_nat (length (sm_monotonic_tombstone_events m)))
      @ concat (map mde_encode (sm_monotonic_tombstone_events m)) @ le_u64 (sm_meta_offset m)"
    using assms(1) bs fit by (simp add: sm_encode_body_def checked_into_u32_def put_length_prefixed_slice_eq meta_fits_def)
  show "sm_decode_body version body = Some (m\<lparr>sm_version := version\<rparr>)"
    unfolding body sm_decode_body_def using fit
    by (simp add: meta_fits_def b e u get_put_length_prefixed old_version_def version_def)
  show "length body + 16 = sm_encoded_size m + sum_list (map (\<lambda>e. length (mde_encode e)) (sm_monotonic_tombstone_events m))"
    unfolding body using put_all_length [OF bs, of bm_encoded_size] bm_codec(3) by (simp add: sm_encoded_size_def length_concat comp_def)
qed

lemma sm_decode_sealed:
  "sm_decode xxh64 (body @ le_u64 c @ le_u32 v @ le_u32 g) =
     (if g \<noteq> magic then Some (Inl (MagicMismatch magic g))
      else if v \<noteq> version \<and> v \<noteq> old_version then Some (Inl (InvalidFormatVersion v))
      else if xxh64 body \<noteq> c then Some (Inl (ChecksumMismatch c (xxh64 body)))
      else map_option Inr (sm_decode_body v body))"
proof -
  let ?buf = "body @ le_u64 c @ le_u32 v @ le_u32 g"
  have l: "length ?buf = length body + 16" by simp
  have d: "drop (length ?buf - 4) ?buf = le_u32 g" "drop (length ?buf - 8) ?buf = le_u32 v @ le_u32 g"
    "drop (length ?buf - 16) ?buf = le_u64 c @ le_u32 v @ le_u32 g" "take (length ?buf - 16) ?buf = body" unfolding l by simp_all
  show ?thesis unfolding sm_decode_def d using l by (simp add: xxhash64_verify_def)
qed

text \<open>
  C40. The metadata block of an SSTable is encoded exactly when its counts and lengths fit 32 bits (the
  encoder panics otherwise); whatever the checksum function, decoding it gives the metadata back, with
  the current format version; its length is the announced size when there are no delete events, and
  exceeds it by the bytes of the events otherwise. Decoding what does not end in the magic number, has an
  unknown version or a checksum that does not match reports that error, checked in this order.
\<close>

theorem sstable_meta_codec_exact:
  assumes "\<forall>e \<in> set (sm_monotonic_tombstone_events m). length (uk_table_key (mde_left_user_key e)) < 2 ^ 32"
  shows "((\<exists>buf. sm_encode_to xxh64 m = Some buf) \<longleftrightarrow> meta_fits m)
    \<and> (\<forall>buf. sm_encode_to xxh64 m = Some buf \<longrightarrow>
         sm_decode xxh64 buf = Some (Inr (m\<lparr>sm_version := version\<rparr>))
         \<and> length buf = sm_encoded_size m + sum_list (map (\<lambda>e. length (mde_encode e)) (sm_monotonic_tombstone_events m)))
    \<and> (\<forall>body c v g. g \<noteq> magic \<longrightarrow> sm_decode xxh64 (body @ le_u64 c @ le_u32 v @ le_u32 g) = Some (Inl (MagicMismatch magic g)))
    \<and> (\<forall>body c v. v \<noteq> version \<and> v \<noteq> old_version \<longrightarrow>
         sm_decode xxh64 (body @ le_u64 c @ le_u32 v @ le_u32 magic) = Some (Inl (InvalidFormatVersion v)))
    \<and> (\<forall>body c. xxh64 body \<noteq> c \<longrightarrow>
         sm_decode xxh64 (body @ le_u64 c @ le_u32 version @ le_u32 magic) = Some (Inl (ChecksumMismatch c (xxh64 body))))"
proof (intro conjI allI impI)
  show "(\<exists>buf. sm_encode_to xxh64 m = Some buf) \<longleftrightarrow> meta_fits m"
    using sm_encode_body_some [of m] by (auto simp: sm_encode_to_def bind_eq_Some_conv)
next
  fix buf assume "sm_encode_to xxh64 m = Some buf"
  then obtain body where body: "sm_encode_body m = Some body" "buf = body @ le_u64 (xxh64 body) @ le_u32 version @ le_u32 magic"
    by (auto simp: sm_encode_to_def bind_eq_Some_conv)
  show "sm_decode xxh64 buf = Some (Inr (m\<lparr>sm_version := version\<rparr>))"
    using sm_decode_encode_body(1) [OF body(1) assms] by (simp add: body(2) sm_decode_sealed)
  show "length buf = sm_encoded_size m + sum_list (map (\<lambda>e. length (mde_encode e)) (sm_monotonic_tombstone_events m))"
    using sm_decode_encode_body(2) [OF body(1) assms] by (simp add: body(2))
qed (simp_all add: sm_decode_sealed)

definition sample_meta :: sstable_meta where
  "sample_meta = \<lparr>sm_block_metas = [\<lparr>bm_smallest_key = [1, 2], bm_offset = 0, bm_len = 100, bm_uncompressed_size = 90,
       bm_total_key_count = 3, bm_stale_key_count = 1\<rparr>],
     sm_bloom_filter = [5], sm_estimated_size = 123, sm_key_count = 3, sm_smallest_key = [1, 2], sm_largest_key = [9],
     sm_meta_offset = 100, sm_monotonic_tombstone_events = [], sm_version = 1\<rparr>"

theorem sstable_meta_codec_exact_witness:
  "\<exists>buf. sm_encode_to (\<lambda>_. 7) sample_meta = Some buf
    \<and> sm_decode (\<lambda>_. 7) buf = Some (Inr (sample_meta\<lparr>sm_version := 2\<rparr>)) \<and> length buf = 82"
  using sstable_meta_codec_exact [of sample_meta "\<lambda>_. 7"]
  by (auto simp: meta_fits_def sm_encoded_size_def bm_encoded_size_def version_def sample_meta_def)

end
