(* ===== verification/Spec2Isabelle.thy ===== *)
theory Spec2Isabelle
  imports Overlap Level_Handler Group_Split State_Table_Info Bitmap Table_Watermark Change_Log Version_Proto Version_Read Sst_Meta
begin

text \<open>
  A verification development for Hummock, the storage engine of RisingWave.
\<close>

end
